(* ===== verification/Prelude.thy ===== *)
theory Prelude
  imports Main "HOL-Library.Word" "HOL-Library.AList"
begin

unbundle bit_operations_syntax

text \<open>
  Shared vocabulary of the development: the machine integers of the Rust code as words, byte
  strings, the big- and little-endian conversions of the standard library
  (\<open>to_be_bytes\<close>, \<open>from_be_bytes\<close>, \<open>to_le_bytes\<close>, \<open>from_le_bytes\<close>), slices, \<open>HashMap\<close> as
  an association list, \<open>BTreeMap\<close> as a sorted one, socket addresses, and the generic lemmas the components share.
  Arithmetic on words wraps around, as it does in the release profile of the workspace
  (the profile does not turn overflow checks on).
\<close>

section \<open>Machine integers, bytes, time\<close>

type_synonym u8 = "8 word"
type_synonym u16 = "16 word"
type_synonym u32 = "32 word"
type_synonym u64 = "64 word"
type_synonym bytes = "u8 list"

text \<open>An \<open>Instant\<close> is a number of ticks of the monotonic clock; \<open>duration_since\<close> saturates at
  zero, as truncating subtraction does.\<close>

type_synonym instant = nat
type_synonym duration = nat

named_theorems codec_defs \<open>definitions of the wire encoders and decoders\<close>
named_theorems byte_simps \<open>lengths and round trips of byte conversions\<close>
named_theorems map_simps \<open>lookups in association lists\<close>

section \<open>Byte order\<close>

definition to_le :: "nat \<Rightarrow> 'a::len word \<Rightarrow> bytes" where
  "to_le n w = map (\<lambda>i. ucast (drop_bit (8 * i) w)) [0..<n]"

primrec from_le :: "bytes \<Rightarrow> 'a::len word" where
  "from_le [] = 0"
| "from_le (b # bs) = ucast b OR push_bit 8 (from_le bs)"

definition to_be :: "nat \<Rightarrow> 'a::len word \<Rightarrow> bytes" where
  "to_be n w = rev (to_le n w)"

definition from_be :: "bytes \<Rightarrow> 'a::len word" where
  "from_be bs = from_le (rev bs)"

lemma length_to_le [simp, byte_simps]: "length (to_le n w) = n"
  by (simp add: to_le_def)

lemma length_to_be [simp, byte_simps]: "length (to_be n w) = n"
  by (simp add: to_be_def)

lemma bit_from_le:
  "bit (from_le bs :: 'a::len word) i \<longleftrightarrow>
     i < LENGTH('a) \<and> i div 8 < length bs \<and> bit (bs ! (i div 8)) (i mod 8)"
proof (induction bs arbitrary: i)
  case Nil
  show ?case by simp
next
  case (Cons b bs)
  have hi: "\<not> bit b k" if "8 \<le> k" for k
    using that bit_imp_le_length [of b k] by auto
  show ?case
  proof (cases "i < 8")
    case True
    then show ?thesis
      by (auto simp: bit_or_iff bit_push_bit_iff bit_ucast_iff)
  next
    case False
    then obtain j where i: "i = 8 + j"
      by (metis le_add_diff_inverse not_less)
    have d: "(8 + j) div 8 = Suc (j div 8)"
      by simp
    show ?thesis
      unfolding i d by (auto simp: bit_or_iff bit_push_bit_iff bit_ucast_iff Cons.IH hi)
  qed
qed

lemma nth_to_le: "i < n \<Longrightarrow> to_le n w ! i = ucast (drop_bit (8 * i) w)"
  by (simp add: to_le_def)

lemma from_le_to_le:
  assumes "LENGTH('a::len) \<le> 8 * n"
  shows "from_le (to_le n (w :: 'a word)) = w"
proof (rule bit_word_eqI)
  fix i
  assume "i < LENGTH('a)"
  with assms have "i div 8 < n" by auto
  then show "bit (from_le (to_le n w) :: 'a word) i \<longleftrightarrow> bit w i"
    using \<open>i < LENGTH('a)\<close>
    by (auto simp: bit_from_le nth_to_le bit_ucast_iff bit_drop_bit_eq)
qed

lemma to_le_from_le:
  assumes "LENGTH('a::len) = 8 * n" "length bs = n"
  shows "to_le n (from_le bs :: 'a word) = bs"
proof (rule nth_equalityI)
  show "length (to_le n (from_le bs :: 'a word)) = length bs"
    using assms by simp
next
  fix i
  assume "i < length (to_le n (from_le bs :: 'a word))"
  then have i: "i < n" by simp
  show "to_le n (from_le bs :: 'a word) ! i = bs ! i"
  proof (rule bit_word_eqI)
    fix k :: nat
    assume k: "k < LENGTH(8)"
    then have "(8 * i + k) div 8 = i" "(8 * i + k) mod 8 = k" by auto
    moreover have "8 * i + k < 8 * n" using i k by simp
    ultimately show "bit (to_le n (from_le bs :: 'a word) ! i) k \<longleftrightarrow> bit (bs ! i) k"
      using i k assms by (simp add: nth_to_le bit_ucast_iff bit_drop_bit_eq bit_from_le)
  qed
qed

lemma from_be_to_be:
  "LENGTH('a::len) \<le> 8 * n \<Longrightarrow> from_be (to_be n (w :: 'a word)) = w"
  by (simp add: from_be_def to_be_def from_le_to_le)

lemma to_be_from_be:
  "LENGTH('a::len) = 8 * n \<Longrightarrow> length bs = n \<Longrightarrow> to_be n (from_be bs :: 'a word) = bs"
  by (simp add: from_be_def to_be_def to_le_from_le)

lemma from_be_words [simp, byte_simps]:
  "from_be (to_be 2 (w16 :: u16)) = w16"
  "from_be (to_be 4 (w32 :: u32)) = w32"
  "from_be (to_be 8 (w64 :: u64)) = w64"
  by (simp_all add: from_be_to_be)

lemma from_le_words [simp, byte_simps]:
  "from_le (to_le 2 (w16 :: u16)) = w16"
  "from_le (to_le 4 (w32 :: u32)) = w32"
  "from_le (to_le 8 (w64 :: u64)) = w64"
  by (simp_all add: from_le_to_le)

lemma to_be_words [byte_simps]:
  "length bs = 2 \<Longrightarrow> to_be 2 (from_be bs :: u16) = bs"
  "length bs = 4 \<Longrightarrow> to_be 4 (from_be bs :: u32) = bs"
  "length bs = 8 \<Longrightarrow> to_be 8 (from_be bs :: u64) = bs"
  by (simp_all add: to_be_from_be)

lemma to_le_words [byte_simps]:
  "length bs = 2 \<Longrightarrow> to_le 2 (from_le bs :: u16) = bs"
  "length bs = 4 \<Longrightarrow> to_le 4 (from_le bs :: u32) = bs"
  "length bs = 8 \<Longrightarrow> to_le 8 (from_le bs :: u64) = bs"
  by (simp_all add: to_le_from_le)

lemma to_be_inj:
  "LENGTH('a::len) \<le> 8 * n \<Longrightarrow> to_be n (v :: 'a word) = to_be n w \<longleftrightarrow> v = w"
  by (metis from_be_to_be)

section \<open>Slices\<close>

text \<open>\<open>&xs[lo..hi]\<close> for bounds the caller has checked.\<close>

definition slice_of :: "nat \<Rightarrow> nat \<Rightarrow> 'a list \<Rightarrow> 'a list" where
  "slice_of lo hi xs = take (hi - lo) (drop lo xs)"

lemma length_slice [simp, byte_simps]:
  "hi \<le> length xs \<Longrightarrow> length (slice_of lo hi xs) = hi - lo"
  by (simp add: slice_of_def)

lemma slice_append_left [byte_simps]:
  "length xs = lo \<Longrightarrow> hi = lo + length ys \<Longrightarrow> slice_of lo hi (xs @ ys @ zs) = ys"
  by (simp add: slice_of_def)

lemma slice_split:
  assumes "lo \<le> mid" "mid \<le> hi"
  shows "slice_of lo mid xs @ slice_of mid hi xs = slice_of lo hi xs"
proof -
  have "hi - lo = (mid - lo) + (hi - mid)" "drop mid xs = drop (mid - lo) (drop lo xs)"
    using assms by simp_all
  then show ?thesis
    by (simp only: slice_of_def take_add)
qed

lemma slice_drop: "lo \<le> length xs \<Longrightarrow> slice_of lo hi xs @ drop hi xs = drop lo xs" if "lo \<le> hi"
  using that by (simp add: slice_of_def) (metis append_take_drop_id drop_drop le_add_diff_inverse2)

lemma take_slice_drop:
  "lo \<le> hi \<Longrightarrow> hi \<le> length xs \<Longrightarrow> take lo xs @ slice_of lo hi xs @ drop hi xs = xs"
  by (simp add: slice_drop)

section \<open>HashMap as an association list with distinct keys\<close>

text \<open>
  \<open>HashMap::insert\<close>, \<open>remove\<close>, \<open>get\<close>, \<open>len\<close> and \<open>retain\<close> are \<open>hm_insert\<close>, \<open>hm_remove\<close>,
  \<^const>\<open>map_of\<close>, \<^const>\<open>length\<close> and \<^const>\<open>filter\<close>. Rust leaves the iteration order of a
  \<open>HashMap\<close> unspecified; the list fixes one order, and the theorems of the components speak
  about lookups, sizes and sums, which do not depend on it.
\<close>

type_synonym ('k, 'v) hashmap = "('k \<times> 'v) list"

abbreviation hm_insert :: "'k \<Rightarrow> 'v \<Rightarrow> ('k, 'v) hashmap \<Rightarrow> ('k, 'v) hashmap" where
  "hm_insert \<equiv> AList.update"

abbreviation hm_remove :: "'k \<Rightarrow> ('k, 'v) hashmap \<Rightarrow> ('k, 'v) hashmap" where
  "hm_remove \<equiv> AList.delete"

definition wf_hm :: "('k, 'v) hashmap \<Rightarrow> bool" where
  "wf_hm m \<longleftrightarrow> distinct (map fst m)"

definition hm_sum :: "('v \<Rightarrow> nat) \<Rightarrow> ('k, 'v) hashmap \<Rightarrow> nat" where
  "hm_sum f m = sum_list (map (f \<circ> snd) m)"

lemmas map_lookup [simp, map_simps] = update_conv' delete_conv'

lemma wf_hm_Nil [simp, intro]: "wf_hm []"
  by (simp add: wf_hm_def)

lemma wf_hm_insert [simp, intro]: "wf_hm m \<Longrightarrow> wf_hm (hm_insert k v m)"
  by (simp add: wf_hm_def distinct_update)

lemma wf_hm_remove [simp, intro]: "wf_hm m \<Longrightarrow> wf_hm (hm_remove k m)"
  by (simp add: wf_hm_def distinct_delete)

lemma wf_hm_filter [simp, intro]: "wf_hm m \<Longrightarrow> wf_hm (filter P m)"
  by (simp add: wf_hm_def distinct_map_filter)

lemma wf_hm_map_ran [simp]: "wf_hm (map_ran f m) = wf_hm m"
  by (simp add: wf_hm_def)

lemma wf_hm_Cons: "wf_hm ((k, v) # m) \<longleftrightarrow> k \<notin> fst ` set m \<and> wf_hm m"
  by (simp add: wf_hm_def)

lemma map_of_set_iff: "wf_hm m \<Longrightarrow> map_of m k = Some v \<longleftrightarrow> (k, v) \<in> set m"
  by (simp add: wf_hm_def)

lemma map_of_filter_None: "map_of m k = None \<Longrightarrow> map_of (filter P m) k = None"
  by (auto simp: map_of_eq_None_iff)

lemma map_of_filter_hm:
  "wf_hm m \<Longrightarrow> map_of (filter P m) k =
     (case map_of m k of None \<Rightarrow> None | Some v \<Rightarrow> if P (k, v) then Some v else None)"
proof (induction m)
  case (Cons a m)
  obtain k' v' where a: "a = (k', v')" by (cases a)
  from Cons.prems have "map_of m k' = None" and "wf_hm m"
    by (auto simp: a wf_hm_Cons map_of_eq_None_iff)
  then show ?case
    using Cons.IH by (auto simp: a map_of_filter_None)
qed simp

lemma length_hm_insert:
  "length (hm_insert k v m) = (if map_of m k = None then Suc (length m) else length m)"
  by (induction m) auto

lemma length_hm_remove:
  "wf_hm m \<Longrightarrow> length (hm_remove k m) = (if map_of m k = None then length m else length m - 1)"
proof (induction m)
  case (Cons a m)
  then show ?case
    by (cases a; cases m) (auto simp: wf_hm_Cons map_of_eq_None_iff)
qed simp

lemma length_hm_remove_less: "map_of m k = Some v \<Longrightarrow> length (hm_remove k m) < length m"
proof (induction m)
  case (Cons a m)
  then show ?case
    by (cases a) (auto simp: le_imp_less_Suc length_delete_le)
qed simp

lemma hm_sum_simps [simp]:
  "hm_sum f [] = 0"
  "hm_sum f ((k, v) # m) = f v + hm_sum f m"
  by (simp_all add: hm_sum_def)

lemma hm_sum_insert:
  "wf_hm m \<Longrightarrow> hm_sum f (hm_insert k v m) + (case map_of m k of None \<Rightarrow> 0 | Some v' \<Rightarrow> f v')
     = hm_sum f m + f v"
proof (induction m)
  case (Cons a m)
  obtain k' v' where a: "a = (k', v')" by (cases a)
  from Cons.prems have "map_of m k' = None" and "wf_hm m"
    by (auto simp: a wf_hm_Cons map_of_eq_None_iff)
  then show ?case
    using Cons.IH by (cases "k = k'") (simp_all add: a)
qed simp

lemma hm_remove_absent: "map_of m k = None \<Longrightarrow> hm_remove k m = m"
  by (simp add: map_of_eq_None_iff)

lemma hm_sum_remove:
  "wf_hm m \<Longrightarrow> hm_sum f (hm_remove k m) + (case map_of m k of None \<Rightarrow> 0 | Some v' \<Rightarrow> f v')
     = hm_sum f m"
  by (induction m) (auto simp: wf_hm_Cons map_of_eq_None_iff split: option.splits)

lemma hm_sum_member: "map_of m k = Some v \<Longrightarrow> f v \<le> hm_sum f m"
  by (induction m) (auto split: if_splits)

lemma hm_insert_insert [simp]: "hm_insert k v (hm_insert k w m) = hm_insert k v m"
  by (induction m) auto

lemma hm_remove_insert [simp]: "hm_remove k (hm_insert k v m) = hm_remove k m"
  by (induction m) auto

lemma hm_sum_delete_le: "hm_sum f (hm_remove k m) \<le> hm_sum f m"
  by (induction m) auto

lemma hm_sum_dom: "wf_hm m \<Longrightarrow> hm_sum f m = (\<Sum>k \<in> dom (map_of m). f (the (map_of m k)))"
proof (induction m)
  case (Cons a m)
  obtain k v where a: "a = (k, v)" by (cases a)
  from Cons.prems have k: "k \<notin> dom (map_of m)" and wf: "wf_hm m"
    by (auto simp: a wf_hm_Cons dom_map_of_conv_image_fst)
  have "(\<Sum>j \<in> insert k (dom (map_of m)). f (the (map_of (a # m) j)))
      = f v + (\<Sum>j \<in> dom (map_of m). f (the (map_of (a # m) j)))"
    using k by (simp add: a finite_dom_map_of)
  also have "(\<Sum>j \<in> dom (map_of m). f (the (map_of (a # m) j)))
      = (\<Sum>j \<in> dom (map_of m). f (the (map_of m j)))"
    using k by (intro sum.cong) (auto simp: a)
  moreover have "dom (map_of (a # m)) = insert k (dom (map_of m))"
    by (auto simp: a)
  ultimately show ?case
    using wf Cons.IH by (simp only: a hm_sum_simps)
qed simp

lemma length_hm_dom: "wf_hm m \<Longrightarrow> length m = card (dom (map_of m))"
  by (metis distinct_card dom_map_of_conv_image_fst length_map list.set_map wf_hm_def)

lemma set_hm_insert:
  "wf_hm m \<Longrightarrow> set (hm_insert k v m) = insert (k, v) {p \<in> set m. fst p \<noteq> k}"
  by (induction m) (auto simp: wf_hm_Cons rev_image_eqI)

lemma set_hm_remove: "set (hm_remove k m) = {p \<in> set m. fst p \<noteq> k}"
  by (induction m) auto

section \<open>BTreeMap\<close>

text \<open>A \<open>BTreeMap\<close> is an association list in strictly ascending order of its keys, which is also its
  iteration order.\<close>

type_synonym ('k, 'v) btreemap = "('k \<times> 'v) list"

fun bt_insert :: "'k::linorder \<Rightarrow> 'v \<Rightarrow> ('k, 'v) btreemap \<Rightarrow> ('k, 'v) btreemap" where
  "bt_insert k v [] = [(k, v)]"
| "bt_insert k v ((k', v') # m) =
     (if k < k' then (k, v) # (k', v') # m
      else if k = k' then (k, v) # m
      else (k', v') # bt_insert k v m)"

definition wf_bt :: "('k::linorder, 'v) btreemap \<Rightarrow> bool" where
  "wf_bt m = sorted_wrt (<) (map fst m)"

lemma wf_bt_Nil [simp, intro]: "wf_bt []"
  by (simp add: wf_bt_def)

lemma wf_bt_Cons: "wf_bt ((k, v) # m) \<longleftrightarrow> (\<forall>k' \<in> fst ` set m. k < k') \<and> wf_bt m"
  by (auto simp: wf_bt_def)

lemma keys_bt_insert: "fst ` set (bt_insert k v m) = insert k (fst ` set m)"
  by (induction k v m rule: bt_insert.induct) auto

lemma wf_bt_insert [simp, intro]: "wf_bt m \<Longrightarrow> wf_bt (bt_insert k v m)"
  by (induction k v m rule: bt_insert.induct) (auto simp: wf_bt_Cons keys_bt_insert)

lemma map_of_bt_insert [simp, map_simps]: "wf_bt m \<Longrightarrow> map_of (bt_insert k v m) = (map_of m)(k \<mapsto> v)"
proof (induction k v m rule: bt_insert.induct)
  case (2 k v k' v' m)
  then have "k < k' \<Longrightarrow> map_of m k = None"
    by (force simp: wf_bt_Cons map_of_eq_None_iff)
  with 2 show ?case by (auto simp: wf_bt_Cons fun_eq_iff)
qed auto

lemma wf_bt_distinct: "wf_bt m \<Longrightarrow> distinct (map fst m)"
  by (simp add: wf_bt_def strict_sorted_iff)

lemma map_of_nth_key: "distinct (map fst m) \<Longrightarrow> i < length m \<Longrightarrow> map_of m (fst (m ! i)) = Some (snd (m ! i))"
  by (simp add: map_of_eq_Some_iff)

lemma bt_eqI:
  assumes "wf_bt m" "wf_bt n" "map_of m = map_of n"
  shows "m = n"
proof -
  have "map fst m = map fst n"
    using assms by (intro sorted_distinct_set_unique)
      (auto simp: wf_bt_def strict_sorted_iff dom_map_of_conv_image_fst [symmetric])
  moreover have "distinct (map fst m)" using assms(1) by (rule wf_bt_distinct)
  moreover have "m' = map (\<lambda>k. (k, the (map_of m' k))) (map fst m')" if "distinct (map fst m')" for m' :: "('a \<times> 'b) list"
    using that by (intro nth_equalityI) (auto simp: map_of_nth_key)
  ultimately show ?thesis
    using assms(3) by metis
qed

lemma bt_insert_last: "\<forall>x \<in> set m. fst x < k \<Longrightarrow> bt_insert k v m = m @ [(k, v)]"
  by (induction k v m rule: bt_insert.induct) auto

lemma fold_bt_insert_sorted: "wf_bt m \<Longrightarrow> fold (\<lambda>(k, v). bt_insert k v) m [] = m"
  by (induction m rule: rev_induct) (auto simp: wf_bt_def sorted_wrt_append bt_insert_last)

lemma set_bt_insert: "set (bt_insert k v m) \<subseteq> insert (k, v) (set m)"
  by (induction k v m rule: bt_insert.induct) auto

lemma fold_bt_insert:
  "wf_bt m \<Longrightarrow> wf_bt (fold (\<lambda>(k, v). bt_insert k v) xs m)"
  "set (fold (\<lambda>(k, v). bt_insert k v) xs m) \<subseteq> set m \<union> set xs"
proof (induction xs arbitrary: m)
  case (Cons x xs)
  { case 1 with Cons(1) show ?case by (auto split: prod.split) }
  { case 2 from Cons(2) [of "bt_insert (fst x) (snd x) m"] set_bt_insert [of "fst x" "snd x" m] show ?case
      by (auto simp: case_prod_beta) }
qed auto

lemma map_of_map_bt: "map_of (map (\<lambda>(k, v). (k, f k v)) m) k = map_option (f k) (map_of m k)"
  by (induction m) auto

section \<open>Results\<close>

text \<open>\<open>Result::ok\<close>.\<close>

definition result_ok :: "'e + 'a \<Rightarrow> 'a option" where
  "result_ok r = (case r of Inl _ \<Rightarrow> None | Inr x \<Rightarrow> Some x)"

lemma result_ok_Some: "result_ok r = Some x \<longleftrightarrow> r = Inr x"
  by (auto simp: result_ok_def split: sum.splits)

section \<open>Socket addresses\<close>

text \<open>\<open>std::net::SocketAddr\<close>: \<open>SocketAddrV6\<close> also carries a flow label and a scope id, which take
  part in equality but not in \<open>ip()\<close>.\<close>

datatype ip_addr = V4 u32 | V6 "128 word"

datatype socket_addr = SocketAddrV4 u32 u16 | SocketAddrV6 "128 word" u16 u32 u32

fun sa_ip :: "socket_addr \<Rightarrow> ip_addr" where
  "sa_ip (SocketAddrV4 a p) = V4 a"
| "sa_ip (SocketAddrV6 a p f s) = V6 a"

section \<open>Strings\<close>

text \<open>A Rust \<open>&str\<close> is its UTF-8 bytes; \<open>as_bytes\<close> is this conversion.\<close>

definition str_bytes :: "string \<Rightarrow> bytes" where
  "str_bytes s = map of_char s"

lemma length_str_bytes [simp, byte_simps]: "length (str_bytes s) = length s"
  by (simp add: str_bytes_def)

lemma of_char_u8_inj: "(of_char c :: u8) = of_char d \<longleftrightarrow> c = d"
proof
  assume "(of_char c :: u8) = of_char d"
  then have "of_nat (of_char c) = (of_nat (of_char d) :: u8)"
    by (simp only: of_nat_of_char)
  then have "(of_char c :: nat) mod 256 = of_char d mod 256"
    by (simp add: word_of_nat_eq_iff take_bit_eq_mod del: of_nat_of_char)
  then show "c = d"
    by simp
qed simp

lemma str_bytes_inj [simp]: "str_bytes s = str_bytes t \<longleftrightarrow> s = t"
  by (simp add: str_bytes_def inj_map_eq_map inj_def of_char_u8_inj)

text \<open>A byte as two lower-case hexadecimal digits (the format \<open>{:02x}\<close>).\<close>

definition hex_digit :: "u8 \<Rightarrow> char" where
  "hex_digit d = ''0123456789abcdef'' ! unat d"

definition hex_byte :: "u8 \<Rightarrow> string" where
  "hex_byte b = [hex_digit (drop_bit 4 b), hex_digit (take_bit 4 b)]"

section \<open>Index words\<close>

lemma unat_of_nat_index:
  "i < unat (w :: 'a::len word) \<Longrightarrow> unat (of_nat i :: 'a word) = i"
  by (metis le_unat_uoi less_imp_le_nat)

text \<open>Widening keeps the value, and narrowing undoes it.\<close>

lemma widen_u32 [simp]:
  "unat (ucast (w :: u32) :: u64) = unat w" "uint (ucast (w :: u32) :: u64) = uint w"
  "ucast (ucast (w :: u32) :: u64) = w"
proof -
  show "unat (ucast w :: u64) = unat w"
    using unsigned_less [of w, where 'a = nat] by (simp add: unsigned_ucast_eq take_bit_nat_eq_self)
  show "uint (ucast w :: u64) = uint w"
    using unsigned_less [of w, where 'a = int] by (simp add: unsigned_ucast_eq take_bit_int_eq_self)
  show "ucast (ucast w :: u64) = w"
    by (rule bit_word_eqI) (auto simp: bit_ucast_iff dest: bit_imp_le_length)
qed

lemma unat_plus_one: "(w :: 'a::len word) \<noteq> - 1 \<Longrightarrow> unat (w + 1) = Suc (unat w)"
  by (metis add.commute add_eq_0_iff2 unatSuc)

lemma word_less_plus_one: "(w :: 'a::len word) \<noteq> - 1 \<Longrightarrow> w < w + 1"
  by (simp add: word_less_nat_alt unat_plus_one)

lemma of_nat_index_less [simp]: "i < unat (w :: 'a::len word) \<Longrightarrow> (of_nat i :: 'a word) < w"
  by (simp add: word_less_nat_alt unat_of_nat_index)

section \<open>Iterators\<close>

text \<open>\<open>slice::chunks(n)\<close>: consecutive pieces of \<open>n\<close> elements, the last one possibly shorter.\<close>

function chunks :: "nat \<Rightarrow> 'a list \<Rightarrow> 'a list list" where
  "chunks n xs = (if n = 0 \<or> xs = [] then [] else take n xs # chunks n (drop n xs))"
  by pat_completeness auto
termination
  by (relation "measure (\<lambda>(n, xs). length xs)") auto

declare chunks.simps [simp del]

lemma chunks_Nil [simp]: "chunks n [] = []"
  by (simp add: chunks.simps)

lemma chunks_step: "0 < n \<Longrightarrow> xs \<noteq> [] \<Longrightarrow> chunks n xs = take n xs # chunks n (drop n xs)"
  by (simp add: chunks.simps)

lemma concat_chunks: "0 < n \<Longrightarrow> concat (chunks n xs) = xs"
proof (induction n xs rule: chunks.induct)
  case (1 n xs)
  then show ?case
    by (cases "xs = []") (simp_all add: chunks_step)
qed

lemma chunks_eq_Nil: "0 < n \<Longrightarrow> chunks n xs = [] \<longleftrightarrow> xs = []"
  by (cases "xs = []") (simp_all add: chunks_step)

lemma length_chunks: "0 < n \<Longrightarrow> length (chunks n xs) = (length xs + n - 1) div n"
proof (induction n xs rule: chunks.induct)
  case (1 n xs)
  show ?case
  proof (cases "xs = []")
    case False
    have "length (chunks n xs) = Suc ((length (drop n xs) + n - 1) div n)"
      using 1 False by (simp add: chunks_step)
    also have "\<dots> = (length xs + n - 1) div n"
    proof (cases "length xs \<le> n")
      case True
      obtain m where m: "length xs = Suc m" using False by (cases xs) auto
      then have "(m + n) div n = 1" using True by (simp add: div_add_self2)
      then show ?thesis using True \<open>0 < n\<close> m by simp
    next
      case False
      then obtain k where k: "length xs = Suc (n + k)"
        by (metis less_imp_Suc_add not_le)
      have "Suc k + n - 1 = k + n" "Suc (n + k) + n - 1 = (k + n) + n" "Suc (n + k) - n = Suc k"
        by simp_all
      then show ?thesis
        using \<open>0 < n\<close> by (simp only: length_drop k div_add_self2)
    qed
    finally show ?thesis .
  qed (use 1 in simp)
qed

lemma chunks_sizes: "c \<in> set (chunks n xs) \<Longrightarrow> c \<noteq> [] \<and> length c \<le> n"
proof (induction n xs rule: chunks.induct)
  case (1 n xs)
  then show ?case
    by (cases "n = 0 \<or> xs = []") (auto simp: chunks.simps [of n xs])
qed

lemma nth_chunks:
  "0 < n \<Longrightarrow> i < length (chunks n xs) \<Longrightarrow> chunks n xs ! i = take n (drop (i * n) xs)"
proof (induction n xs arbitrary: i rule: chunks.induct)
  case (1 n xs)
  then have "xs \<noteq> []" by auto
  with 1 show ?case
    by (cases i) (auto simp: chunks_step add.commute)
qed

text \<open>\<open>Iterator::min_by_key\<close>: the first element whose key is least.\<close>

primrec min_by_key :: "('a \<Rightarrow> 'b::linorder) \<Rightarrow> 'a list \<Rightarrow> 'a option" where
  "min_by_key f [] = None"
| "min_by_key f (x # xs) = (case min_by_key f xs of
     None \<Rightarrow> Some x
   | Some y \<Rightarrow> if f x \<le> f y then Some x else Some y)"

lemma min_by_key_None [simp]: "min_by_key f xs = None \<longleftrightarrow> xs = []"
  by (cases xs) (auto split: option.splits)

lemma min_by_key_Some:
  "min_by_key f xs = Some x \<Longrightarrow> x \<in> set xs \<and> (\<forall>y \<in> set xs. f x \<le> f y)"
proof (induction xs arbitrary: x)
  case (Cons a xs)
  then show ?case
    by (cases "min_by_key f xs") (force split: if_splits)+
qed simp

end
