(* ===== verification/Codec.thy ===== *)
theory Codec
  imports Prelude
begin

text \<open>
  The interfaces of the wire formats. A \<open>wire_codec\<close> is an encoder with a partial decoder that
  reads back every well-formed value; an \<open>exact_codec\<close> accepts nothing but encodings, so that
  valid byte strings and well-formed values correspond one to one; a \<open>framed_codec\<close> reads one
  self-delimiting message off the front of a buffer, and reading a buffer to its end gives back
  the messages written into it. Each format of the program interprets the strongest of the
  three that it satisfies.
\<close>

locale wire_codec =
  fixes encode :: "'a \<Rightarrow> bytes"
    and decode :: "bytes \<Rightarrow> 'a option"
    and wf :: "'a \<Rightarrow> bool"
  assumes decode_encode: "wf x \<Longrightarrow> decode (encode x) = Some x"
begin

lemma encode_inj: "wf x \<Longrightarrow> wf y \<Longrightarrow> encode x = encode y \<Longrightarrow> x = y"
  by (metis decode_encode option.inject)

end

locale exact_codec = wire_codec +
  assumes decode_exact: "decode bs = Some x \<Longrightarrow> wf x \<and> encode x = bs"
begin

lemma decode_iff: "decode bs = Some x \<longleftrightarrow> wf x \<and> bs = encode x"
  using decode_encode decode_exact by blast

lemma decode_inj: "decode bs = Some x \<Longrightarrow> decode cs = Some x \<Longrightarrow> bs = cs"
  by (metis decode_exact)

lemma decode_bij: "bij_betw encode {x. wf x} {bs. decode bs \<noteq> None}"
  by (rule bij_betw_byWitness [where f' = "the \<circ> decode"])
    (auto simp: decode_encode dest: decode_exact)

end

text \<open>The reading loop of a framed stream: take messages while a whole one is buffered.\<close>

locale framed_codec =
  fixes put :: "'a \<Rightarrow> bytes"
    and get :: "bytes \<Rightarrow> ('a \<times> bytes) option"
    and wf :: "'a \<Rightarrow> bool"
  assumes get_put: "wf x \<Longrightarrow> get (put x @ rest) = Some (x, rest)"
    and get_shrinks: "get bs = Some (x, rest) \<Longrightarrow> length rest < length bs"
begin

function drain :: "bytes \<Rightarrow> 'a list \<times> bytes" where
  "drain bs = (case get bs of None \<Rightarrow> ([], bs)
     | Some (x, rest) \<Rightarrow> (let (xs, r) = drain rest in (x # xs, r)))"
  by pat_completeness auto
termination
  by (relation "measure length") (auto dest: get_shrinks)

declare drain.simps [simp del]

lemma drain_append:
  assumes "\<And>x. x \<in> set xs \<Longrightarrow> wf x"
  shows "drain (concat (map put xs) @ rest) = (xs @ fst (drain rest), snd (drain rest))"
  using assms
proof (induction xs)
  case (Cons x xs)
  then have "get (put x @ concat (map put xs) @ rest) = Some (x, concat (map put xs) @ rest)"
    by (simp add: get_put)
  with Cons show ?case
    by (simp add: drain.simps [of "put x @ concat (map put xs) @ rest"])
qed simp

lemma drain_concat:
  "(\<And>x. x \<in> set xs \<Longrightarrow> wf x) \<Longrightarrow> get rest = None \<Longrightarrow>
     drain (concat (map put xs) @ rest) = (xs, rest)"
  using drain_append [of xs rest] by (simp add: drain.simps [of rest])

end

end
