(* ===== verification/Crypto.thy ===== *)
theory Crypto
  imports Codec
begin

text \<open>
  \<open>rust/telesthete/src/crypto.rs\<close>: band ids and keys derived from the pre-shared key, nonces,
  associated data, the AEAD suites and cipher negotiation. The primitives are crates outside the
  repository, so they are fields of the parameter record \<open>crypto_ops\<close>; \<open>crypto_ok\<close> states what
  their documentation promises: digest and key lengths, a tag of 16 bytes, and that decryption
  accepts exactly what encryption produces under the same key, nonce and associated data.
\<close>

section \<open>External primitives\<close>

record crypto_ops =
  sha256 :: "bytes \<Rightarrow> bytes"
  hkdf_sha256 :: "bytes \<Rightarrow> bytes \<Rightarrow> bytes \<Rightarrow> bytes"
  chacha_encrypt :: "bytes \<Rightarrow> bytes \<Rightarrow> bytes \<Rightarrow> bytes \<Rightarrow> bytes option"
  chacha_decrypt :: "bytes \<Rightarrow> bytes \<Rightarrow> bytes \<Rightarrow> bytes \<Rightarrow> bytes option"
  aes_encrypt :: "bytes \<Rightarrow> bytes \<Rightarrow> bytes \<Rightarrow> bytes \<Rightarrow> bytes option"
  aes_decrypt :: "bytes \<Rightarrow> bytes \<Rightarrow> bytes \<Rightarrow> bytes \<Rightarrow> bytes option"

definition aead_ok ::
  "(bytes \<Rightarrow> bytes \<Rightarrow> bytes \<Rightarrow> bytes \<Rightarrow> bytes option) \<Rightarrow>
   (bytes \<Rightarrow> bytes \<Rightarrow> bytes \<Rightarrow> bytes \<Rightarrow> bytes option) \<Rightarrow> bool" where
  "aead_ok enc dec \<longleftrightarrow>
     (\<forall>k n a m c. dec k n a c = Some m \<longleftrightarrow> enc k n a m = Some c) \<and>
     (\<forall>k n a m c. enc k n a m = Some c \<longrightarrow> length c = length m + 16)"

definition crypto_ok :: "crypto_ops \<Rightarrow> bool" where
  "crypto_ok C \<longleftrightarrow>
     (\<forall>x. length (sha256 C x) = 32) \<and>
     (\<forall>s i n. length (hkdf_sha256 C s i n) = 32) \<and>
     aead_ok (chacha_encrypt C) (chacha_decrypt C) \<and>
     aead_ok (aes_encrypt C) (aes_decrypt C)"

section \<open>Constants, keys, nonces\<close>

type_synonym band_id = bytes
type_synonym key = bytes

definition BAND_ID_LEN :: nat where "BAND_ID_LEN = 16"
definition KEY_LEN :: nat where "KEY_LEN = 32"
definition NONCE_LEN :: nat where "NONCE_LEN = 12"
definition TAG_LEN :: nat where "TAG_LEN = 16"
definition BASELINE_CIPHER :: string where "BASELINE_CIPHER = ''chacha20-poly1305''"

datatype crypto_error = Encrypt | Decrypt

definition derive_band_id :: "crypto_ops \<Rightarrow> bytes \<Rightarrow> band_id" where
  "derive_band_id C psk = take BAND_ID_LEN (sha256 C psk)"

definition key_info :: "string \<Rightarrow> bytes" where
  "key_info cipher_id = str_bytes ''encryption-'' @ str_bytes cipher_id"

definition derive_key_for :: "crypto_ops \<Rightarrow> bytes \<Rightarrow> string \<Rightarrow> key" where
  "derive_key_for C psk cipher_id =
     hkdf_sha256 C (str_bytes ''telesthete-v1'') psk (key_info cipher_id)"

definition derive_key :: "crypto_ops \<Rightarrow> bytes \<Rightarrow> key" where
  "derive_key C psk = derive_key_for C psk BASELINE_CIPHER"

definition session_info :: "string \<Rightarrow> u64 \<Rightarrow> bytes" where
  "session_info cipher_id session =
     str_bytes ''encryption-'' @ str_bytes cipher_id @ str_bytes ''-session-'' @ to_be 8 session"

definition derive_session_key :: "crypto_ops \<Rightarrow> bytes \<Rightarrow> string \<Rightarrow> u64 \<Rightarrow> key" where
  "derive_session_key C psk cipher_id session =
     hkdf_sha256 C (str_bytes ''telesthete-v1'') psk (session_info cipher_id session)"

definition nonce_bytes :: "u64 \<Rightarrow> bytes" where
  "nonce_bytes seq = replicate 4 0 @ to_be 8 seq"

section \<open>Suites\<close>

datatype suite = ChaCha20Poly1305 | Aes256Gcm

definition suite_from_id :: "string \<Rightarrow> suite option" where
  "suite_from_id cipher_id =
     (if cipher_id = ''chacha20-poly1305'' then Some ChaCha20Poly1305
      else if cipher_id = ''aes256-gcm'' then Some Aes256Gcm
      else None)"

fun suite_id :: "suite \<Rightarrow> string" where
  "suite_id ChaCha20Poly1305 = ''chacha20-poly1305''"
| "suite_id Aes256Gcm = ''aes256-gcm''"

definition build_aad :: "u8 \<Rightarrow> u16 \<Rightarrow> bytes" where
  "build_aad channel_type channel_id =
     [channel_type, ucast (drop_bit 8 channel_id), ucast channel_id]"

definition select_cipher :: "string list \<Rightarrow> string list \<Rightarrow> string" where
  "select_cipher initiator_prefs responder_supported =
     (case List.find (\<lambda>cid. cid = BASELINE_CIPHER \<or> cid \<in> set responder_supported) initiator_prefs of
        Some cid \<Rightarrow> cid
      | None \<Rightarrow> BASELINE_CIPHER)"

definition encrypt_suite ::
  "crypto_ops \<Rightarrow> suite \<Rightarrow> key \<Rightarrow> u64 \<Rightarrow> bytes \<Rightarrow> bytes \<Rightarrow> crypto_error + bytes" where
  "encrypt_suite C s k seq aad plaintext =
     (let n = nonce_bytes seq in
      case (case s of ChaCha20Poly1305 \<Rightarrow> chacha_encrypt C k n aad plaintext
                    | Aes256Gcm \<Rightarrow> aes_encrypt C k n aad plaintext) of
        None \<Rightarrow> Inl Encrypt
      | Some ct \<Rightarrow> Inr ct)"

definition decrypt_suite ::
  "crypto_ops \<Rightarrow> suite \<Rightarrow> key \<Rightarrow> u64 \<Rightarrow> bytes \<Rightarrow> bytes \<Rightarrow> crypto_error + bytes" where
  "decrypt_suite C s k seq aad ciphertext =
     (let n = nonce_bytes seq in
      case (case s of ChaCha20Poly1305 \<Rightarrow> chacha_decrypt C k n aad ciphertext
                    | Aes256Gcm \<Rightarrow> aes_decrypt C k n aad ciphertext) of
        None \<Rightarrow> Inl Decrypt
      | Some pt \<Rightarrow> Inr pt)"

section \<open>Facts about the primitives and the derivations\<close>

lemma aead_okD:
  assumes "aead_ok enc dec"
  shows "dec k n a c = Some m \<longleftrightarrow> enc k n a m = Some c"
    and "enc k n a m = Some c \<Longrightarrow> length c = length m + 16"
  using assms by (auto simp: aead_ok_def)

lemma crypto_okD:
  assumes "crypto_ok C"
  shows "length (sha256 C x) = 32" "length (hkdf_sha256 C s i n) = 32"
    and "aead_ok (chacha_encrypt C) (chacha_decrypt C)" "aead_ok (aes_encrypt C) (aes_decrypt C)"
  using assms by (auto simp: crypto_ok_def)

lemma encrypt_suite_Inr:
  "encrypt_suite C s k seq aad m = Inr c \<longleftrightarrow>
     (case s of ChaCha20Poly1305 \<Rightarrow> chacha_encrypt C k (nonce_bytes seq) aad m
              | Aes256Gcm \<Rightarrow> aes_encrypt C k (nonce_bytes seq) aad m) = Some c"
  by (auto simp: encrypt_suite_def Let_def split: option.splits)

lemma decrypt_suite_Inr:
  "decrypt_suite C s k seq aad c = Inr m \<longleftrightarrow>
     (case s of ChaCha20Poly1305 \<Rightarrow> chacha_decrypt C k (nonce_bytes seq) aad c
              | Aes256Gcm \<Rightarrow> aes_decrypt C k (nonce_bytes seq) aad c) = Some m"
  by (auto simp: decrypt_suite_def Let_def split: option.splits)

lemma decrypt_encrypt_suite:
  assumes "crypto_ok C"
  shows "decrypt_suite C s k seq aad c = Inr m \<longleftrightarrow> encrypt_suite C s k seq aad m = Inr c"
  using crypto_okD(3,4) [OF assms]
  by (cases s) (simp_all add: decrypt_suite_Inr encrypt_suite_Inr aead_okD(1))

lemma length_encrypt_suite:
  assumes "crypto_ok C" "encrypt_suite C s k seq aad m = Inr c"
  shows "length c = length m + TAG_LEN"
  using crypto_okD(3,4) [OF assms(1)] assms(2)
  by (cases s) (auto simp: encrypt_suite_Inr TAG_LEN_def dest: aead_okD(2))

lemma length_derive_band_id: "crypto_ok C \<Longrightarrow> length (derive_band_id C psk) = BAND_ID_LEN"
  by (simp add: derive_band_id_def BAND_ID_LEN_def crypto_okD)

lemma nonce_bytes_inj: "nonce_bytes s = nonce_bytes t \<longleftrightarrow> s = t"
  by (auto simp: nonce_bytes_def to_be_inj)

lemma length_nonce_bytes [simp]: "length (nonce_bytes s) = NONCE_LEN"
  by (simp add: nonce_bytes_def NONCE_LEN_def)

lemma suite_from_id_id [simp]: "suite_from_id (suite_id s) = Some s"
  by (cases s) (simp_all add: suite_from_id_def)

lemma suite_from_id_Some: "suite_from_id c = Some s \<Longrightarrow> c = suite_id s"
  by (auto simp: suite_from_id_def split: if_splits)

lemma u16_bytes: "[ucast (drop_bit 8 w), ucast w] = to_be 2 (w :: u16)"
  by (simp add: to_be_def to_le_def upt_rec numeral_2_eq_2)

lemma build_aad_alt: "build_aad t c = t # to_be 2 c"
  by (simp add: build_aad_def flip: u16_bytes)

lemma build_aad_inj: "build_aad t c = build_aad t' c' \<longleftrightarrow> t = t' \<and> c = c'"
  by (simp add: build_aad_alt to_be_inj)

lemma session_info_inj:
  "session_info c s = session_info c' s' \<longleftrightarrow> c = c' \<and> s = s'"
proof
  assume eq: "session_info c s = session_info c' s'"
  then have "length c = length c'"
    by (auto simp: session_info_def dest: arg_cong [where f = length])
  with eq show "c = c' \<and> s = s'"
    by (simp add: session_info_def to_be_inj)
qed simp

end
