(* ===== verification/Framing.thy ===== *)
theory Framing
  imports Crypto
begin

text \<open>
  \<open>rust/telesthete/src/framing.rs\<close>: the 27-byte cleartext header, whole packets
  (header followed by ciphertext) and route ids. Writing into a caller's buffer is a function from
  the buffer to the buffer; a buffer that is too short panics in Rust and is \<open>None\<close> here.
\<close>

definition HEADER_LEN :: nat where "HEADER_LEN = 27"
definition MIN_PACKET_LEN :: nat where "MIN_PACKET_LEN = HEADER_LEN + TAG_LEN"

datatype channel_type = Control | Stream | Channel | Board | Drop | Route | Addressed

fun ct_u8 :: "channel_type \<Rightarrow> u8" where
  "ct_u8 Control = 0x00"
| "ct_u8 Stream = 0x01"
| "ct_u8 Channel = 0x02"
| "ct_u8 Board = 0x03"
| "ct_u8 Drop = 0x04"
| "ct_u8 Route = 0x05"
| "ct_u8 Addressed = 0x06"

definition ct_from_u8 :: "u8 \<Rightarrow> channel_type option" where
  "ct_from_u8 x =
     (if x = 0x00 then Some Control
      else if x = 0x01 then Some Stream
      else if x = 0x02 then Some Channel
      else if x = 0x03 then Some Board
      else if x = 0x04 then Some Drop
      else if x = 0x05 then Some Route
      else if x = 0x06 then Some Addressed
      else None)"

definition ROUTE_ID_DOMAIN :: bytes where
  "ROUTE_ID_DOMAIN = str_bytes ''telesthete-route-v1:''"

fun be_pairs :: "bytes \<Rightarrow> u16 list" where
  "be_pairs (a # b # bs) = from_be [a, b] # be_pairs bs"
| "be_pairs _ = []"

definition route_id_for :: "crypto_ops \<Rightarrow> string \<Rightarrow> u16" where
  "route_id_for C name =
     (let d = sha256 C (ROUTE_ID_DOMAIN @ str_bytes name) in
      case List.find (\<lambda>v. v \<noteq> 0) (be_pairs d) of Some v \<Rightarrow> v | None \<Rightarrow> 1)"

record header =
  h_band_id :: band_id
  h_channel_type :: channel_type
  h_channel_id :: u16
  h_sequence :: u64

datatype framing_error = TooShort nat | UnknownChannelType u8 | FramingCrypto crypto_error

definition header_write :: "header \<Rightarrow> bytes \<Rightarrow> (bytes \<times> nat) option" where
  "header_write h out =
     (if length out < HEADER_LEN then None
      else Some (h_band_id h @ [ct_u8 (h_channel_type h)] @ to_be 2 (h_channel_id h)
                 @ to_be 8 (h_sequence h) @ drop HEADER_LEN out, HEADER_LEN))"

definition header_parse :: "bytes \<Rightarrow> framing_error + header" where
  "header_parse input =
     (if length input < HEADER_LEN then Inl (TooShort (length input))
      else case ct_from_u8 (input ! 16) of
        None \<Rightarrow> Inl (UnknownChannelType (input ! 16))
      | Some ct \<Rightarrow> Inr \<lparr>h_band_id = take BAND_ID_LEN input,
                         h_channel_type = ct,
                         h_channel_id = from_be (slice_of 17 19 input),
                         h_sequence = from_be (slice_of 19 27 input)\<rparr>)"

definition encode_packet_suite ::
  "crypto_ops \<Rightarrow> suite \<Rightarrow> key \<Rightarrow> band_id \<Rightarrow> channel_type \<Rightarrow> u16 \<Rightarrow> u64 \<Rightarrow> bytes \<Rightarrow>
   framing_error + bytes" where
  "encode_packet_suite C s k band_id channel_type channel_id sequence plaintext =
     (let aad = build_aad (ct_u8 channel_type) channel_id in
      case encrypt_suite C s k sequence aad plaintext of
        Inl e \<Rightarrow> Inl (FramingCrypto e)
      | Inr ct \<Rightarrow>
          (let h = \<lparr>h_band_id = band_id, h_channel_type = channel_type,
                    h_channel_id = channel_id, h_sequence = sequence\<rparr>
           in case header_write h (replicate HEADER_LEN 0) of
                Some (out, _) \<Rightarrow> Inr (out @ ct)
              | None \<Rightarrow> Inl (TooShort 0)))"

definition encode_packet ::
  "crypto_ops \<Rightarrow> key \<Rightarrow> band_id \<Rightarrow> channel_type \<Rightarrow> u16 \<Rightarrow> u64 \<Rightarrow> bytes \<Rightarrow> framing_error + bytes" where
  "encode_packet C = encode_packet_suite C ChaCha20Poly1305"

definition decode_packet_suite ::
  "crypto_ops \<Rightarrow> suite \<Rightarrow> key \<Rightarrow> bytes \<Rightarrow> framing_error + (header \<times> bytes)" where
  "decode_packet_suite C s k packet =
     (if length packet < MIN_PACKET_LEN then Inl (TooShort (length packet))
      else case header_parse packet of
        Inl e \<Rightarrow> Inl e
      | Inr h \<Rightarrow>
          (let aad = build_aad (ct_u8 (h_channel_type h)) (h_channel_id h) in
           case decrypt_suite C s k (h_sequence h) aad (drop HEADER_LEN packet) of
             Inl e \<Rightarrow> Inl (FramingCrypto e)
           | Inr pt \<Rightarrow> Inr (h, pt)))"

definition decode_packet :: "crypto_ops \<Rightarrow> key \<Rightarrow> bytes \<Rightarrow> framing_error + (header \<times> bytes)" where
  "decode_packet C = decode_packet_suite C ChaCha20Poly1305"

section \<open>Header lemmas\<close>

lemma ct_from_u8_u8 [simp]: "ct_from_u8 (ct_u8 t) = Some t"
  by (cases t) (simp_all add: ct_from_u8_def)

lemma ct_from_u8_Some: "ct_from_u8 x = Some t \<Longrightarrow> x = ct_u8 t"
  by (auto simp: ct_from_u8_def split: if_splits)

lemma ct_from_u8_None: "ct_from_u8 x = None \<longleftrightarrow> 7 \<le> x"
proof -
  have "x < 7 \<Longrightarrow> x = 0 \<or> x = 1 \<or> x = 2 \<or> x = 3 \<or> x = 4 \<or> x = 5 \<or> x = 6"
    by (simp add: word_less_nat_alt word_unat_eq_iff) linarith
  then show ?thesis
    by (cases "x < 7") (auto simp: ct_from_u8_def not_less word_le_nat_alt)
qed

definition wf_header :: "header \<Rightarrow> bool" where
  "wf_header h \<longleftrightarrow> length (h_band_id h) = BAND_ID_LEN"

definition header_bytes :: "header \<Rightarrow> bytes" where
  "header_bytes h = h_band_id h @ [ct_u8 (h_channel_type h)] @ to_be 2 (h_channel_id h)
     @ to_be 8 (h_sequence h)"

lemma length_header_bytes [simp]: "wf_header h \<Longrightarrow> length (header_bytes h) = HEADER_LEN"
  by (simp add: header_bytes_def wf_header_def HEADER_LEN_def BAND_ID_LEN_def)

lemma header_write_alt:
  "HEADER_LEN \<le> length out \<Longrightarrow>
     header_write h out = Some (header_bytes h @ drop HEADER_LEN out, HEADER_LEN)"
  by (simp add: header_write_def header_bytes_def)

lemma header_parse_bytes:
  assumes "wf_header h"
  shows "header_parse (header_bytes h @ rest) = Inr h"
proof -
  have l: "length (h_band_id h) = 16"
    using assms by (simp add: wf_header_def BAND_ID_LEN_def)
  have "slice_of 17 19 (header_bytes h @ rest) = to_be 2 (h_channel_id h)"
    "slice_of 19 27 (header_bytes h @ rest) = to_be 8 (h_sequence h)"
    using l by (simp_all add: header_bytes_def slice_of_def)
  then show ?thesis
    using l by (simp add: header_parse_def header_bytes_def HEADER_LEN_def BAND_ID_LEN_def nth_append)
qed

lemma header_parse_exact:
  assumes "header_parse input = Inr h"
  shows "wf_header h \<and> input = header_bytes h @ drop HEADER_LEN input"
proof -
  from assms have len: "27 \<le> length input"
    and ct: "ct_from_u8 (input ! 16) = Some (h_channel_type h)"
    and f: "h_band_id h = take 16 input" "h_channel_id h = from_be (slice_of 17 19 input)"
      "h_sequence h = from_be (slice_of 19 27 input)"
    by (auto simp: header_parse_def HEADER_LEN_def BAND_ID_LEN_def split: if_splits option.splits)
  have "input = take 16 input @ slice_of 16 17 input @ slice_of 17 19 input @ slice_of 19 27 input @ drop 27 input"
    using len by (simp add: slice_drop)
  moreover have "slice_of 16 17 input = [ct_u8 (h_channel_type h)]"
    using len ct_from_u8_Some [OF ct] by (simp add: slice_of_def take_Suc hd_drop_conv_nth)
  ultimately show ?thesis
    using f len by (simp add: wf_header_def BAND_ID_LEN_def HEADER_LEN_def header_bytes_def
        to_be_words)
qed

text \<open>The header as a codec: a frame is a header and whatever follows it.\<close>

definition header_frame :: "header \<times> bytes \<Rightarrow> bytes" where
  "header_frame = (\<lambda>(h, rest). case header_write h (replicate HEADER_LEN 0 @ rest) of
     Some (out, _) \<Rightarrow> out | None \<Rightarrow> [])"

definition header_unframe :: "bytes \<Rightarrow> (header \<times> bytes) option" where
  "header_unframe bs = (case header_parse bs of
     Inl _ \<Rightarrow> None | Inr h \<Rightarrow> Some (h, drop HEADER_LEN bs))"

lemma header_frame_alt: "header_frame (h, rest) = header_bytes h @ rest"
  by (simp add: header_frame_def header_write_alt)

interpretation hdr: exact_codec header_frame header_unframe "\<lambda>(h, rest). wf_header h"
proof unfold_locales
  fix x :: "header \<times> bytes"
  assume "case x of (h, rest) \<Rightarrow> wf_header h"
  then show "header_unframe (header_frame x) = Some x"
    by (cases x) (simp add: header_unframe_def header_frame_alt header_parse_bytes)
next
  fix bs x
  assume "header_unframe bs = Some x"
  then obtain h where h: "header_parse bs = Inr h" and x: "x = (h, drop HEADER_LEN bs)"
    by (auto simp: header_unframe_def split: sum.splits)
  from header_parse_exact [OF h] show "(case x of (h, rest) \<Rightarrow> wf_header h) \<and> header_frame x = bs"
    by (simp add: x header_frame_alt)
qed

section \<open>Packets\<close>

lemma header_eta [simp]:
  "\<lparr>h_band_id = h_band_id h, h_channel_type = h_channel_type h, h_channel_id = h_channel_id h,
    h_sequence = h_sequence h\<rparr> = (h :: header)"
  by simp

lemma encode_packet_suite_Inr:
  "encode_packet_suite C s k b t c n pt = Inr pkt \<longleftrightarrow>
     (\<exists>ct. encrypt_suite C s k n (build_aad (ct_u8 t) c) pt = Inr ct \<and>
        pkt = header_bytes \<lparr>h_band_id = b, h_channel_type = t, h_channel_id = c, h_sequence = n\<rparr> @ ct)"
  by (auto simp: encode_packet_suite_def header_write_alt Let_def split: sum.splits)

lemma length_encode_packet:
  assumes "crypto_ok C" "length b = BAND_ID_LEN" "encode_packet_suite C s k b t c n pt = Inr pkt"
  shows "length pkt = MIN_PACKET_LEN + length pt"
proof -
  have "wf_header \<lparr>h_band_id = b, h_channel_type = t, h_channel_id = c, h_sequence = n\<rparr>"
    using assms(2) by (simp add: wf_header_def)
  then show ?thesis
    using assms length_encrypt_suite [OF assms(1)]
    by (auto simp: encode_packet_suite_Inr MIN_PACKET_LEN_def)
qed

lemma decode_packet_suite_Inr:
  "decode_packet_suite C s k pkt = Inr (h, pt) \<longleftrightarrow>
     MIN_PACKET_LEN \<le> length pkt \<and> header_parse pkt = Inr h \<and>
     decrypt_suite C s k (h_sequence h) (build_aad (ct_u8 (h_channel_type h)) (h_channel_id h))
       (drop HEADER_LEN pkt) = Inr pt"
  by (auto simp: decode_packet_suite_def Let_def not_less split: sum.splits)

lemma decode_packet_iff:
  assumes "crypto_ok C"
  shows "decode_packet_suite C s k pkt = Inr (h, pt) \<longleftrightarrow>
    wf_header h \<and>
    encode_packet_suite C s k (h_band_id h) (h_channel_type h) (h_channel_id h) (h_sequence h) pt
      = Inr pkt"
    (is "?decodes \<longleftrightarrow> _ \<and> ?encodes")
proof
  assume ?decodes
  then have parse: "header_parse pkt = Inr h"
    and dec: "decrypt_suite C s k (h_sequence h)
      (build_aad (ct_u8 (h_channel_type h)) (h_channel_id h)) (drop HEADER_LEN pkt) = Inr pt"
    by (simp_all add: decode_packet_suite_Inr)
  from dec have "encrypt_suite C s k (h_sequence h)
      (build_aad (ct_u8 (h_channel_type h)) (h_channel_id h)) pt = Inr (drop HEADER_LEN pkt)"
    by (simp add: decrypt_encrypt_suite [OF assms])
  moreover have "wf_header h" "pkt = header_bytes h @ drop HEADER_LEN pkt"
    using header_parse_exact [OF parse] by simp_all
  ultimately show "wf_header h \<and> ?encodes"
    unfolding encode_packet_suite_Inr by (metis header_eta)
next
  assume enc: "wf_header h \<and> ?encodes"
  then obtain ct where ct: "encrypt_suite C s k (h_sequence h)
      (build_aad (ct_u8 (h_channel_type h)) (h_channel_id h)) pt = Inr ct"
    and pkt: "pkt = header_bytes h @ ct"
    by (auto simp: encode_packet_suite_Inr)
  with enc show ?decodes
    using length_encrypt_suite [OF assms ct]
    by (simp add: decode_packet_suite_Inr MIN_PACKET_LEN_def header_parse_bytes
        decrypt_encrypt_suite [OF assms])
qed

text \<open>C19. A packet decodes to a header and a plaintext exactly when it is the encoding of that
  plaintext under that header, for every suite and key: what one end encodes the other end reads
  back, and nothing that is not an encoding under the key is accepted.\<close>

theorem packet_decodes_iff_encoded:
  assumes "crypto_ok C"
  shows "decode_packet_suite C s k pkt = Inr (h, pt) \<longleftrightarrow>
    wf_header h \<and>
    encode_packet_suite C s k (h_band_id h) (h_channel_type h) (h_channel_id h) (h_sequence h) pt
      = Inr pkt"
  by (rule decode_packet_iff [OF assms])

text \<open>A concrete instance of the primitives, for evaluation: the tag is the nonce and the
  associated data cut to 16 bytes.\<close>

definition demo_tag :: "bytes \<Rightarrow> bytes \<Rightarrow> bytes" where
  "demo_tag n a = take 16 (n @ a @ replicate 16 0)"

definition demo_encrypt :: "bytes \<Rightarrow> bytes \<Rightarrow> bytes \<Rightarrow> bytes \<Rightarrow> bytes option" where
  "demo_encrypt k n a m = Some (m @ demo_tag n a)"

definition demo_decrypt :: "bytes \<Rightarrow> bytes \<Rightarrow> bytes \<Rightarrow> bytes \<Rightarrow> bytes option" where
  "demo_decrypt k n a c =
     (if 16 \<le> length c \<and> drop (length c - 16) c = demo_tag n a then Some (take (length c - 16) c)
      else None)"

definition demo_hash :: "bytes \<Rightarrow> bytes" where
  "demo_hash x = take 32 (x @ replicate 32 1)"

definition demo_ops :: crypto_ops where
  "demo_ops = \<lparr>sha256 = demo_hash, hkdf_sha256 = (\<lambda>s i n. demo_hash (n @ s @ i)),
     chacha_encrypt = demo_encrypt, chacha_decrypt = demo_decrypt,
     aes_encrypt = demo_encrypt, aes_decrypt = demo_decrypt\<rparr>"

lemma demo_aead: "aead_ok demo_encrypt demo_decrypt"
proof -
  have tag: "length (demo_tag n a) = 16" for n a
    by (simp add: demo_tag_def)
  have "demo_decrypt k n a c = Some m \<longleftrightarrow> demo_encrypt k n a m = Some c" for k n a c m
    using tag [of n a]
    by (auto simp: demo_decrypt_def demo_encrypt_def) (metis append_take_drop_id)
  with tag show ?thesis
    by (auto simp: aead_ok_def demo_encrypt_def)
qed

lemma demo_ops_ok: "crypto_ok demo_ops"
proof -
  have "length (demo_hash x) = 32" for x
    by (simp add: demo_hash_def)
  then show ?thesis
    by (simp add: crypto_ok_def demo_ops_def demo_aead)
qed

theorem packet_decodes_iff_encoded_witness:
  "decode_packet_suite demo_ops Aes256Gcm []
     (replicate 16 7 @ [1, 0, 1, 0, 0, 0, 0, 0, 0, 0, 42, 104, 105,
        0, 0, 0, 0, 0, 0, 0, 0, 0, 0, 0, 42, 1, 0, 1, 0])
   = Inr (\<lparr>h_band_id = replicate 16 7, h_channel_type = Stream, h_channel_id = 1, h_sequence = 42\<rparr>,
          [104, 105])"
  by (subst packet_decodes_iff_encoded [OF demo_ops_ok]) code_simp

text \<open>A route id is never 0, the id reserved for broadcast, whatever the digest.\<close>

theorem route_id_nonzero: "route_id_for C name \<noteq> 0"
  by (auto simp: route_id_for_def Let_def find_Some_iff split: option.splits)

end
