(* ===== verification/Replay.thy ===== *)
theory Replay
  imports Prelude
begin

text \<open>
  The replay protection of section 3.3 of the specification as an interface. Every receiving
  component keeps, per key (sender address and channel id, or board, or drop), the highest outer
  sequence it accepted, and drops a packet whose sequence is not above it; a restart of the peer
  clears the marks of that peer. The contract is stated once; each component interprets it on its
  own table.
\<close>

text \<open>
  What a receiver with such a table promises: an event that makes it act carries a key and a stamp
  (a sequence, or an epoch and a sequence) above the key's mark, which becomes the mark, and a mark
  only ever rises unless the event clears it. Then what it acts on, per key and between clears, comes
  with strictly increasing stamps: nothing is acted on twice and nothing stale is acted on.
\<close>

locale fresh_receiver =
  fixes mark :: "'s \<Rightarrow> 'k \<Rightarrow> 't::linorder option"
    and step :: "'e \<Rightarrow> 's \<Rightarrow> 's"
    and acts :: "'e \<Rightarrow> 's \<Rightarrow> bool"
    and stamp :: "'e \<Rightarrow> 's \<Rightarrow> 'k \<times> 't"
    and clears :: "'e \<Rightarrow> 's \<Rightarrow> 'k \<Rightarrow> bool"
  assumes acts_above: "acts e s \<Longrightarrow> stamp e s = (k, q) \<Longrightarrow> \<not> clears e s k \<Longrightarrow> mark s k = Some p \<Longrightarrow> p < q"
    and acts_mark: "acts e s \<Longrightarrow> stamp e s = (k, q) \<Longrightarrow> \<not> clears e s k \<Longrightarrow> mark (step e s) k = Some q"
    and mark_rises: "\<not> clears e s k \<Longrightarrow> mark s k = Some p \<Longrightarrow> \<exists>p'. mark (step e s) k = Some p' \<and> p \<le> p'"
begin

fun acted :: "'e list \<Rightarrow> 's \<Rightarrow> ('k \<times> 't) list" where
  "acted [] s = []"
| "acted (e # es) s = (if acts e s then [stamp e s] else []) @ acted es (step e s)"

fun undisturbed :: "'k \<Rightarrow> 'e list \<Rightarrow> 's \<Rightarrow> bool" where
  "undisturbed k [] s = True"
| "undisturbed k (e # es) s = (\<not> clears e s k \<and> undisturbed k es (step e s))"

definition acted_on :: "'k \<Rightarrow> 'e list \<Rightarrow> 's \<Rightarrow> 't list" where
  "acted_on k es s = map snd (filter (\<lambda>x. fst x = k) (acted es s))"

lemma acted_on_Cons:
  "acted_on k (e # es) s =
     (if acts e s \<and> fst (stamp e s) = k then [snd (stamp e s)] else []) @ acted_on k es (step e s)"
  by (simp add: acted_on_def)

lemma acted_on_above:
  assumes "undisturbed k es s"
  shows "sorted_wrt (<) (acted_on k es s) \<and> (\<forall>p. mark s k = Some p \<longrightarrow> (\<forall>q \<in> set (acted_on k es s). p < q))"
  using assms
proof (induction es arbitrary: s)
  case (Cons e es)
  have IH: "sorted_wrt (<) (acted_on k es (step e s))"
    "\<And>p q. mark (step e s) k = Some p \<Longrightarrow> q \<in> set (acted_on k es (step e s)) \<Longrightarrow> p < q"
    and c: "\<not> clears e s k" using Cons by auto
  show ?case
  proof (cases "acts e s \<and> fst (stamp e s) = k")
    case True
    then have st: "stamp e s = (k, snd (stamp e s))" by (metis prod.collapse)
    from True have "mark (step e s) k = Some (snd (stamp e s))" by (intro acts_mark [OF _ st c]) simp
    then have "\<And>q. q \<in> set (acted_on k es (step e s)) \<Longrightarrow> snd (stamp e s) < q" by (rule IH(2))
    with True IH(1) acts_above [OF _ st c] show ?thesis
      by (fastforce simp: acted_on_Cons)
  next
    case False
    have "p < q" if "mark s k = Some p" "q \<in> set (acted_on k es (step e s))" for p q
      using mark_rises [OF c that(1)] IH(2) that by fastforce
    with False IH(1) show ?thesis by (auto simp: acted_on_Cons)
  qed
qed (simp add: acted_on_def)

lemma acted_increasing: "undisturbed k es s \<Longrightarrow> sorted_wrt (<) (acted_on k es s)"
  using acted_on_above by blast

lemma undisturbed_if_never: "(\<And>e s. e \<in> set es \<Longrightarrow> \<not> clears e s k) \<Longrightarrow> undisturbed k es s"
  by (induction es arbitrary: s) auto

end

text \<open>The table itself: check a sequence against the mark of its key, and raise the mark.\<close>

locale replay_guard =
  fixes mark :: "'w \<Rightarrow> 'k \<Rightarrow> u64 option"
    and check :: "'k \<Rightarrow> u64 \<Rightarrow> 'w \<Rightarrow> 'w \<times> bool"
  assumes check_stale: "mark w k = Some p \<Longrightarrow> s \<le> p \<Longrightarrow> check k s w = (w, False)"
    and check_fresh: "(\<And>p. mark w k = Some p \<Longrightarrow> p < s) \<Longrightarrow> snd (check k s w)"
    and check_mark: "snd (check k s w) \<Longrightarrow> mark (fst (check k s w)) k = Some s"
    and check_other: "k' \<noteq> k \<Longrightarrow> mark (fst (check k s w)) k' = mark w k'"
begin

lemma check_iff: "snd (check k s w) \<longleftrightarrow> (case mark w k of None \<Rightarrow> True | Some p \<Rightarrow> p < s)"
proof (cases "mark w k")
  case (Some p)
  then show ?thesis
    using check_stale [of w k p s] check_fresh [of w k s] by (cases "s \<le> p") auto
qed (use check_fresh [of w k s] in simp)

lemma check_drop: "\<not> snd (check k s w) \<Longrightarrow> fst (check k s w) = w"
  using check_stale [of w k _ s] by (auto simp: check_iff not_less split: option.splits)

lemma replay_rejected:
  assumes "snd (check k s w)" "fst (check k s w) = w1" "s' \<le> s"
  shows "\<not> snd (check k s' w1)"
  using check_mark [of k s w] assms by (auto simp: check_iff)

end

sublocale replay_guard \<subseteq> fresh_receiver mark "\<lambda>(k, s). fst \<circ> check k s" "\<lambda>(k, s) w. snd (check k s w)" "\<lambda>e _. e" "\<lambda>_ _ _. False"
proof
  fix e k s p
  assume "mark s k = Some p"
  then show "\<exists>p'. mark ((case e of (k, s) \<Rightarrow> fst \<circ> check k s) s) k = Some p' \<and> p \<le> p'"
    using check_mark [of k "snd e" s] check_iff [of k "snd e" s] check_drop [of k "snd e" s]
      check_other [of k "fst e" "snd e" s]
    by (cases e; cases "fst e = k"; cases "snd (check k (snd e) s)") auto
qed (auto simp: check_iff check_mark)

text \<open>The table most components use: a hash map from the key to the last sequence.\<close>

definition watermark_check :: "'k \<Rightarrow> u64 \<Rightarrow> ('k, u64) hashmap \<Rightarrow> ('k, u64) hashmap \<times> bool" where
  "watermark_check k s w = (case map_of w k of
     Some prev \<Rightarrow> if s \<le> prev then (w, False) else (hm_insert k s w, True)
   | None \<Rightarrow> (hm_insert k s w, True))"

definition watermark_clear :: "('k \<Rightarrow> bool) \<Rightarrow> ('k, u64) hashmap \<Rightarrow> ('k, u64) hashmap" where
  "watermark_clear gone w = filter (\<lambda>(k, _). \<not> gone k) w"

interpretation watermark: replay_guard map_of watermark_check
  by unfold_locales (auto simp: watermark_check_def not_le split: option.splits)

lemma watermark_check_iff:
  "snd (watermark_check k s w) \<longleftrightarrow> (case map_of w k of None \<Rightarrow> True | Some p \<Rightarrow> p < s)"
  by (rule watermark.check_iff)

lemma map_of_watermark_check:
  "map_of (fst (watermark_check k s w)) k' =
     (if snd (watermark_check k s w) \<and> k' = k then Some s else map_of w k')"
  by (auto simp: watermark_check_def split: option.splits)

lemma map_of_watermark_clear: "map_of (watermark_clear gone w) k = (if gone k then None else map_of w k)"
  by (induction w) (auto simp: watermark_clear_def)

end
