(* ===== verification/Transport.thy ===== *)
theory Transport
  imports Framing Replay "HOL-Library.Sublist"
begin

text \<open>
  \<open>rust/telesthete/src/transport.rs\<close>: the keys and counters behind one UDP socket, encryption and
  sending of a packet, and the receive loop's treatment of one datagram. The socket is outside the
  model: whether \<open>send_to\<close> succeeds is an argument. A subscriber of a route is a number.
\<close>

record inbound =
  in_from :: socket_addr
  in_header :: header
  in_payload :: bytes

record outbound =
  ob_to :: socket_addr
  ob_channel_type :: channel_type
  ob_channel_id :: u16
  ob_plaintext :: bytes
  ob_priority :: u8
  ob_use_base_key :: bool

datatype transport_error = TransportIo | TransportFraming framing_error | TransportClosed

record transport =
  tr_base_key :: key
  tr_session_key :: key
  tr_send_keys :: "(socket_addr, key \<times> suite) hashmap"
  tr_peer_keys :: "(socket_addr, key \<times> suite) hashmap"
  tr_last_seen :: "(socket_addr, instant) hashmap"
  tr_band_id :: band_id
  tr_seq :: u64
  tr_routes :: "(channel_type, nat) hashmap"

section \<open>Operations\<close>

text \<open>The start value takes eight random bytes and halves them, so that the top bit is clear.\<close>

definition sequence_random :: "bytes \<Rightarrow> u64" where
  "sequence_random b = drop_bit 1 (from_be b)"

definition sequence_next :: "transport \<Rightarrow> transport \<times> u64" where
  "sequence_next t = (t\<lparr>tr_seq := tr_seq t + 1\<rparr>, tr_seq t)"

definition transport_bind :: "key \<Rightarrow> band_id \<Rightarrow> bytes \<Rightarrow> transport" where
  "transport_bind k bid random =
     \<lparr>tr_base_key = k, tr_session_key = k, tr_send_keys = [], tr_peer_keys = [], tr_last_seen = [],
      tr_band_id = bid, tr_seq = sequence_random random, tr_routes = []\<rparr>"

definition set_session_key :: "key \<Rightarrow> transport \<Rightarrow> transport" where
  "set_session_key k t = t\<lparr>tr_session_key := k\<rparr>"

definition register_peer_key :: "socket_addr \<Rightarrow> key \<Rightarrow> suite \<Rightarrow> transport \<Rightarrow> transport" where
  "register_peer_key a k s t = t\<lparr>tr_peer_keys := hm_insert a (k, s) (tr_peer_keys t)\<rparr>"

definition register_send_key :: "socket_addr \<Rightarrow> key \<Rightarrow> suite \<Rightarrow> transport \<Rightarrow> transport" where
  "register_send_key a k s t = t\<lparr>tr_send_keys := hm_insert a (k, s) (tr_send_keys t)\<rparr>"

definition forget_peer :: "socket_addr \<Rightarrow> transport \<Rightarrow> transport" where
  "forget_peer a t = t\<lparr>tr_last_seen := hm_remove a (tr_last_seen t),
     tr_peer_keys := hm_remove a (tr_peer_keys t), tr_send_keys := hm_remove a (tr_send_keys t)\<rparr>"

definition transport_route :: "channel_type \<Rightarrow> nat \<Rightarrow> transport \<Rightarrow> transport" where
  "transport_route ty sub t = t\<lparr>tr_routes := hm_insert ty sub (tr_routes t)\<rparr>"

definition send_key_for :: "outbound \<Rightarrow> transport \<Rightarrow> key \<times> suite" where
  "send_key_for out t =
     (if ob_use_base_key out then (tr_base_key t, ChaCha20Poly1305)
      else case map_of (tr_send_keys t) (ob_to out) of
             Some ks \<Rightarrow> ks
           | None \<Rightarrow> (tr_session_key t, ChaCha20Poly1305))"

text \<open>The result is the datagram handed to the socket and its destination.\<close>

definition transport_send ::
  "crypto_ops \<Rightarrow> bool \<Rightarrow> outbound \<Rightarrow> transport \<Rightarrow> transport \<times> (transport_error + socket_addr \<times> bytes)" where
  "transport_send C io_ok out t =
     (let (t, seq) = sequence_next t;
          (key, suite) = send_key_for out t
      in case encode_packet_suite C suite key (tr_band_id t) (ob_channel_type out) (ob_channel_id out)
                seq (ob_plaintext out) of
           Inl e \<Rightarrow> (t, Inl (TransportFraming e))
         | Inr pkt \<Rightarrow> (t, if io_ok then Inr (ob_to out, pkt) else Inl TransportIo))"

text \<open>The loops of the endpoints that send several packets stop at the first error. The list says for
  each packet whether the socket accepts it.\<close>

fun transport_send_all ::
  "crypto_ops \<Rightarrow> (bool \<times> outbound) list \<Rightarrow> transport \<Rightarrow> transport \<times> (transport_error + unit) \<times> (socket_addr \<times> bytes) list" where
  "transport_send_all C [] t = (t, Inr (), [])"
| "transport_send_all C ((io_ok, out) # outs) t =
     (case transport_send C io_ok out t of
        (t, Inl e) \<Rightarrow> (t, Inl e, [])
      | (t, Inr d) \<Rightarrow> (let (t, r, ds) = transport_send_all C outs t in (t, r, d # ds)))"

text \<open>A datagram is tried under the sender's registered key, then under the base key.\<close>

definition recv_decode :: "crypto_ops \<Rightarrow> socket_addr \<Rightarrow> bytes \<Rightarrow> transport \<Rightarrow> (header \<times> bytes) option" where
  "recv_decode C from data t =
     (case (case map_of (tr_peer_keys t) from of
              Some (k, s) \<Rightarrow> result_ok (decode_packet_suite C s k data)
            | None \<Rightarrow> None) of
        Some v \<Rightarrow> Some v
      | None \<Rightarrow> result_ok (decode_packet_suite C ChaCha20Poly1305 (tr_base_key t) data))"

text \<open>One turn of the receive loop: the subscriber the packet is dispatched to, if any.\<close>

definition transport_recv ::
  "crypto_ops \<Rightarrow> instant \<Rightarrow> socket_addr \<Rightarrow> bytes \<Rightarrow> transport \<Rightarrow> transport \<times> (nat \<times> inbound) option" where
  "transport_recv C now from data t =
     (case recv_decode C from data t of
        None \<Rightarrow> (t, None)
      | Some (h, payload) \<Rightarrow>
          if h_band_id h \<noteq> tr_band_id t then (t, None)
          else (t\<lparr>tr_last_seen := hm_insert from now (tr_last_seen t)\<rparr>,
                map_option (\<lambda>sub. (sub, \<lparr>in_from = from, in_header = h, in_payload = payload\<rparr>))
                  (map_of (tr_routes t) (h_channel_type h))))"

section \<open>Nonces\<close>

lemma sequence_random_top: "sequence_random b < 2 ^ 63"
proof -
  have "unat (drop_bit 1 w) < 2 ^ 63" for w :: u64
    using unsigned_less [of w, where 'a = nat] by (simp add: drop_bit_eq_div unat_div_distrib)
  then show ?thesis
    by (simp add: sequence_random_def word_less_nat_alt)
qed

text \<open>A run of sends, failing ones included, and the datagrams that went out, with their destinations.\<close>

fun transport_sends ::
  "crypto_ops \<Rightarrow> (bool \<times> outbound) list \<Rightarrow> transport \<Rightarrow> transport \<times> (socket_addr \<times> bytes) list" where
  "transport_sends C [] t = (t, [])"
| "transport_sends C ((ok, out) # outs) t =
     (let (t, r) = transport_send C ok out t; (t, ds) = transport_sends C outs t
      in (t, case r of Inr d \<Rightarrow> d # ds | Inl _ \<Rightarrow> ds))"

text \<open>The nonce a receiver of the packet decrypts with: the one its header's sequence number gives.\<close>

definition packet_nonce :: "bytes \<Rightarrow> bytes option" where
  "packet_nonce pkt = (case header_parse pkt of Inr h \<Rightarrow> Some (nonce_bytes (h_sequence h)) | Inl _ \<Rightarrow> None)"

lemma send_key_for_seq [simp]: "send_key_for out (t\<lparr>tr_seq := n\<rparr>) = send_key_for out t"
  by (simp add: send_key_for_def split: option.split)

lemma transport_send_state: "fst (transport_send C ok out t) = t\<lparr>tr_seq := tr_seq t + 1\<rparr>"
  by (simp add: transport_send_def sequence_next_def split: prod.split sum.split)

lemma transport_send_Inr:
  "transport_send C ok out t = (t', Inr (to, pkt)) \<longleftrightarrow>
     ok \<and> to = ob_to out \<and> t' = t\<lparr>tr_seq := tr_seq t + 1\<rparr> \<and>
     encode_packet_suite C (snd (send_key_for out t)) (fst (send_key_for out t)) (tr_band_id t)
       (ob_channel_type out) (ob_channel_id out) (tr_seq t) (ob_plaintext out) = Inr pkt"
  by (auto simp: transport_send_def sequence_next_def send_key_for_def split: prod.splits sum.splits option.splits)

text \<open>The datagram a send of the run puts out under the sequence number \<open>n\<close>.\<close>

definition sends_as :: "crypto_ops \<Rightarrow> transport \<Rightarrow> (bool \<times> outbound) list \<Rightarrow> u64 \<Rightarrow> socket_addr \<times> bytes \<Rightarrow> bool" where
  "sends_as C t outs n d \<longleftrightarrow> (\<exists>out \<in> snd ` set outs. fst d = ob_to out \<and>
     encode_packet_suite C (snd (send_key_for out t)) (fst (send_key_for out t)) (tr_band_id t)
       (ob_channel_type out) (ob_channel_id out) n (ob_plaintext out) = Inr (snd d))"

lemma sends_as_Cons: "sends_as C (t\<lparr>tr_seq := k\<rparr>) outs n d \<Longrightarrow> sends_as C t (x # outs) n d"
  by (auto simp: sends_as_def)

lemma transport_sends_numbers:
  assumes "transport_sends C outs t = (t', ds)"
  shows "\<exists>ns. subseq ns (map (\<lambda>i. tr_seq t + of_nat i) [0..<length outs]) \<and> list_all2 (sends_as C t outs) ns ds"
  using assms
proof (induction outs arbitrary: t ds)
  case (Cons x outs)
  obtain ok out where x: "x = (ok, out)" by (cases x)
  obtain r where s: "transport_send C ok out t = (t\<lparr>tr_seq := tr_seq t + 1\<rparr>, r)"
    using transport_send_state [of C ok out t] by (cases "transport_send C ok out t") simp
  obtain ds' where w: "transport_sends C outs (t\<lparr>tr_seq := tr_seq t + 1\<rparr>) = (t', ds')"
    and ds: "ds = (case r of Inr d \<Rightarrow> d # ds' | Inl _ \<Rightarrow> ds')"
    using Cons.prems by (auto simp: x s split: prod.splits)
  from Cons.IH [OF w] obtain ns where ns: "subseq ns (map (\<lambda>i. tr_seq t + 1 + of_nat i) [0..<length outs])"
    "list_all2 (sends_as C t (x # outs)) ns ds'"
    by (auto intro: list_all2_mono sends_as_Cons)
  have all: "map (\<lambda>i. tr_seq t + of_nat i) [0..<length (x # outs)] =
      tr_seq t # map (\<lambda>i. tr_seq t + 1 + of_nat i) [0..<length outs]"
    by (simp add: upt_conv_Cons map_Suc_upt [symmetric] o_def add.assoc del: upt_Suc)
  show ?case
  proof (cases r)
    case (Inl e)
    with ns ds show ?thesis unfolding all by auto
  next
    case (Inr d)
    then have "sends_as C t (x # outs) (tr_seq t) d"
      using s by (cases d) (auto simp: transport_send_Inr sends_as_def x)
    with ns ds Inr show ?thesis unfolding all by (intro exI [of _ "tr_seq t # ns"]) simp
  qed
qed simp

lemma sends_as_nonce:
  assumes "length (tr_band_id t) = BAND_ID_LEN" "sends_as C t outs n (to, pkt)"
  shows "packet_nonce pkt = Some (nonce_bytes n) \<and>
    (\<exists>out \<in> snd ` set outs. to = ob_to out \<and>
       (case send_key_for out t of
          (k, ChaCha20Poly1305) \<Rightarrow> chacha_encrypt C k | (k, Aes256Gcm) \<Rightarrow> aes_encrypt C k)
         (nonce_bytes n) (build_aad (ct_u8 (ob_channel_type out)) (ob_channel_id out)) (ob_plaintext out)
         = Some (drop HEADER_LEN pkt))"
proof -
  obtain out where out: "out \<in> snd ` set outs" "to = ob_to out"
    and enc: "encode_packet_suite C (snd (send_key_for out t)) (fst (send_key_for out t)) (tr_band_id t)
       (ob_channel_type out) (ob_channel_id out) n (ob_plaintext out) = Inr pkt"
    using assms(2) by (auto simp: sends_as_def)
  let ?h = "\<lparr>h_band_id = tr_band_id t, h_channel_type = ob_channel_type out, h_channel_id = ob_channel_id out, h_sequence = n\<rparr>"
  have wf: "wf_header ?h" using assms(1) by (simp add: wf_header_def)
  obtain ct where ct: "encrypt_suite C (snd (send_key_for out t)) (fst (send_key_for out t)) n
      (build_aad (ct_u8 (ob_channel_type out)) (ob_channel_id out)) (ob_plaintext out) = Inr ct"
    and pkt: "pkt = header_bytes ?h @ ct"
    using enc by (auto simp: encode_packet_suite_Inr)
  have "packet_nonce pkt = Some (nonce_bytes n)" "drop HEADER_LEN pkt = ct"
    using wf by (simp_all add: pkt packet_nonce_def header_parse_bytes)
  with out ct show ?thesis
    by (auto simp: encrypt_suite_Inr split: prod.split suite.splits)
qed

lemma subseq_distinct: "subseq xs ys \<Longrightarrow> distinct ys \<Longrightarrow> distinct xs"
  by (induction rule: list_emb.induct) (auto elim: list_emb_set)

lemma numbers_distinct:
  assumes "k \<le> 2 ^ 64"
  shows "distinct (map (\<lambda>i. (n :: u64) + of_nat i) [0..<k])"
proof -
  have "inj_on (\<lambda>i. n + (of_nat i :: u64)) {0..<k}"
  proof (rule inj_onI)
    fix i j assume "i \<in> {0..<k}" "j \<in> {0..<k}" "n + of_nat i = n + of_nat j"
    then have "unat (of_nat i :: u64) = unat (of_nat j :: u64)" "i < 2 ^ 64" "j < 2 ^ 64"
      using assms by auto
    then show "i = j" by (simp add: unat_of_nat)
  qed
  then show ?thesis by (simp add: distinct_map)
qed

text \<open>C22. Nonces do not repeat: over any run of up to 2^64 sends of a transport, on any mix of
  destinations, channel types and keys and with any of them failing, the datagrams that went out carry
  pairwise distinct nonces, and each datagram's ciphertext is what the AEAD returns for exactly the nonce
  the datagram carries, under the key of its destination and for the plaintext of one of the sends.\<close>

theorem transport_nonces_distinct:
  assumes "length outs \<le> 2 ^ 64" "length (tr_band_id t) = BAND_ID_LEN" "transport_sends C outs t = (t', ds)"
  shows "distinct (map (\<lambda>d. packet_nonce (snd d)) ds) \<and>
    (\<forall>(to, pkt) \<in> set ds. \<exists>nonce. packet_nonce pkt = Some nonce \<and>
      (\<exists>out \<in> snd ` set outs. to = ob_to out \<and>
         (case send_key_for out t of
            (k, ChaCha20Poly1305) \<Rightarrow> chacha_encrypt C k | (k, Aes256Gcm) \<Rightarrow> aes_encrypt C k)
           nonce (build_aad (ct_u8 (ob_channel_type out)) (ob_channel_id out)) (ob_plaintext out)
           = Some (drop HEADER_LEN pkt)))"
proof -
  obtain ns where ns: "subseq ns (map (\<lambda>i. tr_seq t + of_nat i) [0..<length outs])" "list_all2 (sends_as C t outs) ns ds"
    using transport_sends_numbers [OF assms(3)] by blast
  note nonce = sends_as_nonce [OF assms(2)]
  have "map (\<lambda>d. packet_nonce (snd d)) ds = map (Some \<circ> nonce_bytes) ns"
    using ns(2) by (induction rule: list_all2_induct) (auto dest!: nonce)
  moreover have "distinct ns" using ns(1) numbers_distinct [OF assms(1)] by (rule subseq_distinct)
  ultimately have "distinct (map (\<lambda>d. packet_nonce (snd d)) ds)"
    by (simp add: distinct_map inj_on_def nonce_bytes_inj)
  moreover have "\<exists>n. sends_as C t outs n d" if "d \<in> set ds" for d
    using ns(2) that by (auto simp: list_all2_conv_all_nth in_set_conv_nth)
  ultimately show ?thesis using nonce by fast
qed

text \<open>Two transports of one band, for evaluation; the second routes streams to subscriber 3.\<close>

definition demo_transport :: transport where
  "demo_transport = transport_route Stream 3 (transport_bind (replicate 32 1) (replicate 16 7) (replicate 8 0))"

definition demo_out :: outbound where
  "demo_out = \<lparr>ob_to = SocketAddrV4 1 5000, ob_channel_type = Stream, ob_channel_id = 9, ob_plaintext = [1, 2],
     ob_priority = 1, ob_use_base_key = False\<rparr>"

text \<open>A run in which the socket refuses the second of three packets.\<close>

theorem transport_nonces_distinct_witness:
  "let ds = snd (transport_sends demo_ops [(True, demo_out), (False, demo_out), (True, demo_out)] demo_transport)
   in length ds = 2 \<and> distinct (map (\<lambda>d. packet_nonce (snd d)) ds)"
proof -
  let ?run = "[(True, demo_out), (False, demo_out), (True, demo_out)]"
  have "length (tr_band_id demo_transport) = BAND_ID_LEN" by code_simp
  then have "distinct (map (\<lambda>d. packet_nonce (snd d)) (snd (transport_sends demo_ops ?run demo_transport)))"
    using transport_nonces_distinct [OF _ _ surjective_pairing, of ?run demo_transport demo_ops] by simp
  moreover have "length (snd (transport_sends demo_ops ?run demo_transport)) = 2" by code_simp
  ultimately show ?thesis by (simp add: Let_def)
qed

section \<open>Sending and receiving\<close>

lemma recv_decode_iff:
  assumes C: "crypto_ok C" and ks: "case map_of (tr_peer_keys t) from of Some ks' \<Rightarrow> ks' = (k, s)
    | None \<Rightarrow> (tr_base_key t, ChaCha20Poly1305) = (k, s)"
    and enc: "encode_packet_suite C s k bid ty cid seq pt = Inr pkt" and bid: "length bid = BAND_ID_LEN"
  shows "recv_decode C from pkt t =
    Some (\<lparr>h_band_id = bid, h_channel_type = ty, h_channel_id = cid, h_sequence = seq\<rparr>, pt)"
proof -
  let ?h = "\<lparr>h_band_id = bid, h_channel_type = ty, h_channel_id = cid, h_sequence = seq\<rparr>"
  have "decode_packet_suite C s k pkt = Inr (?h, pt)"
    using enc bid by (simp add: decode_packet_iff [OF C] wf_header_def)
  then have "result_ok (decode_packet_suite C s k pkt) = Some (?h, pt)"
    by (simp add: result_ok_Some)
  with ks show ?thesis
    by (auto simp: recv_decode_def split: option.splits)
qed

lemma recv_decode_Some:
  assumes "recv_decode C from data t = Some v"
  obtains k s where "(k, s) = (tr_base_key t, ChaCha20Poly1305) \<or> map_of (tr_peer_keys t) from = Some (k, s)"
    "decode_packet_suite C s k data = Inr v"
  using assms by (simp add: recv_decode_def result_ok_Some split: option.splits prod.splits) blast+

text \<open>C24. What the receive loop hands to a subscriber is authentic and of the own band: the datagram
  is the encoding, under the base key or under the key registered for its source address, of
  exactly the header and payload delivered; the header names the transport's band; the subscriber is
  the one routed for the header's channel type; and the source's liveness stamp is the time of
  arrival. A datagram that is not delivered and not merely unrouted leaves the state unchanged.\<close>

theorem transport_recv_authentic:
  assumes "crypto_ok C" "transport_recv C now from data t = (t', r)"
  shows "(\<forall>sub i. r = Some (sub, i) \<longrightarrow>
      (\<exists>k s. ((k, s) = (tr_base_key t, ChaCha20Poly1305) \<or> map_of (tr_peer_keys t) from = Some (k, s)) \<and>
        encode_packet_suite C s k (tr_band_id t) (h_channel_type (in_header i))
          (h_channel_id (in_header i)) (h_sequence (in_header i)) (in_payload i) = Inr data) \<and>
      in_from i = from \<and> h_band_id (in_header i) = tr_band_id t \<and>
      map_of (tr_routes t) (h_channel_type (in_header i)) = Some sub \<and>
      map_of (tr_last_seen t') from = Some now)
    \<and> (t' \<noteq> t \<longrightarrow> t' = t\<lparr>tr_last_seen := hm_insert from now (tr_last_seen t)\<rparr> \<and>
        (\<exists>h pt. recv_decode C from data t = Some (h, pt) \<and> h_band_id h = tr_band_id t))"
proof (cases "recv_decode C from data t")
  case (Some v)
  obtain h pt where v: "v = (h, pt)" by (cases v)
  obtain k s where ks: "(k, s) = (tr_base_key t, ChaCha20Poly1305) \<or> map_of (tr_peer_keys t) from = Some (k, s)"
    and dec: "decode_packet_suite C s k data = Inr v"
    using Some by (rule recv_decode_Some)
  have "encode_packet_suite C s k (h_band_id h) (h_channel_type h) (h_channel_id h) (h_sequence h) pt = Inr data"
    using dec by (simp add: v decode_packet_iff [OF assms(1)])
  with ks assms(2) Some v show ?thesis
    by (fastforce simp: transport_recv_def split: if_splits)
qed (use assms(2) in \<open>simp add: transport_recv_def\<close>)

lemma send_recv:
  assumes "crypto_ok C" "length (tr_band_id a) = BAND_ID_LEN" "tr_band_id b = tr_band_id a"
    "case map_of (tr_peer_keys b) src of Some ks \<Rightarrow> ks = send_key_for out a
      | None \<Rightarrow> (tr_base_key b, ChaCha20Poly1305) = send_key_for out a"
    "transport_send C ok out a = (a', Inr (dest, pkt))"
    "map_of (tr_routes b) (ob_channel_type out) = Some sub"
  shows "dest = ob_to out \<and> snd (transport_recv C now src pkt b) =
    Some (sub, \<lparr>in_from = src,
      in_header = \<lparr>h_band_id = tr_band_id b, h_channel_type = ob_channel_type out,
        h_channel_id = ob_channel_id out, h_sequence = tr_seq a\<rparr>,
      in_payload = ob_plaintext out\<rparr>)"
proof -
  obtain k s where ks: "send_key_for out a = (k, s)" by (cases "send_key_for out a")
  have "encode_packet_suite C s k (tr_band_id a) (ob_channel_type out) (ob_channel_id out) (tr_seq a)
      (ob_plaintext out) = Inr pkt" and d: "dest = ob_to out"
    using assms(5) by (auto simp: transport_send_Inr ks)
  from recv_decode_iff [OF assms(1) assms(4) [unfolded ks] this(1) assms(2)] assms(3,6) d
  show ?thesis
    by (simp add: transport_recv_def)
qed

text \<open>A packet arrives as it was sent: when two transports share the band and the receiver holds,
  for the sender's address, the key the sender uses towards it (or holds none and the sender uses the
  base key), the datagram produced by \<open>send\<close> is delivered to the route of its channel type with the
  sender's channel id, sequence number and plaintext.\<close>

theorem transport_send_recv:
  assumes "crypto_ok C" "length (tr_band_id a) = BAND_ID_LEN" "tr_band_id b = tr_band_id a"
    "case map_of (tr_peer_keys b) src of Some ks \<Rightarrow> ks = send_key_for out a
      | None \<Rightarrow> (tr_base_key b, ChaCha20Poly1305) = send_key_for out a"
    "transport_send C ok out a = (a', Inr (dest, pkt))"
    "map_of (tr_routes b) (ob_channel_type out) = Some sub"
  shows "dest = ob_to out \<and> snd (transport_recv C now src pkt b) =
    Some (sub, \<lparr>in_from = src,
      in_header = \<lparr>h_band_id = tr_band_id b, h_channel_type = ob_channel_type out,
        h_channel_id = ob_channel_id out, h_sequence = tr_seq a\<rparr>,
      in_payload = ob_plaintext out\<rparr>)"
  using assms by (rule send_recv)

text \<open>A datagram, for evaluation.\<close>

definition demo_datagram :: bytes where
  "demo_datagram = (case snd (transport_send demo_ops True demo_out demo_transport) of
     Inr (_, pkt) \<Rightarrow> pkt | Inl _ \<Rightarrow> [])"

theorem transport_recv_authentic_witness:
  "map_of (tr_last_seen (fst (transport_recv demo_ops 77 (SocketAddrV4 2 6000) demo_datagram demo_transport)))
     (SocketAddrV4 2 6000) = Some 77"
proof -
  have "map_option fst (snd (transport_recv demo_ops 77 (SocketAddrV4 2 6000) demo_datagram demo_transport)) = Some 3"
    by code_simp
  then obtain i where "snd (transport_recv demo_ops 77 (SocketAddrV4 2 6000) demo_datagram demo_transport) = Some (3, i)"
    by auto
  then show ?thesis
    using transport_recv_authentic [OF demo_ops_ok surjective_pairing] by blast
qed

theorem transport_send_recv_witness:
  "snd (transport_recv demo_ops 5 (SocketAddrV4 2 6000) demo_datagram demo_transport) =
    Some (3, \<lparr>in_from = SocketAddrV4 2 6000,
      in_header = \<lparr>h_band_id = replicate 16 7, h_channel_type = Stream, h_channel_id = 9,
        h_sequence = 0\<rparr>, in_payload = [1, 2]\<rparr>)"
proof -
  have "transport_send demo_ops True demo_out demo_transport
     = (demo_transport\<lparr>tr_seq := 1\<rparr>, Inr (SocketAddrV4 1 5000, demo_datagram))" by code_simp
  moreover have "tr_band_id demo_transport = replicate 16 7" "length (tr_band_id demo_transport) = BAND_ID_LEN" "tr_seq demo_transport = 0"
    "ob_channel_type demo_out = Stream" "ob_channel_id demo_out = 9" "ob_plaintext demo_out = [1, 2]"
    "map_of (tr_routes demo_transport) (ob_channel_type demo_out) = Some 3"
    "map_of (tr_peer_keys demo_transport) (SocketAddrV4 2 6000) = None"
    "send_key_for demo_out demo_transport = (tr_base_key demo_transport, ChaCha20Poly1305)"
    by code_simp+
  ultimately show ?thesis
    using transport_send_recv [OF demo_ops_ok, where a = demo_transport and b = demo_transport and
        src = "SocketAddrV4 2 6000" and out = demo_out and sub = 3 and now = 5 and pkt = demo_datagram]
    by simp
qed

end
