(* ===== verification/Json.thy ===== *)
theory Json
  imports Prelude "HOL-Library.List_Lexorder" "HOL-Library.Char_ord"
begin

text \<open>
  The JSON bodies of the Control, Board and Drop messages. The text format is \<open>serde_json\<close>'s, which
  is not part of the sources: printing and parsing are the two functions of a parameter record.
  What the sources rely on is the hypothesis \<open>json_ok\<close>: text printed from a tree parses back to it
  (for trees within the parser's documented nesting limit, and without floating-point numbers,
  whose shortest decimal form the parser may read one unit off), and an object is printed with a
  brace as its first byte. How the derived \<open>Deserialize\<close> instances of the sources read a struct off
  a tree is modelled here: members by name in any order, an unknown member ignored, a duplicate
  member refused, an array read by position. A Rust string is the list of its UTF-8 bytes.
\<close>

datatype json =
    JNull
  | JBool bool
  | JPos u64
  | JNeg u64
  | JFloat u64
  | JStr string
  | JArr "json list"
  | JObj "(string \<times> json) list"

text \<open>The limit on nesting of the parser: at most 127 arrays and objects inside one another.\<close>

fun json_depth :: "json \<Rightarrow> nat" where
  "json_depth (JArr xs) = Suc (fold max (map json_depth xs) 0)"
| "json_depth (JObj kvs) = Suc (fold max (map (json_depth \<circ> snd) kvs) 0)"
| "json_depth _ = 0"

fun json_exact :: "json \<Rightarrow> bool" where
  "json_exact (JNeg w) = bit w 63"
| "json_exact (JFloat _) = False"
| "json_exact (JArr xs) = list_all json_exact xs"
| "json_exact (JObj kvs) = list_all (json_exact \<circ> snd) kvs"
| "json_exact _ = True"

record json_ops =
  js_print :: "json \<Rightarrow> bytes"
  js_parse :: "bytes \<Rightarrow> json option"

definition wf_json :: "json \<Rightarrow> bool" where
  "wf_json j \<longleftrightarrow> json_exact j \<and> json_depth j < 128"

definition json_ok :: "json_ops \<Rightarrow> bool" where
  "json_ok J \<longleftrightarrow> (\<forall>j. wf_json j \<longrightarrow> js_parse J (js_print J j) = Some j) \<and>
     (\<forall>kvs. \<exists>bs. js_print J (JObj kvs) = 123 # bs)"

section \<open>Values\<close>

text \<open>A \<open>serde_json::Value\<close> keeps an object as a \<open>BTreeMap\<close>: a later member of the same name wins.\<close>

fun value_of :: "json \<Rightarrow> json" where
  "value_of (JArr xs) = JArr (map value_of xs)"
| "value_of (JObj kvs) = JObj (fold (\<lambda>(k, v). bt_insert k v) (map (\<lambda>(k, v). (k, value_of v)) kvs) [])"
| "value_of j = j"

section \<open>Reading typed data\<close>

text \<open>The members of a struct with the given field names: \<open>None\<close> when the tree is no struct, else for
  every field its value, if present.\<close>

definition json_struct :: "string list \<Rightarrow> json \<Rightarrow> json option list option" where
  "json_struct names j =
     (case j of
        JObj kvs \<Rightarrow>
          if list_all (\<lambda>n. length (filter (\<lambda>kv. fst kv = n) kvs) \<le> 1) names
          then Some (map (map_of kvs) names) else None
      | JArr xs \<Rightarrow>
          if length xs \<le> length names
          then Some (map Some xs @ replicate (length names - length xs) None) else None
      | _ \<Rightarrow> None)"

definition json_field :: "(json \<Rightarrow> 'a option) \<Rightarrow> json option \<Rightarrow> 'a option" where
  "json_field f m = Option.bind m f"

definition json_default :: "(json \<Rightarrow> 'a option) \<Rightarrow> 'a \<Rightarrow> json option \<Rightarrow> 'a option" where
  "json_default f d m = (case m of None \<Rightarrow> Some d | Some j \<Rightarrow> f j)"

fun json_u64 :: "json \<Rightarrow> u64 option" where
  "json_u64 (JPos n) = Some n"
| "json_u64 _ = None"

fun json_u8 :: "json \<Rightarrow> u8 option" where
  "json_u8 (JPos n) = (if n < 256 then Some (ucast n) else None)"
| "json_u8 _ = None"

fun json_u16 :: "json \<Rightarrow> u16 option" where
  "json_u16 (JPos n) = (if n < 65536 then Some (ucast n) else None)"
| "json_u16 _ = None"

fun json_u32 :: "json \<Rightarrow> u32 option" where
  "json_u32 (JPos n) = (if n < 4294967296 then Some (ucast n) else None)"
| "json_u32 _ = None"

fun json_i64 :: "json \<Rightarrow> int option" where
  "json_i64 (JPos n) = (if n < 9223372036854775808 then Some (uint n) else None)"
| "json_i64 (JNeg w) = Some (sint w)"
| "json_i64 _ = None"

fun json_bool :: "json \<Rightarrow> bool option" where
  "json_bool (JBool b) = Some b"
| "json_bool _ = None"

fun json_string :: "json \<Rightarrow> string option" where
  "json_string (JStr s) = Some s"
| "json_string _ = None"

fun json_option :: "(json \<Rightarrow> 'a option) \<Rightarrow> json \<Rightarrow> 'a option option" where
  "json_option f JNull = Some None"
| "json_option f j = map_option Some (f j)"

fun json_seq :: "(json \<Rightarrow> 'a option) \<Rightarrow> json list \<Rightarrow> 'a list option" where
  "json_seq f [] = Some []"
| "json_seq f (j # js) = (case f j of None \<Rightarrow> None | Some x \<Rightarrow> map_option ((#) x) (json_seq f js))"

fun json_vec :: "(json \<Rightarrow> 'a option) \<Rightarrow> json \<Rightarrow> 'a list option" where
  "json_vec f (JArr js) = json_seq f js"
| "json_vec f _ = None"

fun json_pair :: "(json \<Rightarrow> 'a option) \<Rightarrow> (json \<Rightarrow> 'b option) \<Rightarrow> json \<Rightarrow> ('a \<times> 'b) option" where
  "json_pair f g (JArr [a, b]) = (case f a of None \<Rightarrow> None | Some x \<Rightarrow> map_option (Pair x) (g b))"
| "json_pair f g _ = None"

section \<open>Writing typed data\<close>

definition of_i64 :: "int \<Rightarrow> json" where
  "of_i64 i = (if i < 0 then JNeg (word_of_int i) else JPos (word_of_int i))"

fun of_option :: "('a \<Rightarrow> json) \<Rightarrow> 'a option \<Rightarrow> json" where
  "of_option f None = JNull"
| "of_option f (Some x) = f x"

text \<open>The two-member envelope of Control and Board messages.\<close>

definition of_envelope :: "u8 \<times> json \<Rightarrow> json" where
  "of_envelope e = JObj [(''type'', JPos (ucast (fst e))), (''payload'', snd e)]"

definition json_envelope :: "json \<Rightarrow> (u8 \<times> json) option" where
  "json_envelope j =
     (case json_struct [''type'', ''payload''] j of
        Some [t, p] \<Rightarrow> (case json_field json_u8 t of
            None \<Rightarrow> None
          | Some ty \<Rightarrow> map_option (Pair ty) (json_field (Some \<circ> value_of) p))
      | _ \<Rightarrow> None)"

section \<open>Round trips\<close>

lemma value_of_idem [simp]: "value_of (value_of j) = value_of j"
proof (induction j)
  case (JObj kvs)
  let ?xs = "map (\<lambda>(k, v). (k, value_of v)) kvs"
  let ?m = "fold (\<lambda>(k, v). bt_insert k v) ?xs []"
  have "value_of v = v" if "(k, v) \<in> set ?m" for k v
  proof -
    from that have "(k, v) \<in> set ?xs" using fold_bt_insert(2) [of ?xs "[]"] by auto
    then obtain w where "(k, w) \<in> set kvs" "v = value_of w" by auto
    then show ?thesis using JObj [of "(k, w)" w] by simp
  qed
  then have "map (\<lambda>(k, v). (k, value_of v)) ?m = ?m" by (auto intro!: map_idI)
  then show ?case by (simp add: fold_bt_insert_sorted fold_bt_insert(1))
qed auto

lemma json_seq_map: "(\<And>x. x \<in> set xs \<Longrightarrow> f (g x) = Some x) \<Longrightarrow> json_seq f (map g xs) = Some xs"
  by (induction xs) auto

lemma json_vec_map: "(\<And>x. x \<in> set xs \<Longrightarrow> f (g x) = Some x) \<Longrightarrow> json_vec f (JArr (map g xs)) = Some xs"
  by (simp add: json_seq_map)

lemma json_u8_of [simp]: "json_u8 (JPos (ucast (b :: u8))) = Some b"
proof -
  have "unat (ucast b :: u64) = unat b"
    using unsigned_less [of b, where 'a = nat] by (simp add: unsigned_ucast_eq take_bit_nat_eq_self)
  then have "(ucast b :: u64) < 256"
    using unsigned_less [of b, where 'a = nat] by (simp add: word_less_nat_alt)
  moreover have "ucast (ucast b :: u64) = b"
    by (rule bit_word_eqI) (auto simp: bit_ucast_iff dest: bit_imp_le_length)
  ultimately show ?thesis by simp
qed

lemma json_envelope_of [simp]: "value_of p = p \<Longrightarrow> json_envelope (of_envelope (t, p)) = Some (t, p)"
  by (simp add: json_envelope_def of_envelope_def json_struct_def json_field_def del: json_u8.simps)

lemma json_ok_parse: "json_ok J \<Longrightarrow> wf_json j \<Longrightarrow> js_parse J (js_print J j) = Some j"
  by (simp add: json_ok_def)

section \<open>A concrete instance\<close>

text \<open>A small self-delimiting text format that satisfies \<open>json_ok\<close>, for evaluation: a tag byte, numbers
  in eight bytes, each character of a string after a 1 and its end marked by a 0, each element or
  member after a comma and the end marked by the closing bracket.\<close>

fun demo_str :: "string \<Rightarrow> bytes" where
  "demo_str [] = [0]"
| "demo_str (c # s) = 1 # of_char c # demo_str s"

fun demo_print :: "json \<Rightarrow> bytes" where
  "demo_print JNull = [110]"
| "demo_print (JBool b) = [if b then 116 else 102]"
| "demo_print (JPos w) = 43 # to_be 8 w"
| "demo_print (JNeg w) = 45 # to_be 8 w"
| "demo_print (JFloat w) = 46 # to_be 8 w"
| "demo_print (JStr s) = 34 # demo_str s"
| "demo_print (JArr xs) = 91 # concat (map (\<lambda>x. 44 # demo_print x) xs) @ [93]"
| "demo_print (JObj kvs) = 123 # concat (map (\<lambda>kv. 44 # demo_str (fst kv) @ demo_print (snd kv)) kvs) @ [125]"

fun demo_get_str :: "bytes \<Rightarrow> (string \<times> bytes) option" where
  "demo_get_str (m # bs) =
     (if m = 0 then Some ([], bs)
      else case bs of [] \<Rightarrow> None
        | c # rest \<Rightarrow> map_option (\<lambda>(s, r). (char_of (unat c) # s, r)) (demo_get_str rest))"
| "demo_get_str [] = None"

text \<open>The first argument bounds the recursion; the length of the input is enough.\<close>

fun demo_get :: "nat \<Rightarrow> bytes \<Rightarrow> (json \<times> bytes) option"
  and demo_get_arr :: "nat \<Rightarrow> bytes \<Rightarrow> (json list \<times> bytes) option"
  and demo_get_obj :: "nat \<Rightarrow> bytes \<Rightarrow> ((string \<times> json) list \<times> bytes) option" where
  "demo_get (Suc n) (t # bs) =
     (if t = 110 then Some (JNull, bs)
      else if t = 116 then Some (JBool True, bs)
      else if t = 102 then Some (JBool False, bs)
      else if t = 43 then Some (JPos (from_be (take 8 bs)), drop 8 bs)
      else if t = 45 then Some (JNeg (from_be (take 8 bs)), drop 8 bs)
      else if t = 46 then Some (JFloat (from_be (take 8 bs)), drop 8 bs)
      else if t = 34 then map_option (apfst JStr) (demo_get_str bs)
      else if t = 91 then map_option (apfst JArr) (demo_get_arr n bs)
      else if t = 123 then map_option (apfst JObj) (demo_get_obj n bs)
      else None)"
| "demo_get _ _ = None"
| "demo_get_arr (Suc n) (t # bs) =
     (if t = 93 then Some ([], bs)
      else case demo_get n bs of None \<Rightarrow> None
        | Some (x, r) \<Rightarrow> map_option (apfst ((#) x)) (demo_get_arr n r))"
| "demo_get_arr _ _ = None"
| "demo_get_obj (Suc n) (t # bs) =
     (if t = 125 then Some ([], bs)
      else case demo_get_str bs of None \<Rightarrow> None
        | Some (k, r) \<Rightarrow> (case demo_get n r of None \<Rightarrow> None
            | Some (x, r) \<Rightarrow> map_option (apfst ((#) (k, x))) (demo_get_obj n r)))"
| "demo_get_obj _ _ = None"

definition demo_json :: json_ops where
  "demo_json = \<lparr>js_print = demo_print,
     js_parse = (\<lambda>bs. case demo_get (length bs) bs of Some (j, []) \<Rightarrow> Some j | _ \<Rightarrow> None)\<rparr>"

lemma unat_of_char: "unat (of_char c :: u8) = of_char c"
proof -
  have "unat (of_nat (of_char c) :: u8) = of_char c"
    using nat_of_char_less_256 [of c] by (simp add: unat_of_nat del: of_nat_of_char)
  then show ?thesis by (simp only: of_nat_of_char)
qed

lemma demo_get_str_print: "demo_get_str (demo_str s @ r) = Some (s, r)"
  by (induction s) (auto simp: unat_of_char)

lemma demo_get_arr_print:
  assumes "\<And>x n r. x \<in> set xs \<Longrightarrow> length (demo_print x) \<le> n \<Longrightarrow> demo_get n (demo_print x @ r) = Some (x, r)"
    "length (concat (map (\<lambda>x. 44 # demo_print x) xs)) < n"
  shows "demo_get_arr n (concat (map (\<lambda>x. 44 # demo_print x) xs) @ 93 # r) = Some (xs, r)"
  using assms
proof (induction xs arbitrary: n)
  case Nil
  then show ?case by (cases n) auto
next
  case (Cons x xs)
  then obtain m where "n = Suc m" by (cases n) auto
  with Cons show ?case by simp
qed

lemma demo_get_obj_print:
  assumes "\<And>kv n r. kv \<in> set kvs \<Longrightarrow> length (demo_print (snd kv)) \<le> n \<Longrightarrow>
      demo_get n (demo_print (snd kv) @ r) = Some (snd kv, r)"
    "length (concat (map (\<lambda>kv. 44 # demo_str (fst kv) @ demo_print (snd kv)) kvs)) < n"
  shows "demo_get_obj n (concat (map (\<lambda>kv. 44 # demo_str (fst kv) @ demo_print (snd kv)) kvs) @ 125 # r)
    = Some (kvs, r)"
  using assms
proof (induction kvs arbitrary: n)
  case Nil
  then show ?case by (cases n) auto
next
  case (Cons kv kvs)
  then obtain m where "n = Suc m" by (cases n) auto
  with Cons show ?case by (simp add: demo_get_str_print)
qed

lemma demo_get_print: "length (demo_print j) \<le> n \<Longrightarrow> demo_get n (demo_print j @ r) = Some (j, r)"
proof (induction j arbitrary: n r)
  case (JArr xs)
  then obtain m where n: "n = Suc m" by (cases n) auto
  with JArr.prems have "length (concat (map (\<lambda>x. 44 # demo_print x) xs)) < m" by simp
  with n demo_get_arr_print [OF JArr.IH, of xs m r] show ?case by simp
next
  case (JObj kvs)
  then obtain m where n: "n = Suc m" by (cases n) auto
  with JObj.prems have "length (concat (map (\<lambda>kv. 44 # demo_str (fst kv) @ demo_print (snd kv)) kvs)) < m" by simp
  moreover have "demo_get n' (demo_print (snd kv) @ r') = Some (snd kv, r')"
    if "kv \<in> set kvs" "length (demo_print (snd kv)) \<le> n'" for kv n' r'
    using JObj.IH [of kv "snd kv" n' r'] that by (cases kv) auto
  ultimately show ?case using n demo_get_obj_print [of kvs m r] by simp
next
  case (JPos w)
  then show ?case by (cases n) auto
next
  case (JNeg w)
  then show ?case by (cases n) auto
next
  case (JFloat w)
  then show ?case by (cases n) auto
next
  case (JStr s)
  then show ?case by (cases n) (auto simp: demo_get_str_print)
qed (auto simp: Suc_le_eq gr0_conv_Suc)

lemma demo_json_ok: "json_ok demo_json"
  using demo_get_print [of _ _ "[]"] by (simp add: json_ok_def demo_json_def)

end
