(* ===== verification/Control.thy ===== *)
theory Control
  imports Transport Json "HOL-Library.Option_ord" "HOL-Library.Product_Lexorder"
begin

text \<open>
  \<open>rust/telesthete/src/control.rs\<close>: the handshake (HELLO and HELLO_ACK) that negotiates the cipher
  and registers the session keys, the restart and replay rules, and the other control messages. The
  task works on state it shares with the transport (keys) and the band (the peer registry); both are
  in its record here. Serialisation cannot fail on the types involved. The loss figure of a rate
  hint, a 32-bit float, is kept as the JSON number that carries it.
\<close>

section \<open>Messages\<close>

definition TYPE_HELLO :: u8 where "TYPE_HELLO = 0x01"
definition TYPE_HELLO_ACK :: u8 where "TYPE_HELLO_ACK = 0x02"
definition TYPE_KEEPALIVE :: u8 where "TYPE_KEEPALIVE = 0x03"
definition TYPE_FOCUS_CHANGE :: u8 where "TYPE_FOCUS_CHANGE = 0x04"
definition TYPE_METACONTROL :: u8 where "TYPE_METACONTROL = 0x05"
definition TYPE_GOODBYE :: u8 where "TYPE_GOODBYE = 0x06"
definition TYPE_KEYFRAME_REQ :: u8 where "TYPE_KEYFRAME_REQ = 0x07"
definition TYPE_RATE_HINT :: u8 where "TYPE_RATE_HINT = 0x08"
definition PEER_MAP_SOFT_CAP :: nat where "PEER_MAP_SOFT_CAP = 1024"

record hello =
  hl_hostname :: string
  hl_capabilities :: "string list"
  hl_ciphers :: "string list"
  hl_session :: u64

definition of_hello :: "hello \<Rightarrow> json" where
  "of_hello h = JObj [(''hostname'', JStr (hl_hostname h)), (''capabilities'', JArr (map JStr (hl_capabilities h))),
     (''ciphers'', JArr (map JStr (hl_ciphers h))), (''session'', JPos (hl_session h))]"

definition json_hello :: "json \<Rightarrow> hello option" where
  "json_hello j =
     (case json_struct [''hostname'', ''capabilities'', ''ciphers'', ''session''] j of
        Some [h, c, i, s] \<Rightarrow>
          (case (json_field json_string h, json_default (json_vec json_string) [] c,
                 json_default (json_vec json_string) [] i, json_default json_u64 0 s) of
             (Some h, Some c, Some i, Some s) \<Rightarrow>
               Some \<lparr>hl_hostname = h, hl_capabilities = c, hl_ciphers = i, hl_session = s\<rparr>
           | _ \<Rightarrow> None)
      | _ \<Rightarrow> None)"

record hello_ack = hello +
  ha_cipher :: string

definition of_hello_ack :: "hello_ack \<Rightarrow> json" where
  "of_hello_ack h = JObj [(''hostname'', JStr (hl_hostname h)), (''capabilities'', JArr (map JStr (hl_capabilities h))),
     (''ciphers'', JArr (map JStr (hl_ciphers h))), (''cipher'', JStr (ha_cipher h)), (''session'', JPos (hl_session h))]"

definition json_hello_ack :: "json \<Rightarrow> hello_ack option" where
  "json_hello_ack j =
     (case json_struct [''hostname'', ''capabilities'', ''ciphers'', ''cipher'', ''session''] j of
        Some [h, c, i, ci, s] \<Rightarrow>
          (case (json_field json_string h, json_default (json_vec json_string) [] c,
                 json_default (json_vec json_string) [] i, json_default json_string [] ci, json_default json_u64 0 s) of
             (Some h, Some c, Some i, Some ci, Some s) \<Rightarrow>
               Some \<lparr>hl_hostname = h, hl_capabilities = c, hl_ciphers = i, hl_session = s, ha_cipher = ci\<rparr>
           | _ \<Rightarrow> None)
      | _ \<Rightarrow> None)"

definition of_keyframe_req :: "u16 \<Rightarrow> json" where
  "of_keyframe_req sid = JObj [(''stream_id'', JPos (ucast sid))]"

definition json_keyframe_req :: "json \<Rightarrow> u16 option" where
  "json_keyframe_req j = (case json_struct [''stream_id''] j of Some [s] \<Rightarrow> json_field json_u16 s | _ \<Rightarrow> None)"

fun json_number :: "json \<Rightarrow> json option" where
  "json_number (JPos n) = Some (JPos n)"
| "json_number (JNeg n) = Some (JNeg n)"
| "json_number (JFloat n) = Some (JFloat n)"
| "json_number _ = None"

definition of_rate_hint :: "u16 \<Rightarrow> u32 \<Rightarrow> json \<Rightarrow> json" where
  "of_rate_hint sid bps loss =
     JObj [(''stream_id'', JPos (ucast sid)), (''target_bps'', JPos (ucast bps)), (''loss'', loss)]"

definition json_rate_hint :: "json \<Rightarrow> (u16 \<times> u32 \<times> json) option" where
  "json_rate_hint j =
     (case json_struct [''stream_id'', ''target_bps'', ''loss''] j of
        Some [s, t, l] \<Rightarrow>
          (case (json_field json_u16 s, json_field json_u32 t, json_default json_number (JFloat 0) l) of
             (Some s, Some t, Some l) \<Rightarrow> Some (s, t, l)
           | _ \<Rightarrow> None)
      | _ \<Rightarrow> None)"

datatype control_event =
    EvHello socket_addr string "string list" "string list"
  | EvHelloAck socket_addr string "string list" "string list" string
  | EvKeepalive socket_addr
  | EvGoodbye socket_addr
  | EvKeyframeReq socket_addr u16
  | EvRateHint socket_addr u16 u32 json
  | EvOther socket_addr u8 json

section \<open>State\<close>

record peer_state =
  ps_hostname :: string
  ps_capabilities :: "string list"
  ps_cipher :: string
  ps_session_epoch :: u64

record control_config =
  cc_psk :: bytes
  cc_session :: u64
  cc_hostname :: string
  cc_capabilities :: "string list"
  cc_ciphers :: "string list"

record control =
  ct_config :: control_config
  ct_transport :: transport
  ct_peers :: "(socket_addr, peer_state) hashmap"
  ct_watermark :: "(socket_addr, u64) hashmap"
  ct_sessions :: "(socket_addr, u64) hashmap"

definition with_baseline :: "string list \<Rightarrow> string list" where
  "with_baseline cs = (if BASELINE_CIPHER \<in> set cs then cs else cs @ [BASELINE_CIPHER])"

definition control_new :: "nat \<Rightarrow> control_config \<Rightarrow> (socket_addr, peer_state) hashmap \<Rightarrow> transport \<Rightarrow> control" where
  "control_new sub cfg peers t =
     \<lparr>ct_config = cfg\<lparr>cc_ciphers := with_baseline (cc_ciphers cfg)\<rparr>,
      ct_transport = transport_route Control sub t, ct_peers = peers, ct_watermark = [], ct_sessions = []\<rparr>"

section \<open>Sending\<close>

definition control_outbound :: "json_ops \<Rightarrow> socket_addr \<Rightarrow> u8 \<Rightarrow> json \<Rightarrow> bool \<Rightarrow> outbound" where
  "control_outbound J peer ty payload use_base_key =
     \<lparr>ob_to = peer, ob_channel_type = Control, ob_channel_id = 0,
      ob_plaintext = js_print J (of_envelope (ty, payload)), ob_priority = 0, ob_use_base_key = use_base_key\<rparr>"

definition send_typed :: "json_ops \<Rightarrow> socket_addr \<Rightarrow> u8 \<Rightarrow> json \<Rightarrow> outbound" where
  "send_typed J peer ty payload =
     control_outbound J peer ty (value_of payload) (ty = TYPE_HELLO \<or> ty = TYPE_HELLO_ACK)"

definition send_hello_full :: "json_ops \<Rightarrow> u64 \<Rightarrow> socket_addr \<Rightarrow> string \<Rightarrow> string list \<Rightarrow> string list \<Rightarrow> outbound" where
  "send_hello_full J session peer hostname caps ciphers =
     send_typed J peer TYPE_HELLO (of_hello \<lparr>hl_hostname = hostname, hl_capabilities = caps, hl_ciphers = ciphers, hl_session = session\<rparr>)"

definition send_hello :: "json_ops \<Rightarrow> u64 \<Rightarrow> socket_addr \<Rightarrow> string \<Rightarrow> outbound" where
  "send_hello J session peer hostname = send_hello_full J session peer hostname [] [BASELINE_CIPHER]"

definition send_hello_ack_full ::
  "json_ops \<Rightarrow> u64 \<Rightarrow> socket_addr \<Rightarrow> string \<Rightarrow> string list \<Rightarrow> string list \<Rightarrow> string \<Rightarrow> outbound" where
  "send_hello_ack_full J session peer hostname caps ciphers cipher =
     send_typed J peer TYPE_HELLO_ACK (of_hello_ack \<lparr>hl_hostname = hostname, hl_capabilities = caps, hl_ciphers = ciphers,
       hl_session = session, ha_cipher = cipher\<rparr>)"

definition send_hello_ack :: "json_ops \<Rightarrow> u64 \<Rightarrow> socket_addr \<Rightarrow> string \<Rightarrow> outbound" where
  "send_hello_ack J session peer hostname =
     send_hello_ack_full J session peer hostname [] [BASELINE_CIPHER] BASELINE_CIPHER"

definition send_keepalive :: "json_ops \<Rightarrow> socket_addr \<Rightarrow> outbound" where
  "send_keepalive J peer = send_typed J peer TYPE_KEEPALIVE (JObj [])"

definition send_goodbye :: "json_ops \<Rightarrow> socket_addr \<Rightarrow> outbound" where
  "send_goodbye J peer = send_typed J peer TYPE_GOODBYE (JObj [])"

definition send_keyframe_req :: "json_ops \<Rightarrow> socket_addr \<Rightarrow> u16 \<Rightarrow> outbound" where
  "send_keyframe_req J peer sid = send_typed J peer TYPE_KEYFRAME_REQ (of_keyframe_req sid)"

definition send_rate_hint :: "json_ops \<Rightarrow> socket_addr \<Rightarrow> u16 \<Rightarrow> u32 \<Rightarrow> json \<Rightarrow> outbound" where
  "send_rate_hint J peer sid bps loss = send_typed J peer TYPE_RATE_HINT (of_rate_hint sid bps loss)"

section \<open>Receiving\<close>

text \<open>Past the soft cap, the entries of addresses that are no longer peers are dropped.\<close>

definition prune_maps :: "control \<Rightarrow> control" where
  "prune_maps c =
     (if length (ct_watermark c) > PEER_MAP_SOFT_CAP
      then c\<lparr>ct_watermark := filter (\<lambda>(a, _). map_of (ct_peers c) a \<noteq> None) (ct_watermark c),
             ct_sessions := filter (\<lambda>(a, _). map_of (ct_peers c) a \<noteq> None) (ct_sessions c)\<rparr>
      else c)"

text \<open>What a HELLO or HELLO_ACK says, once its body is parsed.\<close>

record handshake =
  hs_event :: control_event
  hs_epoch :: u64
  hs_hostname :: string
  hs_capabilities :: "string list"
  hs_committed :: string

definition parse_handshake :: "control_config \<Rightarrow> socket_addr \<Rightarrow> u8 \<Rightarrow> json \<Rightarrow> handshake option" where
  "parse_handshake cfg from ty payload =
     (if ty = TYPE_HELLO then
        map_option (\<lambda>h.
            let init = (if hl_ciphers h = [] then [BASELINE_CIPHER] else hl_ciphers h)
            in \<lparr>hs_event = EvHello from (hl_hostname h) (hl_capabilities h) (hl_ciphers h), hs_epoch = hl_session h,
                hs_hostname = hl_hostname h, hs_capabilities = hl_capabilities h,
                hs_committed = select_cipher init (cc_ciphers cfg)\<rparr>)
          (json_hello payload)
      else
        map_option (\<lambda>h.
            \<lparr>hs_event = EvHelloAck from (hl_hostname h) (hl_capabilities h) (hl_ciphers h) (ha_cipher h),
             hs_epoch = hl_session h, hs_hostname = hl_hostname h, hs_capabilities = hl_capabilities h,
             hs_committed = (if suite_from_id (ha_cipher h) \<noteq> None then ha_cipher h else BASELINE_CIPHER)\<rparr>)
          (json_hello_ack payload))"

text \<open>A newer epoch restarts the session; then the usual check of the sequence. The flags say whether the
  restart is signalled and whether the message is accepted.\<close>

definition admit_handshake :: "socket_addr \<Rightarrow> u64 \<Rightarrow> u64 \<Rightarrow> control \<Rightarrow> control \<times> bool \<times> bool" where
  "admit_handshake from ep seq c =
     (if (case map_of (ct_sessions c) from of Some prev \<Rightarrow> ep < prev | None \<Rightarrow> False) then (c, False, False)
      else let rebase = (case map_of (ct_sessions c) from of Some prev \<Rightarrow> prev < ep | None \<Rightarrow> True);
               c = (if rebase then c\<lparr>ct_sessions := hm_insert from ep (ct_sessions c),
                                     ct_watermark := hm_remove from (ct_watermark c)\<rparr> else c)
        in case watermark_check from seq (ct_watermark c) of
             (_, False) \<Rightarrow> (c, rebase, False)
           | (wm, True) \<Rightarrow> (c\<lparr>ct_watermark := wm\<rparr>, rebase, True))"

definition register_keys :: "crypto_ops \<Rightarrow> socket_addr \<Rightarrow> string \<Rightarrow> u64 \<Rightarrow> control \<Rightarrow> control" where
  "register_keys C from committed ep c =
     (let suite = (case suite_from_id committed of Some s \<Rightarrow> s | None \<Rightarrow> ChaCha20Poly1305);
          psk = cc_psk (ct_config c)
      in c\<lparr>ct_transport :=
             register_send_key from (derive_session_key C psk committed (cc_session (ct_config c))) suite
               (register_peer_key from (derive_session_key C psk committed ep) suite (ct_transport c))\<rparr>)"

text \<open>At the cap, a newcomer displaces the peer with the lowest epoch.\<close>

definition make_peer_room :: "socket_addr \<Rightarrow> (socket_addr, peer_state) hashmap \<Rightarrow> (socket_addr, peer_state) hashmap" where
  "make_peer_room from p =
     (if map_of p from = None \<and> length p \<ge> PEER_MAP_SOFT_CAP
      then (case min_by_key (\<lambda>(_, s). ps_session_epoch s) p of
              Some (victim, _) \<Rightarrow> hm_remove victim p
            | None \<Rightarrow> p)
      else p)"

record control_output =
  co_event :: "control_event option"
  co_rebase :: "socket_addr option"
  co_send :: "outbound option"

definition no_output :: control_output where
  "no_output = \<lparr>co_event = None, co_rebase = None, co_send = None\<rparr>"

definition on_handshake ::
  "crypto_ops \<Rightarrow> json_ops \<Rightarrow> socket_addr \<Rightarrow> u64 \<Rightarrow> u8 \<Rightarrow> json \<Rightarrow> control \<Rightarrow> control \<times> control_output" where
  "on_handshake C J from seq ty payload c =
     (case parse_handshake (ct_config c) from ty payload of
        None \<Rightarrow> (c, no_output)
      | Some h \<Rightarrow>
          (case admit_handshake from (hs_epoch h) seq c of
             (c, rebase, False) \<Rightarrow> (c, no_output\<lparr>co_rebase := if rebase then Some from else None\<rparr>)
           | (c, rebase, True) \<Rightarrow>
               (let c = register_keys C from (hs_committed h) (hs_epoch h) c;
                    p = hm_insert from \<lparr>ps_hostname = hs_hostname h, ps_capabilities = hs_capabilities h,
                          ps_cipher = hs_committed h, ps_session_epoch = hs_epoch h\<rparr> (make_peer_room from (ct_peers c));
                    cfg = ct_config c;
                    ack = (if ty = TYPE_HELLO
                           then Some (control_outbound J from TYPE_HELLO_ACK
                             (value_of (of_hello_ack \<lparr>hl_hostname = cc_hostname cfg, hl_capabilities = cc_capabilities cfg,
                                hl_ciphers = cc_ciphers cfg, hl_session = cc_session cfg, ha_cipher = hs_committed h\<rparr>)) True)
                           else None)
                in (c\<lparr>ct_peers := p\<rparr>,
                    \<lparr>co_event = Some (hs_event h), co_rebase = if rebase then Some from else None, co_send = ack\<rparr>))))"

definition on_other ::
  "socket_addr \<Rightarrow> u64 \<Rightarrow> u8 \<Rightarrow> json \<Rightarrow> control \<Rightarrow> control \<times> control_event option" where
  "on_other from seq ty payload c =
     (case watermark_check from seq (ct_watermark c) of
        (_, False) \<Rightarrow> (c, None)
      | (wm, True) \<Rightarrow>
          (let c = c\<lparr>ct_watermark := wm\<rparr> in
           if ty = TYPE_KEEPALIVE then (c, Some (EvKeepalive from))
           else if ty = TYPE_GOODBYE then
             (c\<lparr>ct_peers := hm_remove from (ct_peers c), ct_sessions := hm_remove from (ct_sessions c),
                ct_watermark := hm_remove from (ct_watermark c), ct_transport := forget_peer from (ct_transport c)\<rparr>,
              Some (EvGoodbye from))
           else if ty = TYPE_KEYFRAME_REQ then
             (c, map_option (EvKeyframeReq from) (json_keyframe_req payload))
           else if ty = TYPE_RATE_HINT then
             (c, map_option (\<lambda>(sid, bps, loss). EvRateHint from sid bps loss) (json_rate_hint payload))
           else (c, Some (EvOther from ty payload))))"

text \<open>One packet of the control route.\<close>

definition control_packet :: "crypto_ops \<Rightarrow> json_ops \<Rightarrow> inbound \<Rightarrow> control \<Rightarrow> control \<times> control_output" where
  "control_packet C J pkt c =
     (let c = prune_maps c; from = in_from pkt; seq = h_sequence (in_header pkt) in
      case Option.bind (js_parse J (in_payload pkt)) json_envelope of
        None \<Rightarrow> (c, no_output)
      | Some (ty, payload) \<Rightarrow>
          if ty = TYPE_HELLO \<or> ty = TYPE_HELLO_ACK then on_handshake C J from seq ty payload c
          else (let (c, ev) = on_other from seq ty payload c in (c, no_output\<lparr>co_event := ev\<rparr>)))"

end
