(* ===== verification/Handshake.thy ===== *)
theory Handshake
  imports Control
begin

text \<open>
  What the control task guarantees: per peer, what it accepts comes with rising epochs and, within an
  epoch, rising sequences, until it forgets the peer; a completed handshake leaves both ends with
  matching keys; the tables it keeps per peer are bounded. Three limits are stated as well.
\<close>

section \<open>Epochs and sequences\<close>

lemma map_of_filter_key: "map_of (filter (\<lambda>(a, _). P a) m) k = (if P k then map_of m k else None)"
  by (induction m) auto

lemma prune_maps_fields [simp]:
  "ct_config (prune_maps c) = ct_config c" "ct_transport (prune_maps c) = ct_transport c"
  "ct_peers (prune_maps c) = ct_peers c"
  by (simp_all add: prune_maps_def)

lemma prune_maps_lookup:
  "map_of (ct_watermark (prune_maps c)) a =
     (if length (ct_watermark c) > PEER_MAP_SOFT_CAP \<and> map_of (ct_peers c) a = None then None else map_of (ct_watermark c) a)"
  "map_of (ct_sessions (prune_maps c)) a =
     (if length (ct_watermark c) > PEER_MAP_SOFT_CAP \<and> map_of (ct_peers c) a = None then None else map_of (ct_sessions c) a)"
  by (simp_all add: prune_maps_def map_of_filter_key)

definition control_mark :: "control \<Rightarrow> socket_addr \<Rightarrow> (u64 option \<times> u64 option) option" where
  "control_mark c a = Some (map_of (ct_sessions c) a, map_of (ct_watermark c) a)"

definition control_next :: "crypto_ops \<Rightarrow> json_ops \<Rightarrow> inbound \<Rightarrow> control \<Rightarrow> control" where
  "control_next C J p c = fst (control_packet C J p c)"



text \<open>A peer is forgotten when it says goodbye, or when the maps are pruned and it is not registered.\<close>

definition control_forgets :: "crypto_ops \<Rightarrow> json_ops \<Rightarrow> inbound \<Rightarrow> control \<Rightarrow> socket_addr \<Rightarrow> bool" where
  "control_forgets C J p c a \<longleftrightarrow>
     length (ct_watermark c) > PEER_MAP_SOFT_CAP \<and> map_of (ct_peers c) a = None \<or>
     co_event (snd (control_packet C J p c)) = Some (EvGoodbye a)"

lemma admit_handshake_mark:
  assumes "admit_handshake a ep seq c = (c', rebase, ok)"
  shows "b \<noteq> a \<Longrightarrow> control_mark c' b = control_mark c b"
    "control_mark c a \<le> control_mark c' a"
    "ok \<Longrightarrow> control_mark c' a = Some (Some ep, Some seq) \<and> control_mark c a < control_mark c' a"
    "ct_config c' = ct_config c \<and> ct_transport c' = ct_transport c \<and> ct_peers c' = ct_peers c"
  using assms
  by (auto simp: admit_handshake_def control_mark_def watermark_check_def Let_def not_le not_less
      split: option.splits if_splits)

lemma register_keys_fields [simp]:
  "ct_config (register_keys C a cid ep c) = ct_config c" "ct_peers (register_keys C a cid ep c) = ct_peers c"
  "ct_watermark (register_keys C a cid ep c) = ct_watermark c" "ct_sessions (register_keys C a cid ep c) = ct_sessions c"
  by (simp_all add: register_keys_def Let_def)

lemma register_keys_mark [simp]: "control_mark (register_keys C a cid ep c) = control_mark c"
  by (simp add: control_mark_def fun_eq_iff)

lemma peers_update_mark [simp]: "control_mark (c\<lparr>ct_peers := p\<rparr>) = control_mark c"
  by (simp add: control_mark_def fun_eq_iff)

lemma parse_handshake_event:
  "parse_handshake cfg a ty payload = Some h \<Longrightarrow> hs_event h \<noteq> EvGoodbye b"
  by (auto simp: parse_handshake_def Let_def split: if_splits)

text \<open>The automatic answer to a HELLO.\<close>

definition hello_reply :: "json_ops \<Rightarrow> socket_addr \<Rightarrow> control_config \<Rightarrow> string \<Rightarrow> outbound" where
  "hello_reply J a cfg committed =
     send_hello_ack_full J (cc_session cfg) a (cc_hostname cfg) (cc_capabilities cfg) (cc_ciphers cfg) committed"

lemma admit_handshake_config: "admit_handshake a ep seq c = (c1, rebase, ok) \<Longrightarrow> ct_config c1 = ct_config c"
  using admit_handshake_mark(4) by blast

lemma on_handshake_cases:
  assumes "on_handshake C J a seq ty payload c = (c', out)"
  obtains (bad) "c' = c" "out = no_output"
    | (drop) h rebase where "parse_handshake (ct_config c) a ty payload = Some h"
        "admit_handshake a (hs_epoch h) seq c = (c', rebase, False)" "co_event out = None" "co_send out = None"
    | (ok) h c1 rebase where "parse_handshake (ct_config c) a ty payload = Some h"
        "admit_handshake a (hs_epoch h) seq c = (c1, rebase, True)" "co_event out = Some (hs_event h)"
        "c' = register_keys C a (hs_committed h) (hs_epoch h) c1\<lparr>ct_peers :=
           hm_insert a \<lparr>ps_hostname = hs_hostname h, ps_capabilities = hs_capabilities h,
             ps_cipher = hs_committed h, ps_session_epoch = hs_epoch h\<rparr> (make_peer_room a (ct_peers c1))\<rparr>"
        "co_rebase out = (if rebase then Some a else None)"
        "co_send out = (if ty = TYPE_HELLO then Some (hello_reply J a (ct_config c) (hs_committed h)) else None)"
proof (cases "parse_handshake (ct_config c) a ty payload")
  case None
  with assms bad show ?thesis by (simp add: on_handshake_def)
next
  case (Some h)
  obtain c1 rebase acc where adm: "admit_handshake a (hs_epoch h) seq c = (c1, rebase, acc)" by (rule prod_cases3)
  show ?thesis
  proof (cases acc)
    case True
    with assms Some adm show ?thesis
      by (intro ok [of h c1 rebase])
        (auto simp: on_handshake_def Let_def hello_reply_def send_hello_ack_full_def send_typed_def admit_handshake_config)
  next
    case False
    with assms Some adm show ?thesis
      by (intro drop [of h rebase]) (auto simp: on_handshake_def no_output_def)
  qed
qed

lemma on_handshake_mark:
  assumes "on_handshake C J a seq ty payload c = (c', out)"
  shows "b \<noteq> a \<Longrightarrow> control_mark c' b = control_mark c b" "control_mark c a \<le> control_mark c' a"
    "co_event out \<noteq> None \<Longrightarrow> control_mark c a < control_mark c' a \<and> map_of (ct_watermark c') a = Some seq"
    "co_event out \<noteq> Some (EvGoodbye b')"
proof -
  from assms have "(b \<noteq> a \<longrightarrow> control_mark c' b = control_mark c b) \<and> control_mark c a \<le> control_mark c' a \<and>
    (co_event out \<noteq> None \<longrightarrow> control_mark c a < control_mark c' a \<and> map_of (ct_watermark c') a = Some seq) \<and>
    co_event out \<noteq> Some (EvGoodbye b')"
  proof (cases rule: on_handshake_cases)
    case (drop h rebase)
    with admit_handshake_mark [OF drop(2)] show ?thesis by simp
  next
    case (ok h c1 rebase)
    from admit_handshake_mark [OF ok(2)] have "map_of (ct_watermark c1) a = Some seq" by (simp add: control_mark_def)
    with ok admit_handshake_mark [OF ok(2)] parse_handshake_event [OF ok(1)]
    show ?thesis by auto
  qed (simp add: no_output_def)
  then show "b \<noteq> a \<Longrightarrow> control_mark c' b = control_mark c b" "control_mark c a \<le> control_mark c' a"
    "co_event out \<noteq> None \<Longrightarrow> control_mark c a < control_mark c' a \<and> map_of (ct_watermark c') a = Some seq"
    "co_event out \<noteq> Some (EvGoodbye b')" by blast+
qed

lemma on_other_mark:
  assumes "on_other a seq ty payload c = (c', ev)"
  shows "b \<noteq> a \<Longrightarrow> control_mark c' b = control_mark c b"
    "ev \<noteq> Some (EvGoodbye a) \<Longrightarrow> control_mark c a \<le> control_mark c' a"
    "ev \<noteq> None \<Longrightarrow> ev \<noteq> Some (EvGoodbye a) \<Longrightarrow>
       control_mark c a < control_mark c' a \<and> map_of (ct_watermark c') a = Some seq"
    "ev = Some (EvGoodbye b') \<Longrightarrow> b' = a"
  using assms
  by (auto simp: on_other_def control_mark_def watermark_check_def Let_def not_le less_eq_prod_def less_prod_def
      split: option.splits if_splits)

lemma control_packet_cases:
  assumes "control_packet C J p c = (c', out)"
  obtains (bad) "c' = prune_maps c" "out = no_output"
    | (hs) ty payload where "on_handshake C J (in_from p) (h_sequence (in_header p)) ty payload (prune_maps c) = (c', out)"
    | (other) ty payload ev where "on_other (in_from p) (h_sequence (in_header p)) ty payload (prune_maps c) = (c', ev)"
        "out = no_output\<lparr>co_event := ev\<rparr>"
proof (cases "Option.bind (js_parse J (in_payload p)) json_envelope")
  case None
  then show ?thesis using assms bad by (simp add: control_packet_def Let_def)
next
  case (Some tp)
  obtain ty payload where tp: "tp = (ty, payload)" by (rule prod.exhaust)
  obtain c1 ev where o: "on_other (in_from p) (h_sequence (in_header p)) ty payload (prune_maps c) = (c1, ev)" by (rule prod.exhaust)
  from assms Some tp o hs [of ty payload] other [of ty payload ev] show ?thesis
    by (cases "ty = TYPE_HELLO \<or> ty = TYPE_HELLO_ACK") (simp_all add: control_packet_def Let_def)
qed

lemma control_packet_mark:
  assumes "control_packet C J p c = (c', out)"
  shows "\<not> control_forgets C J p c a \<Longrightarrow> a \<noteq> in_from p \<Longrightarrow> control_mark c' a = control_mark c a"
    "\<not> control_forgets C J p c a \<Longrightarrow> control_mark c a \<le> control_mark c' a"
    "\<not> control_forgets C J p c (in_from p) \<Longrightarrow> co_event out \<noteq> None \<Longrightarrow>
       control_mark c (in_from p) < control_mark c' (in_from p) \<and>
       map_of (ct_watermark c') (in_from p) = Some (h_sequence (in_header p))"
proof -
  let ?c = "prune_maps c"
  have kept: "control_mark ?c b = control_mark c b" if "\<not> control_forgets C J p c b" for b
    using that by (auto simp: control_forgets_def control_mark_def prune_maps_lookup)
  from assms have "(\<not> control_forgets C J p c a \<longrightarrow> a \<noteq> in_from p \<longrightarrow> control_mark c' a = control_mark c a) \<and>
    (\<not> control_forgets C J p c a \<longrightarrow> control_mark c a \<le> control_mark c' a) \<and>
    (\<not> control_forgets C J p c (in_from p) \<longrightarrow> co_event out \<noteq> None \<longrightarrow>
       control_mark c (in_from p) < control_mark c' (in_from p) \<and>
       map_of (ct_watermark c') (in_from p) = Some (h_sequence (in_header p)))"
  proof (cases rule: control_packet_cases)
    case bad
    then show ?thesis using kept by (simp add: no_output_def)
  next
    case (hs ty payload)
    show ?thesis
      using on_handshake_mark [OF hs] kept [of a] kept [of "in_from p"]
      by (cases "a = in_from p") auto
  next
    case (other ty payload ev)
    have "ev = Some (EvGoodbye (in_from p)) \<Longrightarrow> control_forgets C J p c (in_from p)"
      using assms other(2) by (simp add: control_forgets_def)
    then have nb: "ev \<noteq> Some (EvGoodbye (in_from p))" if "\<not> control_forgets C J p c (in_from p)" using that by blast
    have ev: "co_event out = ev" using other(2) by simp
    have 1: "control_mark c' a = control_mark c a" if "\<not> control_forgets C J p c a" "a \<noteq> in_from p"
      using on_other_mark(1) [OF other(1) that(2)] kept [OF that(1)] by simp
    have 2: "control_mark c (in_from p) \<le> control_mark c' (in_from p)" if "\<not> control_forgets C J p c (in_from p)"
      using on_other_mark(2) [OF other(1) nb [OF that]] kept [OF that] by simp
    have 3: "control_mark c (in_from p) < control_mark c' (in_from p) \<and>
       map_of (ct_watermark c') (in_from p) = Some (h_sequence (in_header p))"
      if "\<not> control_forgets C J p c (in_from p)" "co_event out \<noteq> None"
      using on_other_mark(3) [OF other(1) _ nb [OF that(1)]] kept [OF that(1)] that(2) ev by simp
    show ?thesis
    proof (intro conjI impI)
      assume a: "\<not> control_forgets C J p c a"
      show "control_mark c a \<le> control_mark c' a" using 1 2 a by (cases "a = in_from p") simp_all
    qed (use 1 3 in blast)+
  qed
  then show "\<not> control_forgets C J p c a \<Longrightarrow> a \<noteq> in_from p \<Longrightarrow> control_mark c' a = control_mark c a"
    "\<not> control_forgets C J p c a \<Longrightarrow> control_mark c a \<le> control_mark c' a"
    "\<not> control_forgets C J p c (in_from p) \<Longrightarrow> co_event out \<noteq> None \<Longrightarrow>
       control_mark c (in_from p) < control_mark c' (in_from p) \<and>
       map_of (ct_watermark c') (in_from p) = Some (h_sequence (in_header p))" by blast+
qed







section \<open>Key agreement\<close>

lemma value_of_hello:
  "value_of (of_hello h) = JObj [(''capabilities'', JArr (map JStr (hl_capabilities h))),
     (''ciphers'', JArr (map JStr (hl_ciphers h))), (''hostname'', JStr (hl_hostname h)), (''session'', JPos (hl_session h))]"
  by (simp add: of_hello_def comp_def)

lemma value_of_hello_ack:
  "value_of (of_hello_ack h) = JObj [(''capabilities'', JArr (map JStr (hl_capabilities h))), (''cipher'', JStr (ha_cipher h)),
     (''ciphers'', JArr (map JStr (hl_ciphers h))), (''hostname'', JStr (hl_hostname h)), (''session'', JPos (hl_session h))]"
  by (simp add: of_hello_ack_def comp_def)

lemma json_strings [simp]: "json_vec json_string (JArr (map JStr xs)) = Some xs"
  by (rule json_vec_map) simp

lemma json_hello_of [simp]: "json_hello (value_of (of_hello h)) = Some h"
  by (simp add: value_of_hello json_hello_def json_struct_def json_field_def json_default_def del: json_vec.simps)

lemma json_hello_ack_of [simp]: "json_hello_ack (value_of (of_hello_ack h)) = Some h"
  by (simp add: value_of_hello_ack json_hello_ack_def json_struct_def json_field_def json_default_def del: json_vec.simps)

lemma fold_max_const: "(\<And>x. x \<in> set xs \<Longrightarrow> f x = (0 :: nat)) \<Longrightarrow> fold max (map f xs) k = k"
  by (induction xs arbitrary: k) auto

lemma wf_handshake_json [simp]:
  "wf_json (of_envelope (ty, value_of (of_hello h)))" "wf_json (of_envelope (ty, value_of (of_hello_ack h')))"
  by (simp_all add: wf_json_def of_envelope_def value_of_hello value_of_hello_ack list_all_iff fold_max_const)

text \<open>A handshake message is fresh when its epoch is newer than the one known, or the same with a higher
  sequence.\<close>

definition handshake_fresh :: "socket_addr \<Rightarrow> u64 \<Rightarrow> u64 \<Rightarrow> control \<Rightarrow> bool" where
  "handshake_fresh a ep seq c \<longleftrightarrow>
     (case map_of (ct_sessions c) a of
        None \<Rightarrow> True
      | Some prev \<Rightarrow> prev < ep \<or> prev = ep \<and> (case map_of (ct_watermark c) a of None \<Rightarrow> True | Some wm \<Rightarrow> wm < seq))"

lemma admit_handshake_iff: "snd (snd (admit_handshake a ep seq c)) \<longleftrightarrow> handshake_fresh a ep seq c"
  by (auto simp: admit_handshake_def handshake_fresh_def watermark_check_def Let_def split: option.splits)

lemma prune_maps_fresh: "handshake_fresh a ep seq c \<Longrightarrow> handshake_fresh a ep seq (prune_maps c)"
  by (auto simp: handshake_fresh_def prune_maps_lookup split: option.splits)

definition session_key :: "crypto_ops \<Rightarrow> control_config \<Rightarrow> string \<Rightarrow> u64 \<Rightarrow> key \<times> suite" where
  "session_key C cfg cid ep = (derive_session_key C (cc_psk cfg) cid ep,
     case suite_from_id cid of Some s \<Rightarrow> s | None \<Rightarrow> ChaCha20Poly1305)"

lemma on_handshake_fresh:
  assumes "parse_handshake (ct_config c) a ty payload = Some h" "handshake_fresh a (hs_epoch h) seq c"
    "on_handshake C J a seq ty payload c = (c', out)"
  shows "co_event out = Some (hs_event h)"
    "map_of (tr_peer_keys (ct_transport c')) a = Some (session_key C (ct_config c) (hs_committed h) (hs_epoch h))"
    "map_of (tr_send_keys (ct_transport c')) a = Some (session_key C (ct_config c) (hs_committed h) (cc_session (ct_config c)))"
    "map_option ps_cipher (map_of (ct_peers c') a) = Some (hs_committed h)"
    "map_option ps_session_epoch (map_of (ct_peers c') a) = Some (hs_epoch h)"
    "co_send out = (if ty = TYPE_HELLO then Some (hello_reply J a (ct_config c) (hs_committed h)) else None)"
    "map_of (ct_sessions c) a = None \<Longrightarrow> co_rebase out = Some a"
    "tr_band_id (ct_transport c') = tr_band_id (ct_transport c)" "tr_routes (ct_transport c') = tr_routes (ct_transport c)"
    "tr_base_key (ct_transport c') = tr_base_key (ct_transport c)"
proof -
  obtain c1 rebase where adm: "admit_handshake a (hs_epoch h) seq c = (c1, rebase, True)"
    using admit_handshake_iff [of a "hs_epoch h" seq c] assms(2)
    by (cases "admit_handshake a (hs_epoch h) seq c") auto
  note c1 = admit_handshake_mark(4) [OF adm]
  have "rebase" if "map_of (ct_sessions c) a = None"
    using adm that by (auto simp: admit_handshake_def Let_def split: prod.splits bool.splits)
  then show "co_event out = Some (hs_event h)"
    "map_of (tr_peer_keys (ct_transport c')) a = Some (session_key C (ct_config c) (hs_committed h) (hs_epoch h))"
    "map_of (tr_send_keys (ct_transport c')) a = Some (session_key C (ct_config c) (hs_committed h) (cc_session (ct_config c)))"
    "map_option ps_cipher (map_of (ct_peers c') a) = Some (hs_committed h)"
    "map_option ps_session_epoch (map_of (ct_peers c') a) = Some (hs_epoch h)"
    "co_send out = (if ty = TYPE_HELLO then Some (hello_reply J a (ct_config c) (hs_committed h)) else None)"
    "map_of (ct_sessions c) a = None \<Longrightarrow> co_rebase out = Some a"
    "tr_band_id (ct_transport c') = tr_band_id (ct_transport c)" "tr_routes (ct_transport c') = tr_routes (ct_transport c)"
    "tr_base_key (ct_transport c') = tr_base_key (ct_transport c)"
    using assms(1,3) c1
    by (auto simp: on_handshake_def adm Let_def register_keys_def register_peer_key_def register_send_key_def
        session_key_def hello_reply_def send_hello_ack_full_def send_typed_def)
qed

lemma control_packet_envelope:
  assumes "json_ok J" "in_payload p = js_print J (of_envelope (ty, value_of body))" "wf_json (of_envelope (ty, value_of body))"
    "ty = TYPE_HELLO \<or> ty = TYPE_HELLO_ACK"
  shows "control_packet C J p c = on_handshake C J (in_from p) (h_sequence (in_header p)) ty (value_of body) (prune_maps c)"
  using assms(2,4) by (simp add: control_packet_def json_ok_parse [OF assms(1,3)] Let_def)

lemma parse_hello_of:
  "parse_handshake cfg a TYPE_HELLO (value_of (of_hello h)) =
     Some \<lparr>hs_event = EvHello a (hl_hostname h) (hl_capabilities h) (hl_ciphers h), hs_epoch = hl_session h,
       hs_hostname = hl_hostname h, hs_capabilities = hl_capabilities h,
       hs_committed = select_cipher (if hl_ciphers h = [] then [BASELINE_CIPHER] else hl_ciphers h) (cc_ciphers cfg)\<rparr>"
  by (simp add: parse_handshake_def Let_def)

lemma parse_hello_ack_of:
  "parse_handshake cfg a TYPE_HELLO_ACK (value_of (of_hello_ack h)) =
     Some \<lparr>hs_event = EvHelloAck a (hl_hostname h) (hl_capabilities h) (hl_ciphers h) (ha_cipher h), hs_epoch = hl_session h,
       hs_hostname = hl_hostname h, hs_capabilities = hl_capabilities h,
       hs_committed = (if suite_from_id (ha_cipher h) \<noteq> None then ha_cipher h else BASELINE_CIPHER)\<rparr>"
  by (simp add: parse_handshake_def TYPE_HELLO_def TYPE_HELLO_ACK_def)

lemma select_cipher_known:
  assumes "\<forall>c \<in> set prefs. suite_from_id c \<noteq> None"
  shows "suite_from_id (select_cipher prefs supported) \<noteq> None"
proof (cases "List.find (\<lambda>cid. cid = BASELINE_CIPHER \<or> cid \<in> set supported) prefs")
  case (Some c)
  then have "c \<in> set prefs" by (metis find_Some_iff nth_mem)
  with Some assms show ?thesis by (simp add: select_cipher_def)
qed (simp add: select_cipher_def BASELINE_CIPHER_def suite_from_id_def)

lemma hello_received:
  assumes "json_ok J" "in_payload p = ob_plaintext (send_hello_full J ep to host caps ciphers)" "ciphers \<noteq> []"
    "handshake_fresh (in_from p) ep (h_sequence (in_header p)) b" "control_packet C J p b = (b', out)"
  defines "cid \<equiv> select_cipher ciphers (cc_ciphers (ct_config b))"
  shows "co_event out = Some (EvHello (in_from p) host caps ciphers)"
    "map_of (tr_peer_keys (ct_transport b')) (in_from p) = Some (session_key C (ct_config b) cid ep)"
    "map_of (tr_send_keys (ct_transport b')) (in_from p) = Some (session_key C (ct_config b) cid (cc_session (ct_config b)))"
    "map_option ps_cipher (map_of (ct_peers b') (in_from p)) = Some cid"
    "map_option ps_session_epoch (map_of (ct_peers b') (in_from p)) = Some ep"
    "co_send out = Some (hello_reply J (in_from p) (ct_config b) cid)"
    "map_of (ct_sessions b) (in_from p) = None \<Longrightarrow> co_rebase out = Some (in_from p)"
    "tr_band_id (ct_transport b') = tr_band_id (ct_transport b)" "tr_routes (ct_transport b') = tr_routes (ct_transport b)"
    "tr_base_key (ct_transport b') = tr_base_key (ct_transport b)"
proof -
  let ?h = "\<lparr>hl_hostname = host, hl_capabilities = caps, hl_ciphers = ciphers, hl_session = ep\<rparr>"
  have pl: "in_payload p = js_print J (of_envelope (TYPE_HELLO, value_of (of_hello ?h)))"
    using assms(2) by (simp add: send_hello_full_def send_typed_def control_outbound_def)
  have step: "on_handshake C J (in_from p) (h_sequence (in_header p)) TYPE_HELLO (value_of (of_hello ?h)) (prune_maps b) = (b', out)"
    using control_packet_envelope [OF assms(1) pl, of C b] assms(5) by simp
  have fresh: "handshake_fresh (in_from p) ep (h_sequence (in_header p)) (prune_maps b)"
    using assms(4) by (rule prune_maps_fresh)
  note r = on_handshake_fresh [OF parse_hello_of [of "ct_config (prune_maps b)" "in_from p" ?h], simplified]
  have "map_of (ct_sessions (prune_maps b)) (in_from p) = None" if "map_of (ct_sessions b) (in_from p) = None"
    using that by (simp add: prune_maps_lookup)
  then show "co_event out = Some (EvHello (in_from p) host caps ciphers)"
    "map_of (tr_peer_keys (ct_transport b')) (in_from p) = Some (session_key C (ct_config b) cid ep)"
    "map_of (tr_send_keys (ct_transport b')) (in_from p) = Some (session_key C (ct_config b) cid (cc_session (ct_config b)))"
    "map_option ps_cipher (map_of (ct_peers b') (in_from p)) = Some cid"
    "map_option ps_session_epoch (map_of (ct_peers b') (in_from p)) = Some ep"
    "co_send out = Some (hello_reply J (in_from p) (ct_config b) cid)"
    "map_of (ct_sessions b) (in_from p) = None \<Longrightarrow> co_rebase out = Some (in_from p)"
    "tr_band_id (ct_transport b') = tr_band_id (ct_transport b)" "tr_routes (ct_transport b') = tr_routes (ct_transport b)"
    "tr_base_key (ct_transport b') = tr_base_key (ct_transport b)"
    using r [OF fresh step] assms(3) by (simp_all add: cid_def)
qed

lemma hello_ack_received:
  assumes "json_ok J" "in_payload q = ob_plaintext (hello_reply J to cfg cid)" "suite_from_id cid \<noteq> None"
    "handshake_fresh (in_from q) (cc_session cfg) (h_sequence (in_header q)) a" "control_packet C J q a = (a', out)"
  shows "co_event out = Some (EvHelloAck (in_from q) (cc_hostname cfg) (cc_capabilities cfg) (cc_ciphers cfg) cid)"
    "map_of (tr_peer_keys (ct_transport a')) (in_from q) = Some (session_key C (ct_config a) cid (cc_session cfg))"
    "map_of (tr_send_keys (ct_transport a')) (in_from q) = Some (session_key C (ct_config a) cid (cc_session (ct_config a)))"
    "map_option ps_cipher (map_of (ct_peers a') (in_from q)) = Some cid"
    "tr_band_id (ct_transport a') = tr_band_id (ct_transport a)" "tr_routes (ct_transport a') = tr_routes (ct_transport a)"
    "co_send out = None"
proof -
  let ?h = "\<lparr>hl_hostname = cc_hostname cfg, hl_capabilities = cc_capabilities cfg, hl_ciphers = cc_ciphers cfg,
    hl_session = cc_session cfg, ha_cipher = cid\<rparr>"
  have pl: "in_payload q = js_print J (of_envelope (TYPE_HELLO_ACK, value_of (of_hello_ack ?h)))"
    using assms(2) by (simp add: hello_reply_def send_hello_ack_full_def send_typed_def control_outbound_def)
  have step: "on_handshake C J (in_from q) (h_sequence (in_header q)) TYPE_HELLO_ACK (value_of (of_hello_ack ?h)) (prune_maps a) = (a', out)"
    using control_packet_envelope [OF assms(1) pl, of C a] assms(5) by simp
  have fresh: "handshake_fresh (in_from q) (cc_session cfg) (h_sequence (in_header q)) (prune_maps a)"
    using assms(4) by (rule prune_maps_fresh)
  note r = on_handshake_fresh [OF parse_hello_ack_of [of "ct_config (prune_maps a)" "in_from q" ?h], simplified]
  show "co_event out = Some (EvHelloAck (in_from q) (cc_hostname cfg) (cc_capabilities cfg) (cc_ciphers cfg) cid)"
    "map_of (tr_peer_keys (ct_transport a')) (in_from q) = Some (session_key C (ct_config a) cid (cc_session cfg))"
    "map_of (tr_send_keys (ct_transport a')) (in_from q) = Some (session_key C (ct_config a) cid (cc_session (ct_config a)))"
    "map_option ps_cipher (map_of (ct_peers a') (in_from q)) = Some cid"
    "tr_band_id (ct_transport a') = tr_band_id (ct_transport a)" "tr_routes (ct_transport a') = tr_routes (ct_transport a)"
    "co_send out = None"
    using r [OF fresh step] assms(3) by (simp_all add: TYPE_HELLO_def TYPE_HELLO_ACK_def)
qed

lemma handshake_exchange:
  assumes "json_ok J" "cc_psk (ct_config a) = cc_psk (ct_config b)"
    "ciphers \<noteq> []" "\<forall>c \<in> set ciphers. suite_from_id c \<noteq> None"
    "in_payload p = ob_plaintext (send_hello_full J (cc_session (ct_config a)) to host caps ciphers)"
    "handshake_fresh (in_from p) (cc_session (ct_config a)) (h_sequence (in_header p)) b"
    "control_packet C J p b = (b', outb)"
    "in_payload q = ob_plaintext (the (co_send outb))"
    "handshake_fresh (in_from q) (cc_session (ct_config b)) (h_sequence (in_header q)) a"
    "control_packet C J q a = (a', outa)"
  defines "cid \<equiv> select_cipher ciphers (cc_ciphers (ct_config b))"
  shows "co_send outb \<noteq> None" "co_event outb \<noteq> None" "co_event outa \<noteq> None"
    "map_option ps_cipher (map_of (ct_peers b') (in_from p)) = Some cid"
    "map_option ps_cipher (map_of (ct_peers a') (in_from q)) = Some cid"
    "map_of (tr_send_keys (ct_transport a')) (in_from q) = Some (session_key C (ct_config a) cid (cc_session (ct_config a)))"
    "map_of (tr_peer_keys (ct_transport b')) (in_from p) = Some (session_key C (ct_config a) cid (cc_session (ct_config a)))"
    "map_of (tr_send_keys (ct_transport b')) (in_from p) = Some (session_key C (ct_config a) cid (cc_session (ct_config b)))"
    "map_of (tr_peer_keys (ct_transport a')) (in_from q) = Some (session_key C (ct_config a) cid (cc_session (ct_config b)))"
proof -
  note r = hello_received [OF assms(1,5,3,6,7), folded cid_def]
  have ack: "in_payload q = ob_plaintext (hello_reply J (in_from p) (ct_config b) cid)"
    using r(6) assms(8) by simp
  have known: "suite_from_id cid \<noteq> None" unfolding cid_def using assms(4) by (rule select_cipher_known)
  note s = hello_ack_received [OF assms(1) ack known assms(9,10)]
  have k: "session_key C (ct_config a) = session_key C (ct_config b)"
    by (simp add: session_key_def assms(2) fun_eq_iff)
  show "co_send outb \<noteq> None" "co_event outb \<noteq> None" "co_event outa \<noteq> None"
    "map_option ps_cipher (map_of (ct_peers b') (in_from p)) = Some cid"
    "map_option ps_cipher (map_of (ct_peers a') (in_from q)) = Some cid"
    "map_of (tr_send_keys (ct_transport a')) (in_from q) = Some (session_key C (ct_config a) cid (cc_session (ct_config a)))"
    "map_of (tr_peer_keys (ct_transport b')) (in_from p) = Some (session_key C (ct_config a) cid (cc_session (ct_config a)))"
    "map_of (tr_send_keys (ct_transport b')) (in_from p) = Some (session_key C (ct_config a) cid (cc_session (ct_config b)))"
    "map_of (tr_peer_keys (ct_transport a')) (in_from q) = Some (session_key C (ct_config a) cid (cc_session (ct_config b)))"
    using r s by (simp_all add: k)
qed

text \<open>A handshake leaves both ends with matching keys: when a band member whose offer lists only
  implemented ciphers sends a HELLO, another member of the same pre-shared key that has seen no newer
  session of it accepts it and answers, and the answer is accepted likewise, both record the cipher
  chosen from the offer by the responder's list, and in each direction the key one end encrypts with is
  the key the other end decrypts with.\<close>

theorem handshake_keys_agree:
  assumes "json_ok J" "cc_psk (ct_config a) = cc_psk (ct_config b)"
    "ciphers \<noteq> []" "\<forall>c \<in> set ciphers. suite_from_id c \<noteq> None"
    "in_payload p = ob_plaintext (send_hello_full J (cc_session (ct_config a)) to host caps ciphers)"
    "handshake_fresh (in_from p) (cc_session (ct_config a)) (h_sequence (in_header p)) b"
    "control_packet C J p b = (b', outb)"
    "in_payload q = ob_plaintext (the (co_send outb))"
    "handshake_fresh (in_from q) (cc_session (ct_config b)) (h_sequence (in_header q)) a"
    "control_packet C J q a = (a', outa)"
  shows "co_send outb \<noteq> None \<and> co_event outb \<noteq> None \<and> co_event outa \<noteq> None \<and>
    map_option ps_cipher (map_of (ct_peers b') (in_from p)) = Some (select_cipher ciphers (cc_ciphers (ct_config b))) \<and>
    map_option ps_cipher (map_of (ct_peers a') (in_from q)) = Some (select_cipher ciphers (cc_ciphers (ct_config b))) \<and>
    map_of (tr_send_keys (ct_transport a')) (in_from q) \<noteq> None \<and>
    map_of (tr_send_keys (ct_transport a')) (in_from q) = map_of (tr_peer_keys (ct_transport b')) (in_from p) \<and>
    map_of (tr_send_keys (ct_transport b')) (in_from p) \<noteq> None \<and>
    map_of (tr_send_keys (ct_transport b')) (in_from p) = map_of (tr_peer_keys (ct_transport a')) (in_from q)"
  using handshake_exchange [OF assms] by simp

section \<open>Bounds\<close>

definition control_bounded :: "control \<Rightarrow> bool" where
  "control_bounded c \<longleftrightarrow> wf_hm (ct_peers c) \<and> wf_hm (ct_watermark c) \<and> wf_hm (ct_sessions c) \<and>
     length (ct_peers c) \<le> PEER_MAP_SOFT_CAP \<and> length (ct_watermark c) \<le> Suc PEER_MAP_SOFT_CAP \<and>
     (\<forall>x. map_of (ct_watermark c) x = None \<longrightarrow> map_of (ct_sessions c) x = None)"

lemma wf_watermark_check: "wf_hm w \<Longrightarrow> wf_hm (fst (watermark_check k s w))"
  by (auto simp: watermark_check_def split: option.splits)

lemma length_watermark_check: "length (fst (watermark_check k s w)) \<le> Suc (length w)"
  by (auto simp: watermark_check_def length_hm_insert split: option.splits)

lemma dom_watermark_check: "dom (map_of (fst (watermark_check k s w))) = insert k (dom (map_of w))"
  by (auto simp: watermark_check_def split: option.splits)

lemma length_filter_keys:
  assumes "wf_hm m" "wf_hm p"
  shows "length (filter (\<lambda>(a, _). map_of p a \<noteq> None) m) \<le> length p"
proof -
  have "dom (map_of (filter (\<lambda>(a, _). map_of p a \<noteq> None) m)) \<subseteq> dom (map_of p)"
    by (auto simp: map_of_filter_key split: if_splits)
  then show ?thesis
    using assms by (simp add: length_hm_dom card_mono finite_dom_map_of)
qed

lemma prune_maps_bounded:
  assumes "control_bounded c"
  shows "control_bounded (prune_maps c)" "length (ct_watermark (prune_maps c)) \<le> PEER_MAP_SOFT_CAP"
proof -
  have "length (filter (\<lambda>(a, _). map_of (ct_peers c) a \<noteq> None) (ct_watermark c)) \<le> length (ct_peers c)"
    using assms by (intro length_filter_keys) (simp_all add: control_bounded_def)
  then show le: "length (ct_watermark (prune_maps c)) \<le> PEER_MAP_SOFT_CAP"
    using assms by (simp add: prune_maps_def control_bounded_def)
  with assms show "control_bounded (prune_maps c)"
    by (auto simp: control_bounded_def prune_maps_lookup) (auto simp: prune_maps_def)
qed

lemma make_peer_room_bound:
  assumes "wf_hm p" "length p \<le> PEER_MAP_SOFT_CAP"
  shows "wf_hm (make_peer_room a p)" "length (hm_insert a s (make_peer_room a p)) \<le> PEER_MAP_SOFT_CAP"
proof -
  show "wf_hm (make_peer_room a p)"
    using assms(1) by (auto simp: make_peer_room_def split: option.split)
  show "length (hm_insert a s (make_peer_room a p)) \<le> PEER_MAP_SOFT_CAP"
  proof (cases "map_of p a = None \<and> length p \<ge> PEER_MAP_SOFT_CAP")
    case True
    then obtain v w where m: "min_by_key (\<lambda>(_, s). ps_session_epoch s) p = Some (v, w)"
      by (cases "min_by_key (\<lambda>(_, s). ps_session_epoch s) p") (auto simp: PEER_MAP_SOFT_CAP_def)
    then have "map_of p v = Some w" using min_by_key_Some [OF m] by (simp add: map_of_set_iff assms(1))
    then have "length (hm_remove v p) < length p" by (rule length_hm_remove_less)
    with True m assms(2) show ?thesis by (simp add: make_peer_room_def length_hm_insert)
  qed (use assms(2) in \<open>auto simp: make_peer_room_def length_hm_insert\<close>)
qed

lemma admit_handshake_bounded:
  assumes "control_bounded c" "length (ct_watermark c) \<le> PEER_MAP_SOFT_CAP" "admit_handshake a ep seq c = (c', rebase, ok)"
  shows "control_bounded c'"
proof -
  have "length (hm_remove a (ct_watermark c)) \<le> length (ct_watermark c)" by (rule length_delete_le)
  moreover have "wf_hm (ct_watermark c)" "wf_hm (ct_sessions c)" "wf_hm (ct_peers c)" "length (ct_peers c) \<le> PEER_MAP_SOFT_CAP"
    "(\<forall>x. map_of (ct_watermark c) x = None \<longrightarrow> map_of (ct_sessions c) x = None)"
    using assms(1) by (simp_all add: control_bounded_def)
  ultimately show ?thesis
    using assms(2,3)
    by (auto simp: admit_handshake_def control_bounded_def watermark_check_def Let_def length_hm_insert
        split: option.splits if_splits)
qed

lemma on_handshake_bounded:
  assumes "control_bounded c" "length (ct_watermark c) \<le> PEER_MAP_SOFT_CAP" "on_handshake C J a seq ty payload c = (c', out)"
  shows "control_bounded c'"
  using assms(3)
proof (cases rule: on_handshake_cases)
  case (drop h rebase)
  then show ?thesis using admit_handshake_bounded [OF assms(1,2)] by blast
next
  case (ok h c1 rebase)
  have "control_bounded c1" using admit_handshake_bounded [OF assms(1,2) ok(2)] .
  then show ?thesis
    using make_peer_room_bound [of "ct_peers c1" a] ok(4) by (auto simp: control_bounded_def)
qed (use assms(1) in simp)

lemma on_other_bounded:
  assumes "control_bounded c" "length (ct_watermark c) \<le> PEER_MAP_SOFT_CAP" "on_other a seq ty payload c = (c', ev)"
  shows "control_bounded c'"
proof -
  have l: "length (hm_remove a m) \<le> length m" for m :: "(socket_addr, 'v) hashmap" by (rule length_delete_le)
  have "length (hm_remove a (ct_peers c)) \<le> PEER_MAP_SOFT_CAP"
    using l [of "ct_peers c"] assms(1) by (simp add: control_bounded_def)
  moreover have "length (hm_remove a (ct_watermark c)) \<le> Suc PEER_MAP_SOFT_CAP"
    using l [of "ct_watermark c"] assms(2) by simp
  moreover have "wf_hm (ct_watermark c)" "wf_hm (ct_sessions c)" "wf_hm (ct_peers c)" "length (ct_peers c) \<le> PEER_MAP_SOFT_CAP"
    "(\<forall>x. map_of (ct_watermark c) x = None \<longrightarrow> map_of (ct_sessions c) x = None)"
    using assms(1) by (simp_all add: control_bounded_def)
  ultimately show ?thesis
    using assms(2,3)
    by (auto simp: on_other_def control_bounded_def watermark_check_def Let_def length_hm_insert
        split: option.splits if_splits)
qed

lemma control_packet_bounded:
  assumes "control_bounded c" "control_packet C J p c = (c', out)"
  shows "control_bounded c'"
  using assms(2) prune_maps_bounded [OF assms(1)] on_handshake_bounded on_other_bounded
  by (cases rule: control_packet_cases) blast+

lemma control_bounded_new: "control_bounded (control_new sub cfg [] t)"
  by (simp add: control_bounded_def control_new_def)

section \<open>Limits of the replay protection\<close>

lemma control_packet_goodbye:
  assumes "control_packet C J p c = (c', out)" "co_event out = Some (EvGoodbye a)"
  shows "a = in_from p" "map_of (ct_sessions c') a = None" "ct_config c' = ct_config c"
proof -
  from assms(1) have "a = in_from p \<and> map_of (ct_sessions c') a = None \<and> ct_config c' = ct_config c"
  proof (cases rule: control_packet_cases)
    case (hs ty payload)
    then show ?thesis using on_handshake_mark(4) assms(2) by blast
  next
    case (other ty payload ev)
    then have "on_other (in_from p) (h_sequence (in_header p)) ty payload (prune_maps c) = (c', Some (EvGoodbye a))"
      using assms(2) by simp
    then show ?thesis
      by (auto simp: on_other_def Let_def split: prod.splits bool.splits if_splits)
  qed (use assms(2) in \<open>simp add: no_output_def\<close>)
  then show "a = in_from p" "map_of (ct_sessions c') a = None" "ct_config c' = ct_config c" by blast+
qed

text \<open>C34. A goodbye reopens the past: after a peer's GOODBYE was processed, any recorded HELLO from that
  address is accepted whatever its epoch and sequence number; the peer is registered again under that
  old epoch, its old session key is derived and installed, and the hubs are told to clear the peer's
  replay marks.\<close>

theorem goodbye_reopens_old_epochs:
  assumes "json_ok J" "control_packet C J p c = (c', out)" "co_event out = Some (EvGoodbye (in_from q))"
    "in_payload q = ob_plaintext (send_hello_full J old to host caps ciphers)" "ciphers \<noteq> []"
    "control_packet C J q c' = (c'', out')"
  shows "co_event out' = Some (EvHello (in_from q) host caps ciphers) \<and> co_rebase out' = Some (in_from q) \<and>
    map_option ps_session_epoch (map_of (ct_peers c'') (in_from q)) = Some old \<and>
    map_option fst (map_of (tr_peer_keys (ct_transport c'')) (in_from q)) =
      Some (derive_session_key C (cc_psk (ct_config c)) (select_cipher ciphers (cc_ciphers (ct_config c))) old)"
proof -
  note g = control_packet_goodbye [OF assms(2,3)]
  have "handshake_fresh (in_from q) old (h_sequence (in_header q)) c'"
    using g(2) by (simp add: handshake_fresh_def)
  from hello_received [OF assms(1,4,5) this assms(6)] g(2,3) show ?thesis
    by (simp add: session_key_def)
qed

text \<open>A HELLO as the flood below uses it: any host name, capabilities, epoch and (nonempty) cipher list.\<close>

definition is_hello :: "json_ops \<Rightarrow> inbound \<Rightarrow> bool" where
  "is_hello J p \<longleftrightarrow> (\<exists>ep to host caps ciphers. ciphers \<noteq> [] \<and>
     in_payload p = ob_plaintext (send_hello_full J ep to host caps ciphers))"

lemma control_packet_keys_grow:
  assumes "control_packet C J p c = (c', out)" "\<And>b. co_event out \<noteq> Some (EvGoodbye b)" "map_of (tr_peer_keys (ct_transport c)) a \<noteq> None"
  shows "map_of (tr_peer_keys (ct_transport c')) a \<noteq> None"
  using assms(1)
proof (cases rule: control_packet_cases)
  case (hs ty payload)
  then show ?thesis
  proof (cases rule: on_handshake_cases)
    case (drop h rebase)
    then show ?thesis using admit_handshake_mark(4) [OF drop(2)] assms(3) by simp
  next
    case (ok h c1 rebase)
    then show ?thesis
      using admit_handshake_mark(4) [OF ok(2)] assms(3)
      by (simp add: register_keys_def register_peer_key_def register_send_key_def Let_def)
  qed (use assms(3) in simp)
next
  case (other ty payload ev)
  then show ?thesis
    using assms(2,3) by (auto simp: on_other_def Let_def split: prod.splits bool.splits if_splits)
qed (use assms(3) in simp)

lemma hello_keeps_unknown:
  assumes "control_packet C J p c = (c', out)" "\<And>b. co_event out \<noteq> Some (EvGoodbye b)"
    "map_of (ct_sessions c) a = None" "a \<noteq> in_from p"
  shows "map_of (ct_sessions c') a = None"
proof (cases "control_forgets C J p c a")
  case True
  then have "map_of (ct_sessions (prune_maps c)) a = None"
    using assms(1,2) by (auto simp: control_forgets_def prune_maps_lookup)
  from assms(1) show ?thesis
  proof (cases rule: control_packet_cases)
    case (hs ty payload)
    then show ?thesis
      using on_handshake_mark(1) [OF hs assms(4)] assms(3) by (simp add: control_mark_def prune_maps_lookup)
  next
    case (other ty payload ev)
    then show ?thesis
      using on_other_mark(1) [OF other(1) assms(4)] assms(3) by (simp add: control_mark_def prune_maps_lookup)
  qed (use assms(3) in \<open>simp add: prune_maps_lookup\<close>)
next
  case False
  then show ?thesis
    using control_packet_mark(1) [OF assms(1) False assms(4)] assms(3) by (simp add: control_mark_def)
qed

text \<open>The cap on the registry does not cap the key tables: from any state, HELLOs from any number of
  distinct addresses not seen before each install a key that stays, while the registry itself never
  exceeds its cap.\<close>

theorem hello_flood_fills_key_tables:
  assumes "json_ok J" "control_bounded c" "distinct (map in_from ps)" "\<forall>p \<in> set ps. is_hello J p"
    "\<forall>p \<in> set ps. map_of (ct_sessions c) (in_from p) = None"
  shows "length (ct_peers (fold (control_next C J) ps c)) \<le> PEER_MAP_SOFT_CAP \<and>
    length ps \<le> card (dom (map_of (tr_peer_keys (ct_transport (fold (control_next C J) ps c)))))"
proof -
  have "control_bounded (fold (control_next C J) ps c) \<and>
    (\<forall>a. a \<in> in_from ` set ps \<or> map_of (tr_peer_keys (ct_transport c)) a \<noteq> None \<longrightarrow>
       map_of (tr_peer_keys (ct_transport (fold (control_next C J) ps c))) a \<noteq> None)"
    using assms(2-5)
  proof (induction ps arbitrary: c)
    case (Cons p ps)
    obtain c' out where step: "control_packet C J p c = (c', out)" by (rule prod.exhaust)
    obtain ep to host caps ciphers where h: "ciphers \<noteq> []" "in_payload p = ob_plaintext (send_hello_full J ep to host caps ciphers)"
      using Cons.prems(3) by (auto simp: is_hello_def)
    have f: "handshake_fresh (in_from p) ep (h_sequence (in_header p)) c"
      using Cons.prems(4) by (simp add: handshake_fresh_def)
    note r = hello_received [OF assms(1) h(2,1) f step]
    have "\<forall>q \<in> set ps. map_of (ct_sessions c') (in_from q) = None"
      using Cons.prems(2,4) r(1) by (auto intro!: hello_keeps_unknown [OF step] simp: rev_image_eqI)
    moreover have "distinct (map in_from ps)" "\<forall>q \<in> set ps. is_hello J q" using Cons.prems(2,3) by simp_all
    ultimately have IH: "control_bounded (fold (control_next C J) ps c')"
      "\<forall>a. a \<in> in_from ` set ps \<or> map_of (tr_peer_keys (ct_transport c')) a \<noteq> None \<longrightarrow>
         map_of (tr_peer_keys (ct_transport (fold (control_next C J) ps c'))) a \<noteq> None"
      using Cons.IH [OF control_packet_bounded [OF Cons.prems(1) step]] by blast+
    have "map_of (tr_peer_keys (ct_transport c')) a \<noteq> None"
      if "a = in_from p \<or> map_of (tr_peer_keys (ct_transport c)) a \<noteq> None" for a
      using that r(1,2) control_packet_keys_grow [OF step, of a] by auto
    then have "map_of (tr_peer_keys (ct_transport (fold (control_next C J) ps c'))) a \<noteq> None"
      if "a \<in> in_from ` set (p # ps) \<or> map_of (tr_peer_keys (ct_transport c)) a \<noteq> None" for a
      using that IH(2) by auto
    moreover have "fold (control_next C J) (p # ps) c = fold (control_next C J) ps c'"
      using step by (simp add: control_next_def [of C J p c])
    ultimately show ?case using IH(1) by (simp only:) blast
  qed simp
  then have "length (ct_peers (fold (control_next C J) ps c)) \<le> PEER_MAP_SOFT_CAP"
    "in_from ` set ps \<subseteq> dom (map_of (tr_peer_keys (ct_transport (fold (control_next C J) ps c))))"
    by (auto simp: control_bounded_def)
  moreover from this(2) have "card (in_from ` set ps) \<le> card (dom (map_of (tr_peer_keys (ct_transport (fold (control_next C J) ps c)))))"
    by (rule card_mono [OF finite_dom_map_of])
  moreover have "card (in_from ` set ps) = length ps"
    using assms(3) by (metis distinct_card length_map list.set_map)
  ultimately show ?thesis by simp
qed

section \<open>Witnesses\<close>

definition demo_control :: "u64 \<Rightarrow> control" where
  "demo_control ep = control_new 0 \<lparr>cc_psk = [1, 2], cc_session = ep, cc_hostname = ''h'', cc_capabilities = [],
     cc_ciphers = [''aes256-gcm'']\<rparr> [] (transport_bind (replicate 32 1) (replicate 16 7) (replicate 8 0))"

definition demo_packet :: "socket_addr \<Rightarrow> u64 \<Rightarrow> bytes \<Rightarrow> inbound" where
  "demo_packet a q payload = \<lparr>in_from = a, in_header = \<lparr>h_band_id = replicate 16 7, h_channel_type = Control,
     h_channel_id = 0, h_sequence = q\<rparr>, in_payload = payload\<rparr>"

definition demo_hello_packet :: "socket_addr \<Rightarrow> u64 \<Rightarrow> u64 \<Rightarrow> inbound" where
  "demo_hello_packet a q ep = demo_packet a q (ob_plaintext
     (send_hello_full demo_json ep (SocketAddrV4 9 9) ''a'' [] [''aes256-gcm'']))"

definition demo_goodbye_packet :: "socket_addr \<Rightarrow> u64 \<Rightarrow> inbound" where
  "demo_goodbye_packet a q = demo_packet a q (ob_plaintext (send_goodbye demo_json (SocketAddrV4 9 9)))"

lemma demo_hello_step:
  "control_packet C demo_json (demo_hello_packet a q ep) c =
     on_handshake C demo_json a q TYPE_HELLO (value_of (of_hello
       \<lparr>hl_hostname = ''a'', hl_capabilities = [], hl_ciphers = [''aes256-gcm''], hl_session = ep\<rparr>)) (prune_maps c)"
proof -
  have "in_from (demo_hello_packet a q ep) = a" "h_sequence (in_header (demo_hello_packet a q ep)) = q"
    by (simp_all add: demo_hello_packet_def demo_packet_def)
  moreover have "in_payload (demo_hello_packet a q ep) = js_print demo_json (of_envelope (TYPE_HELLO, value_of (of_hello
      \<lparr>hl_hostname = ''a'', hl_capabilities = [], hl_ciphers = [''aes256-gcm''], hl_session = ep\<rparr>)))"
    by (simp add: demo_hello_packet_def demo_packet_def send_hello_full_def send_typed_def control_outbound_def)
  ultimately show ?thesis using control_packet_envelope [OF demo_json_ok, of "demo_hello_packet a q ep"] by simp
qed

lemmas demo_eval = demo_hello_step on_handshake_def parse_hello_of admit_handshake_def watermark_check_def prune_maps_def
  PEER_MAP_SOFT_CAP_def demo_control_def control_new_def Let_def

lemma demo_types [simp]: "TYPE_GOODBYE \<noteq> TYPE_HELLO" "TYPE_GOODBYE \<noteq> TYPE_HELLO_ACK" "TYPE_GOODBYE \<noteq> TYPE_KEEPALIVE"
  by (simp_all add: TYPE_GOODBYE_def TYPE_HELLO_def TYPE_HELLO_ACK_def TYPE_KEEPALIVE_def)

lemma demo_goodbye_step:
  "control_packet C demo_json (demo_goodbye_packet a q) c =
     (let (c, ev) = on_other a q TYPE_GOODBYE (JObj []) (prune_maps c) in (c, no_output\<lparr>co_event := ev\<rparr>))"
proof -
  have "wf_json (of_envelope (TYPE_GOODBYE, JObj []))" by (simp add: wf_json_def of_envelope_def)
  then have "js_parse demo_json (in_payload (demo_goodbye_packet a q)) = Some (of_envelope (TYPE_GOODBYE, JObj []))"
    using json_ok_parse [OF demo_json_ok] by (simp add: demo_goodbye_packet_def demo_packet_def send_goodbye_def send_typed_def control_outbound_def)
  moreover have "in_from (demo_goodbye_packet a q) = a" "h_sequence (in_header (demo_goodbye_packet a q)) = q"
    by (simp_all add: demo_goodbye_packet_def demo_packet_def)
  ultimately show ?thesis by (simp add: control_packet_def Let_def)
qed


lemma demo_from [simp]: "in_from (demo_hello_packet a q ep) = a" "h_sequence (in_header (demo_hello_packet a q ep)) = q"
  by (simp_all add: demo_hello_packet_def demo_packet_def)


definition demo_b' :: "control \<times> control_output" where
  "demo_b' = control_packet demo_ops demo_json (demo_hello_packet (SocketAddrV4 1 1) 4 3) (demo_control 5)"

definition demo_a' :: "control \<times> control_output" where
  "demo_a' = control_packet demo_ops demo_json
     (demo_packet (SocketAddrV4 2 2) 6 (ob_plaintext (the (co_send (snd demo_b'))))) (demo_control 3)"

theorem handshake_keys_agree_witness:
  "map_of (tr_send_keys (ct_transport (fst demo_a'))) (SocketAddrV4 2 2) =
     map_of (tr_peer_keys (ct_transport (fst demo_b'))) (SocketAddrV4 1 1) \<and>
   map_of (tr_send_keys (ct_transport (fst demo_b'))) (SocketAddrV4 1 1) =
     map_of (tr_peer_keys (ct_transport (fst demo_a'))) (SocketAddrV4 2 2)"
proof -
  let ?p = "demo_hello_packet (SocketAddrV4 1 1) 4 3"
  let ?q = "demo_packet (SocketAddrV4 2 2) 6 (ob_plaintext (the (co_send (snd demo_b'))))"
  have s: "cc_session (ct_config (demo_control 3)) = 3" "in_from ?p = SocketAddrV4 1 1" "in_from ?q = SocketAddrV4 2 2"
    by (simp_all add: demo_control_def control_new_def demo_hello_packet_def demo_packet_def)
  have known: "\<forall>c \<in> set [''aes256-gcm'']. suite_from_id c \<noteq> None" by code_simp
  have p: "in_payload ?p = ob_plaintext (send_hello_full demo_json (cc_session (ct_config (demo_control 3))) (SocketAddrV4 9 9) ''a'' [] [''aes256-gcm''])"
    by (simp add: s demo_hello_packet_def demo_packet_def)
  have f: "handshake_fresh (in_from ?p) (cc_session (ct_config (demo_control 3))) (h_sequence (in_header ?p)) (demo_control 5)"
    "handshake_fresh (in_from ?q) (cc_session (ct_config (demo_control 5))) (h_sequence (in_header ?q)) (demo_control 3)"
    by (simp_all add: handshake_fresh_def demo_control_def control_new_def)
  have b': "control_packet demo_ops demo_json ?p (demo_control 5) = (fst demo_b', snd demo_b')"
    "control_packet demo_ops demo_json ?q (demo_control 3) = (fst demo_a', snd demo_a')" by (simp_all add: demo_b'_def demo_a'_def)
  have q: "in_payload ?q = ob_plaintext (the (co_send (snd demo_b')))" by (simp add: demo_packet_def)
  have psk: "cc_psk (ct_config (demo_control 3)) = cc_psk (ct_config (demo_control 5))"
    by (simp add: demo_control_def control_new_def)
  from handshake_keys_agree [OF demo_json_ok psk _ known p f(1) b'(1) q f(2) b'(2)] show ?thesis
    by (simp only: s) simp
qed

definition demo_after_goodbye :: control where
  "demo_after_goodbye = fst (control_packet demo_ops demo_json (demo_goodbye_packet (SocketAddrV4 1 1) 11)
     (fst (control_packet demo_ops demo_json (demo_hello_packet (SocketAddrV4 1 1) 10 8) (demo_control 5))))"

theorem goodbye_reopens_old_epochs_witness:
  "map_option ps_session_epoch (map_of (ct_peers (fst (control_packet demo_ops demo_json
      (demo_hello_packet (SocketAddrV4 1 1) 2 3) demo_after_goodbye))) (SocketAddrV4 1 1)) = Some 3"
proof -
  let ?c = "fst (control_packet demo_ops demo_json (demo_hello_packet (SocketAddrV4 1 1) 10 8) (demo_control 5))"
  let ?g = "demo_goodbye_packet (SocketAddrV4 1 1) 11" and ?q = "demo_hello_packet (SocketAddrV4 1 1) 2 3"
  have "co_event (snd (control_packet demo_ops demo_json ?g ?c)) = Some (EvGoodbye (in_from ?q))"
    by (simp add: demo_goodbye_step on_other_def demo_types no_output_def demo_eval)
  moreover have "in_payload ?q = ob_plaintext (send_hello_full demo_json 3 (SocketAddrV4 9 9) ''a'' [] [''aes256-gcm''])"
    by (simp add: demo_hello_packet_def demo_packet_def)
  moreover have "in_from ?q = SocketAddrV4 1 1" by (simp add: demo_hello_packet_def demo_packet_def)
  ultimately show ?thesis
    using goodbye_reopens_old_epochs [OF demo_json_ok surjective_pairing, of demo_ops ?g ?c ?q 3 "SocketAddrV4 9 9" "''a''" "[]"
        "[''aes256-gcm'']"]
    by (simp add: demo_after_goodbye_def prod_eq_iff)
qed

theorem hello_flood_fills_key_tables_witness:
  "2 \<le> card (dom (map_of (tr_peer_keys (ct_transport (fold (control_next demo_ops demo_json)
     [demo_hello_packet (SocketAddrV4 1 1) 10 8, demo_hello_packet (SocketAddrV4 2 1) 10 8] (demo_control 5))))))"
proof -
  let ?ps = "[demo_hello_packet (SocketAddrV4 1 1) 10 8, demo_hello_packet (SocketAddrV4 2 1) 10 8]"
  have "is_hello demo_json (demo_hello_packet a q ep)" for a q ep
  proof -
    have "[''aes256-gcm''] \<noteq> [] \<and> in_payload (demo_hello_packet a q ep) =
      ob_plaintext (send_hello_full demo_json ep (SocketAddrV4 9 9) ''a'' [] [''aes256-gcm''])"
      by (simp add: demo_hello_packet_def demo_packet_def)
    then show ?thesis unfolding is_hello_def by blast
  qed
  then have "\<forall>p \<in> set ?ps. is_hello demo_json p" by simp
  moreover have "distinct (map in_from ?ps)" by simp
  moreover have "\<forall>p \<in> set ?ps. map_of (ct_sessions (demo_control 5)) (in_from p) = None"
    by (simp add: demo_control_def control_new_def)
  moreover have "control_bounded (demo_control 5)" unfolding demo_control_def by (rule control_bounded_new)
  ultimately show ?thesis
    using hello_flood_fills_key_tables [OF demo_json_ok, of "demo_control 5" ?ps demo_ops] by simp
qed

end
