(* ===== verification/Streams.thy ===== *)
theory Streams
  imports Transport Codec
begin

text \<open>
  The Stream channel: \<open>rust/telesthete/src/stream.rs\<close> (fire-and-forget datagrams, of which only
  the freshest are delivered) and \<open>rust/telesthete/src/wire/stream.rs\<close> (the eight-byte header of a
  video packet).
\<close>

section \<open>The stream payload header\<close>

definition STREAM_HEADER_LEN :: nat where "STREAM_HEADER_LEN = 8"

definition INIT :: u8 where "INIT = 0x01"
definition KEYFRAME :: u8 where "KEYFRAME = 0x02"
definition END_FRAME :: u8 where "END_FRAME = 0x04"
definition FRAGMENT_CONT :: u8 where "FRAGMENT_CONT = 0x08"
definition DMABUF :: u8 where "DMABUF = 0x10"
definition WITH_FENCE :: u8 where "WITH_FENCE = 0x20"
definition REUSE :: u8 where "REUSE = 0x40"
definition EXTENDED :: u8 where "EXTENDED = 0x80"

unbundle bit_operations_syntax

definition stream_flags_all :: u8 where
  "stream_flags_all = fold (OR) [INIT, KEYFRAME, END_FRAME, FRAGMENT_CONT, DMABUF, WITH_FENCE, REUSE, EXTENDED] 0"

definition stream_flags_from_bits :: "u8 \<Rightarrow> u8 option" where
  "stream_flags_from_bits b = (if b AND NOT stream_flags_all = 0 then Some b else None)"

record stream_header =
  sh_flags :: u8
  sh_frame_id :: u32

datatype stream_header_error = StreamTooShort nat | StreamReservedNonzero | StreamUnknownFlags u8

definition stream_header_write :: "stream_header \<Rightarrow> bytes \<Rightarrow> stream_header_error + bytes \<times> nat" where
  "stream_header_write h out =
     (if length out < STREAM_HEADER_LEN then Inl (StreamTooShort (length out))
      else Inr ([sh_flags h, 0, 0, 0] @ to_be 4 (sh_frame_id h) @ drop 8 out, STREAM_HEADER_LEN))"

definition stream_header_parse :: "bytes \<Rightarrow> stream_header_error + stream_header \<times> bytes" where
  "stream_header_parse input =
     (if length input < STREAM_HEADER_LEN then Inl (StreamTooShort (length input))
      else case stream_flags_from_bits (input ! 0) of
             None \<Rightarrow> Inl (StreamUnknownFlags (input ! 0))
           | Some flags \<Rightarrow>
               if input ! 1 \<noteq> 0 \<or> input ! 2 \<noteq> 0 \<or> input ! 3 \<noteq> 0 then Inl StreamReservedNonzero
               else Inr (\<lparr>sh_flags = flags, sh_frame_id = from_be (slice_of 4 8 input)\<rparr>,
                         drop STREAM_HEADER_LEN input))"

section \<open>Endpoint and hub\<close>

record stream_message =
  sm_from :: socket_addr
  sm_stream_id :: u16
  sm_priority :: u8
  sm_data :: bytes

definition stream_outbound :: "socket_addr \<Rightarrow> u16 \<Rightarrow> u8 \<Rightarrow> bytes \<Rightarrow> outbound" where
  "stream_outbound peer sid priority data =
     \<lparr>ob_to = peer, ob_channel_type = Stream, ob_channel_id = sid, ob_plaintext = priority # data,
      ob_priority = priority, ob_use_base_key = False\<rparr>"

definition stream_send ::
  "crypto_ops \<Rightarrow> bool \<Rightarrow> socket_addr \<Rightarrow> u16 \<Rightarrow> u8 \<Rightarrow> bytes \<Rightarrow> transport \<Rightarrow>
     transport \<times> (transport_error + socket_addr \<times> bytes)" where
  "stream_send C io_ok peer sid priority data t =
     transport_send C io_ok (stream_outbound peer sid priority data) t"

type_synonym stream_key = "socket_addr \<times> u16"

definition handle_stream_inbound ::
  "inbound \<Rightarrow> (stream_key, u64) hashmap \<Rightarrow> (stream_key, u64) hashmap \<times> stream_message option" where
  "handle_stream_inbound p wm =
     (case in_payload p of
        [] \<Rightarrow> (wm, None)
      | priority # data \<Rightarrow>
          (case watermark_check (in_from p, h_channel_id (in_header p)) (h_sequence (in_header p)) wm of
             (wm, False) \<Rightarrow> (wm, None)
           | (wm, True) \<Rightarrow> (wm, Some \<lparr>sm_from = in_from p, sm_stream_id = h_channel_id (in_header p),
                                     sm_priority = priority, sm_data = data\<rparr>)))"

record stream_hub =
  st_senders :: "(u16, nat) hashmap"
  st_watermarks :: "(stream_key, u64) hashmap"

text \<open>What wakes the demultiplexing task: a packet, a restarted peer, or lost restart signals.\<close>

datatype stream_event = StreamPacket inbound | StreamRebase socket_addr | StreamLagged

definition stream_hub_new :: stream_hub where
  "stream_hub_new = \<lparr>st_senders = [], st_watermarks = []\<rparr>"

fun stream_hub_step :: "stream_event \<Rightarrow> stream_hub \<Rightarrow> stream_hub \<times> (nat \<times> stream_message) option" where
  "stream_hub_step (StreamPacket p) h =
     (let (wm, msg) = handle_stream_inbound p (st_watermarks h); h = h\<lparr>st_watermarks := wm\<rparr>
      in (h, Option.bind msg (\<lambda>m.
               map_option (\<lambda>tx. (tx, m)) (map_of (st_senders h) (h_channel_id (in_header p))))))"
| "stream_hub_step (StreamRebase addr) h =
     (h\<lparr>st_watermarks := watermark_clear (\<lambda>(a, _). a = addr) (st_watermarks h)\<rparr>, None)"
| "stream_hub_step StreamLagged h = (h, None)"

definition stream_hub_open :: "u16 \<Rightarrow> nat \<Rightarrow> stream_hub \<Rightarrow> stream_hub" where
  "stream_hub_open sid tx h = h\<lparr>st_senders := hm_insert sid tx (st_senders h)\<rparr>"

section \<open>The header is an exact code\<close>

lemma stream_flags_total [simp]: "stream_flags_from_bits b = Some b"
proof -
  have "NOT stream_flags_all = 0" by code_simp
  then show ?thesis unfolding stream_flags_from_bits_def by (simp only:) simp
qed

definition stream_packet_bytes :: "stream_header \<times> bytes \<Rightarrow> bytes" where
  "stream_packet_bytes hn = (case stream_header_write (fst hn) (replicate 8 0 @ snd hn) of
     Inr (out, _) \<Rightarrow> out | Inl _ \<Rightarrow> [])"

lemma stream_packet_bytes_eq:
  "stream_packet_bytes (h, nal) = [sh_flags h, 0, 0, 0] @ to_be 4 (sh_frame_id h) @ nal"
  by (simp add: stream_packet_bytes_def stream_header_write_def STREAM_HEADER_LEN_def)

lemma stream_header_parse_bytes: "stream_header_parse (stream_packet_bytes (h, nal)) = Inr (h, nal)"
  by (simp add: stream_packet_bytes_eq stream_header_parse_def STREAM_HEADER_LEN_def slice_of_def)

lemma stream_header_parse_exact:
  assumes "stream_header_parse bs = Inr (h, nal)"
  shows "stream_packet_bytes (h, nal) = bs"
proof -
  from assms have len: "8 \<le> length bs" and z: "bs ! 1 = 0" "bs ! 2 = 0" "bs ! 3 = 0"
    and h: "h = \<lparr>sh_flags = bs ! 0, sh_frame_id = from_be (slice_of 4 8 bs)\<rparr>" "nal = drop 8 bs"
    by (auto simp: stream_header_parse_def STREAM_HEADER_LEN_def split: if_splits)
  from len obtain a b c d rest where bs: "bs = [a, b, c, d] @ rest" and r: "4 \<le> length rest"
    by (auto simp: numeral_eq_Suc Suc_le_length_iff)
  have "to_be 4 (from_be (take 4 rest) :: u32) = take 4 rest"
    using r by (intro to_be_from_be) simp_all
  with z h bs r show ?thesis
    by (simp add: stream_packet_bytes_eq slice_of_def)
qed

interpretation shd: exact_codec stream_packet_bytes "result_ok \<circ> stream_header_parse" "\<lambda>_. True"
  by unfold_locales (auto simp: result_ok_Some stream_header_parse_bytes stream_header_parse_exact)

text \<open>The stream header is an exact code: a payload parses to a header and NAL data exactly when
  it is what \<open>write\<close> puts in front of that data, so every one of the 256 flag bytes survives the
  round trip and no payload with nonzero reserved bytes parses.\<close>

theorem stream_header_exact:
  "stream_header_parse bs = Inr (h, nal) \<longleftrightarrow>
     stream_header_write h (replicate STREAM_HEADER_LEN 0 @ nal) = Inr (bs, STREAM_HEADER_LEN)"
  using shd.decode_iff [of bs "(h, nal)"]
  by (auto simp: result_ok_Some stream_packet_bytes_def stream_header_write_def STREAM_HEADER_LEN_def)

section \<open>Freshest data\<close>

definition stream_next :: "stream_event \<Rightarrow> stream_hub \<Rightarrow> stream_hub" where
  "stream_next e h = fst (stream_hub_step e h)"

definition stream_mark :: "stream_hub \<Rightarrow> stream_key \<Rightarrow> u64 option" where
  "stream_mark h = map_of (st_watermarks h)"

definition stream_acts :: "stream_event \<Rightarrow> stream_hub \<Rightarrow> bool" where
  "stream_acts e h = (snd (stream_hub_step e h) \<noteq> None)"

fun stream_stamp :: "stream_event \<Rightarrow> stream_key \<times> u64" where
  "stream_stamp (StreamPacket p) = ((in_from p, h_channel_id (in_header p)), h_sequence (in_header p))"
| "stream_stamp _ = undefined"

fun stream_clears :: "stream_event \<Rightarrow> stream_key \<Rightarrow> bool" where
  "stream_clears (StreamRebase a) k = (fst k = a)"
| "stream_clears _ k = False"

lemma handle_stream_inbound_mark:
  "map_of (fst (handle_stream_inbound p wm)) k =
     (if snd (handle_stream_inbound p wm) \<noteq> None \<and> k = (in_from p, h_channel_id (in_header p))
      then Some (h_sequence (in_header p)) else map_of wm k)"
  by (auto simp: handle_stream_inbound_def watermark_check_def split: list.split option.splits)

lemma handle_stream_inbound_fresh:
  "snd (handle_stream_inbound p wm) \<noteq> None \<Longrightarrow>
     map_of wm (in_from p, h_channel_id (in_header p)) = Some q \<Longrightarrow> q < h_sequence (in_header p)"
  by (auto simp: handle_stream_inbound_def watermark_check_def split: list.splits if_splits)

interpretation stm: fresh_receiver stream_mark stream_next
  stream_acts "\<lambda>e _. stream_stamp e" "\<lambda>e _. stream_clears e"
proof
  fix e q p and s :: stream_hub and k
  assume act: "stream_acts e s" "stream_stamp e = (k, q)"
  then obtain i where e: "e = StreamPacket i" and m: "snd (handle_stream_inbound i (st_watermarks s)) \<noteq> None"
    by (cases e) (auto simp: stream_acts_def bind_eq_Some_conv split: prod.splits)
  show "stream_mark s k = Some p \<Longrightarrow> p < q"
    using handle_stream_inbound_fresh [OF m] act(2) e by (auto simp: stream_mark_def)
  show "stream_mark (stream_next e s) k = Some q"
    using handle_stream_inbound_mark [of i "st_watermarks s" k] m act(2) e by (auto simp: stream_mark_def stream_next_def split: prod.splits)
next
  fix e k p and s :: stream_hub
  assume "\<not> stream_clears e k" "stream_mark s k = Some p"
  then show "\<exists>p'. stream_mark (stream_next e s) k = Some p' \<and> p \<le> p'"
    using handle_stream_inbound_fresh [of _ "st_watermarks s" p] handle_stream_inbound_mark [of _ "st_watermarks s" k]
    by (cases e) (auto simp: stream_mark_def stream_next_def map_of_watermark_clear Let_def case_prod_beta less_imp_le split: prod.split)
qed

fun stream_run :: "stream_event list \<Rightarrow> stream_hub \<Rightarrow> (u64 \<times> nat \<times> stream_message) list" where
  "stream_run [] h = []"
| "stream_run (e # es) h = (let (h1, out) = stream_hub_step e h in
     (case out of None \<Rightarrow> [] | Some d \<Rightarrow> [(snd (stream_stamp e), d)]) @ stream_run es h1)"

lemma stream_step_Some:
  assumes "snd (stream_hub_step e h) = Some (tx, m)"
  obtains p where "e = StreamPacket p" "in_payload p = sm_priority m # sm_data m"
    "sm_from m = in_from p" "sm_stream_id m = h_channel_id (in_header p)"
    "map_of (st_senders h) (sm_stream_id m) = Some tx"
proof (cases e)
  case (StreamPacket p)
  with assms have "snd (handle_stream_inbound p (st_watermarks h)) = Some m"
    "map_of (st_senders h) (h_channel_id (in_header p)) = Some tx"
    by (auto simp: bind_eq_Some_conv split: prod.splits)
  with StreamPacket show ?thesis
    by (intro that) (auto simp: handle_stream_inbound_def split: list.splits prod.splits bool.splits)
qed (use assms in auto)

lemma stream_run_Cons:
  "stream_run (e # es) h = (case snd (stream_hub_step e h) of None \<Rightarrow> [] | Some d \<Rightarrow> [(snd (stream_stamp e), d)])
     @ stream_run es (stream_next e h)"
  by (simp add: stream_next_def Let_def split: prod.split)

lemma stream_run_acted:
  "map (\<lambda>(q, _, m). ((sm_from m, sm_stream_id m), q)) (stream_run es h) = stm.acted es h"
proof (induction es arbitrary: h)
  case (Cons e es)
  show ?case
  proof (cases "snd (stream_hub_step e h)")
    case None
    then have "\<not> stream_acts e h" by (simp add: stream_acts_def)
    with None Cons.IH [of "stream_next e h"] show ?thesis
      by (simp add: stream_run_Cons del: stream_run.simps)
  next
    case (Some d)
    obtain tx m where d: "d = (tx, m)" by (cases d)
    from Some d obtain p where "e = StreamPacket p" "sm_from m = in_from p"
      "sm_stream_id m = h_channel_id (in_header p)" by (auto elim: stream_step_Some)
    moreover have "stream_acts e h" using Some by (simp add: stream_acts_def)
    ultimately show ?thesis
      using Some d Cons.IH [of "stream_next e h"]
      by (simp add: stream_run_Cons del: stream_hub_step.simps stream_run.simps)
  qed
qed simp

text \<open>C25. Only the freshest data is delivered: over any sequence of packets and restarts in which the
  peer itself does not restart, the messages the hub delivers from that peer on one stream carry
  strictly increasing packet sequences, so a replayed, duplicated or overtaken packet never reaches
  the application, whatever the other peers and streams do.\<close>

theorem stream_delivers_freshest:
  assumes "StreamRebase peer \<notin> set es"
  shows "sorted_wrt (<) [q. (q, _, m) \<leftarrow> stream_run es h, sm_from m = peer \<and> sm_stream_id m = sid]"
proof -
  have eq: "[q. (q, _, m) \<leftarrow> ds, sm_from m = peer \<and> sm_stream_id m = sid] =
    map snd (filter (\<lambda>x. fst x = (peer, sid)) (map (\<lambda>(q, _, m). ((sm_from m, sm_stream_id m), q)) ds))"
    for ds :: "(u64 \<times> nat \<times> stream_message) list"
    by (induction ds) auto
  have "\<not> stream_clears e (peer, sid)" if "e \<in> set es" for e
    using assms that by (cases e) auto
  then show ?thesis
    using stm.acted_increasing [OF stm.undisturbed_if_never, of es "(peer, sid)" h]
    by (simp add: eq stream_run_acted stm.acted_on_def)
qed

text \<open>A stream message arrives as it was sent: when the receiver holds the sender's key and the
  stream's subscriber is open, \<open>send\<close>, the datagram, the receive loop and the hub together deliver
  the same priority and data, provided the packet is above the stream's mark.\<close>

theorem stream_send_delivers:
  assumes "crypto_ok C" "length (tr_band_id a) = BAND_ID_LEN" "tr_band_id b = tr_band_id a"
    "case map_of (tr_peer_keys b) src of Some ks \<Rightarrow> ks = send_key_for (stream_outbound peer sid priority data) a
      | None \<Rightarrow> (tr_base_key b, ChaCha20Poly1305) = send_key_for (stream_outbound peer sid priority data) a"
    "stream_send C True peer sid priority data a = (a', Inr (dest, pkt))"
    "map_of (tr_routes b) Stream = Some sub"
    "map_of (st_senders h) sid = Some tx"
    "case map_of (st_watermarks h) (src, sid) of None \<Rightarrow> True | Some q \<Rightarrow> q < tr_seq a"
  shows "\<exists>p. snd (transport_recv C now src pkt b) = Some (sub, p) \<and>
    snd (stream_hub_step (StreamPacket p) h) =
      Some (tx, \<lparr>sm_from = src, sm_stream_id = sid, sm_priority = priority, sm_data = data\<rparr>)"
proof -
  have "snd (transport_recv C now src pkt b) = Some (sub, \<lparr>in_from = src,
      in_header = \<lparr>h_band_id = tr_band_id b, h_channel_type = Stream, h_channel_id = sid, h_sequence = tr_seq a\<rparr>,
      in_payload = priority # data\<rparr>)"
    using send_recv [OF assms(1-4) assms(5) [unfolded stream_send_def], of sub now] assms(6)
    by (simp add: stream_outbound_def)
  moreover have "snd (watermark_check (src, sid) (tr_seq a) (st_watermarks h))"
    using assms(8) by (simp add: watermark_check_iff)
  ultimately show ?thesis
    using assms(7) by (auto simp: handle_stream_inbound_def split: prod.splits)
qed

section \<open>Witnesses\<close>

definition demo_stream_packet :: "u64 \<Rightarrow> u8 \<Rightarrow> stream_event" where
  "demo_stream_packet q x = StreamPacket \<lparr>in_from = SocketAddrV4 2 6000,
     in_header = \<lparr>h_band_id = replicate 16 7, h_channel_type = Stream, h_channel_id = 9, h_sequence = q\<rparr>,
     in_payload = [1, x]\<rparr>"

definition demo_stream_events :: "stream_event list" where
  "demo_stream_events = [demo_stream_packet 5 10, StreamRebase (SocketAddrV4 3 1), demo_stream_packet 5 11,
     demo_stream_packet 8 12, demo_stream_packet 7 13, demo_stream_packet 9 14]"

theorem stream_delivers_freshest_witness:
  "[q. (q, _, m) \<leftarrow> stream_run demo_stream_events (stream_hub_open 9 4 stream_hub_new),
      sm_from m = SocketAddrV4 2 6000 \<and> sm_stream_id m = 9] = [5, 8, 9] \<and>
   sorted_wrt (<) [q. (q, _, m) \<leftarrow> stream_run demo_stream_events (stream_hub_open 9 4 stream_hub_new),
      sm_from m = SocketAddrV4 2 6000 \<and> sm_stream_id m = 9]"
proof
  show "sorted_wrt (<) [q. (q, _, m) \<leftarrow> stream_run demo_stream_events (stream_hub_open 9 4 stream_hub_new),
      sm_from m = SocketAddrV4 2 6000 \<and> sm_stream_id m = 9]"
    by (rule stream_delivers_freshest) code_simp
qed code_simp

theorem stream_send_delivers_witness:
  "\<exists>p. snd (transport_recv demo_ops 5 (SocketAddrV4 2 6000) demo_datagram demo_transport) = Some (3, p) \<and>
     snd (stream_hub_step (StreamPacket p) (stream_hub_open 9 4 stream_hub_new)) =
       Some (4, \<lparr>sm_from = SocketAddrV4 2 6000, sm_stream_id = 9, sm_priority = 1, sm_data = [2]\<rparr>)"
  by (rule stream_send_delivers [OF demo_ops_ok, where a = demo_transport and peer = "SocketAddrV4 1 5000"
        and a' = "demo_transport\<lparr>tr_seq := 1\<rparr>" and dest = "SocketAddrV4 1 5000"]; code_simp)

end
