(* ===== verification/Fragment.thy ===== *)
theory Fragment
  imports Codec
begin

text \<open>
  \<open>rust/telesthete/src/wire/fragment.rs\<close>: the fragmentation envelope (chunk header and data), the
  splitter \<open>fragment\<close> and the bounded \<open>Reassembler\<close>. Byte counts (\<open>usize\<close>) are natural numbers;
  the operations that saturate say so. The clock reading of \<open>feed\<close> is an argument. The two
  assertions of \<open>fragment\<close> panic, which is \<open>None\<close> here.
\<close>

section \<open>Chunks\<close>

definition VERSION :: u8 where "VERSION = 0x01"
definition FRAG_HEADER_LEN :: nat where "FRAG_HEADER_LEN = 21"
definition MAX_CHANNEL_DATA :: nat where "MAX_CHANNEL_DATA = 1024"
definition MAX_CHUNK_PAYLOAD :: nat where "MAX_CHUNK_PAYLOAD = MAX_CHANNEL_DATA - FRAG_HEADER_LEN"

type_synonym fragment_id = bytes

record chunk =
  c_fragment_id :: fragment_id
  c_seq :: u16
  c_total :: u16
  c_data :: bytes

definition pack_chunk :: "fragment_id \<Rightarrow> u16 \<Rightarrow> u16 \<Rightarrow> bytes \<Rightarrow> bytes" where
  "pack_chunk fid seq tot data = [VERSION] @ fid @ to_be 2 seq @ to_be 2 tot @ data"

definition parse_chunk :: "bytes \<Rightarrow> chunk option" where
  "parse_chunk b =
     (if length b < FRAG_HEADER_LEN \<or> b ! 0 \<noteq> VERSION then None
      else let fid = slice_of 1 17 b;
               seq = from_be (slice_of 17 19 b);
               tot = from_be (slice_of 19 21 b)
           in if tot = 0 \<or> seq \<ge> tot then None
              else Some \<lparr>c_fragment_id = fid, c_seq = seq, c_total = tot,
                         c_data = drop FRAG_HEADER_LEN b\<rparr>)"

definition fragment :: "bytes \<Rightarrow> nat \<Rightarrow> fragment_id \<Rightarrow> bytes list option" where
  "fragment payload chunk_size fid =
     (if chunk_size = 0 then None
      else if payload = [] then Some [pack_chunk fid 0 1 []]
      else let pieces = chunks chunk_size payload in
           if length pieces > 0xFFFF then None
           else Some (map (\<lambda>(seq, piece). pack_chunk fid (of_nat seq) (of_nat (length pieces)) piece)
                        (enumerate 0 pieces)))"

section \<open>The reassembler\<close>

definition DEFAULT_REASSEMBLY_TIMEOUT :: duration where "DEFAULT_REASSEMBLY_TIMEOUT = 30000"
definition DEFAULT_BUFFER_LIMIT :: nat where "DEFAULT_BUFFER_LIMIT = 256"
definition DEFAULT_MAX_FRAGMENTS :: u16 where "DEFAULT_MAX_FRAGMENTS = 16384"
definition WIRE_MAX_FRAGMENTS :: u16 where "WIRE_MAX_FRAGMENTS = 0xFFFF"
definition LIBRARY_MAX_BUFFERED_BYTES :: nat where "LIBRARY_MAX_BUFFERED_BYTES = 64 * 1024 * 1024"
definition DEFAULT_EVICTED_MEMORY :: nat where "DEFAULT_EVICTED_MEMORY = 1024"

record partial =
  p_total :: u16
  p_parts :: "(u16, bytes) hashmap"
  p_size :: nat
  p_first_seen :: instant
  p_order :: u64

record reassembler =
  r_buffers :: "(fragment_id, partial) hashmap"
  r_limit :: nat
  r_max_fragments :: u16
  r_max_chunk_payload :: nat
  r_max_buffered_bytes :: "nat option"
  r_timeout :: duration
  r_bytes :: nat
  r_evicted :: "(fragment_id, instant) hashmap"
  r_evicted_order :: "(fragment_id \<times> instant) list"
  r_next_order :: u64

definition reassembler_new :: reassembler where
  "reassembler_new = \<lparr>r_buffers = [], r_limit = DEFAULT_BUFFER_LIMIT,
     r_max_fragments = DEFAULT_MAX_FRAGMENTS, r_max_chunk_payload = MAX_CHUNK_PAYLOAD,
     r_max_buffered_bytes = None, r_timeout = DEFAULT_REASSEMBLY_TIMEOUT, r_bytes = 0,
     r_evicted = [], r_evicted_order = [], r_next_order = 0\<rparr>"

definition with_buffer_limit :: "nat \<Rightarrow> reassembler \<Rightarrow> reassembler" where
  "with_buffer_limit limit r = r\<lparr>r_limit := max limit 1\<rparr>"

definition with_max_fragments :: "u16 \<Rightarrow> reassembler \<Rightarrow> reassembler" where
  "with_max_fragments m r = r\<lparr>r_max_fragments := max m 1\<rparr>"

definition with_max_chunk_payload :: "nat \<Rightarrow> reassembler \<Rightarrow> reassembler" where
  "with_max_chunk_payload m r = r\<lparr>r_max_chunk_payload := max m 1\<rparr>"

definition with_max_buffered_bytes :: "nat option \<Rightarrow> reassembler \<Rightarrow> reassembler" where
  "with_max_buffered_bytes m r = r\<lparr>r_max_buffered_bytes := m\<rparr>"

definition with_timeout :: "duration \<Rightarrow> reassembler \<Rightarrow> reassembler" where
  "with_timeout t r = r\<lparr>r_timeout := t\<rparr>"

definition usize_saturating_mul :: "nat \<Rightarrow> nat \<Rightarrow> nat" where
  "usize_saturating_mul a b = min (a * b) (2 ^ 64 - 1)"

definition for_chunk_size :: "nat \<Rightarrow> reassembler" where
  "for_chunk_size chunk_size =
     (let chunk_size = max chunk_size 1 in
      with_max_buffered_bytes
        (Some (max LIBRARY_MAX_BUFFERED_BYTES
                 (usize_saturating_mul chunk_size (unat WIRE_MAX_FRAGMENTS))))
        (with_max_fragments WIRE_MAX_FRAGMENTS
          (with_max_chunk_payload chunk_size reassembler_new)))"

definition buffered_bytes :: "reassembler \<Rightarrow> nat" where
  "buffered_bytes r = r_bytes r"

definition pending :: "reassembler \<Rightarrow> nat" where
  "pending r = length (r_buffers r)"

definition oldest :: "fragment_id option \<Rightarrow> reassembler \<Rightarrow> fragment_id option" where
  "oldest exclude r =
     map_option fst (min_by_key (p_order \<circ> snd)
       (filter (\<lambda>(k, _). Some k \<noteq> exclude) (r_buffers r)))"

definition drop_partial :: "fragment_id \<Rightarrow> reassembler \<Rightarrow> reassembler" where
  "drop_partial fid r = (case map_of (r_buffers r) fid of
     None \<Rightarrow> r
   | Some p \<Rightarrow> r\<lparr>r_buffers := hm_remove fid (r_buffers r), r_bytes := r_bytes r - p_size p\<rparr>)"

text \<open>The loop of \<open>evict\<close> that forgets the oldest remembered ids.\<close>

fun trim_evicted ::
  "(fragment_id, instant) hashmap \<Rightarrow> (fragment_id \<times> instant) list \<Rightarrow>
   (fragment_id, instant) hashmap \<times> (fragment_id \<times> instant) list" where
  "trim_evicted ev [] = (ev, [])"
| "trim_evicted ev ((old, at) # ord) =
     (if \<not> (length ev > DEFAULT_EVICTED_MEMORY) then (ev, (old, at) # ord)
      else trim_evicted (if map_of ev old = Some at then hm_remove old ev else ev) ord)"

definition evict :: "fragment_id \<Rightarrow> instant \<Rightarrow> reassembler \<Rightarrow> reassembler" where
  "evict fid now r =
     (let r = drop_partial fid r;
          ev = hm_insert fid now (r_evicted r);
          ord = r_evicted_order r @ [(fid, now)];
          (ev, ord) = trim_evicted ev ord
      in r\<lparr>r_evicted := ev, r_evicted_order := ord\<rparr>)"

text \<open>The loop of \<open>gc\<close> over the front of the eviction queue.\<close>

fun expire_evicted ::
  "instant \<Rightarrow> duration \<Rightarrow> (fragment_id, instant) hashmap \<Rightarrow> (fragment_id \<times> instant) list \<Rightarrow>
   (fragment_id, instant) hashmap \<times> (fragment_id \<times> instant) list" where
  "expire_evicted now timeout ev [] = (ev, [])"
| "expire_evicted now timeout ev ((fid, at) # ord) =
     (if \<not> (now - at > timeout) then (ev, (fid, at) # ord)
      else expire_evicted now timeout
             (if map_of ev fid = Some at then hm_remove fid ev else ev) ord)"

definition gc :: "instant \<Rightarrow> reassembler \<Rightarrow> reassembler" where
  "gc now r =
     (let (ev, ord) = expire_evicted now (r_timeout r) (r_evicted r) (r_evicted_order r);
          r = r\<lparr>r_evicted := ev, r_evicted_order := ord\<rparr>
      in if r_buffers r = [] then r
         else fold drop_partial
                (map fst (filter (\<lambda>(_, p). now - p_first_seen p > r_timeout r) (r_buffers r))) r)"

text \<open>The budget loop of \<open>feed\<close>: evict the oldest other partials until \<open>n\<close> more bytes fit. The flag
  is \<open>False\<close> when only this message is left and it still does not fit; it is then evicted too.\<close>

function make_room ::
  "fragment_id \<Rightarrow> nat \<Rightarrow> nat \<Rightarrow> instant \<Rightarrow> reassembler \<Rightarrow> reassembler \<times> bool" where
  "make_room fid n cap now r =
     (if r_bytes r + n > cap then
        (case oldest (Some fid) r of
           Some victim \<Rightarrow> make_room fid n cap now (evict victim now r)
         | None \<Rightarrow> (evict fid now r, False))
      else (r, True))"
  by pat_completeness auto

lemma oldest_member: "oldest e r = Some k \<Longrightarrow> \<exists>p. (k, p) \<in> set (r_buffers r) \<and> Some k \<noteq> e"
  by (auto simp: oldest_def dest!: min_by_key_Some)

lemma r_buffers_drop_partial [simp]: "r_buffers (drop_partial fid r) = hm_remove fid (r_buffers r)"
  by (auto simp: drop_partial_def hm_remove_absent split: option.splits)

lemma r_buffers_evict [simp]: "r_buffers (evict fid now r) = hm_remove fid (r_buffers r)"
  by (simp add: evict_def Let_def split: prod.splits)

lemma length_hm_remove_member: "(k, v) \<in> set m \<Longrightarrow> length (hm_remove k m) < length m"
  by (cases "map_of m k") (auto simp: length_hm_remove_less map_of_eq_None_iff rev_image_eqI)

termination make_room
  by (relation "measure (\<lambda>(fid, n, cap, now, r). length (r_buffers r))")
    (auto dest!: oldest_member dest: length_hm_remove_member)

declare make_room.simps [simp del]

text \<open>The part of \<open>feed\<close> that buffers an admitted chunk: make a partial if there is none (evicting
  the oldest when the table is full), store the data, and hand the message out when it is complete.\<close>

definition free_slot :: "fragment_id \<Rightarrow> instant \<Rightarrow> reassembler \<Rightarrow> reassembler" where
  "free_slot fid now r =
     (if map_of (r_buffers r) fid = None \<and> length (r_buffers r) \<ge> r_limit r then
        (case oldest None r of Some victim \<Rightarrow> evict victim now r | None \<Rightarrow> r)
      else r)"

definition open_partial :: "instant \<Rightarrow> chunk \<Rightarrow> reassembler \<Rightarrow> reassembler" where
  "open_partial now c r =
     (if map_of (r_buffers r) (c_fragment_id c) \<noteq> None then r
      else let r = free_slot (c_fragment_id c) now r
           in r\<lparr>r_buffers := hm_insert (c_fragment_id c)
                  \<lparr>p_total = c_total c, p_parts = [], p_size = 0, p_first_seen = now,
                   p_order = r_next_order r\<rparr> (r_buffers r),
                r_next_order := r_next_order r + 1\<rparr>)"

definition feed_store ::
  "instant \<Rightarrow> chunk \<Rightarrow> reassembler \<Rightarrow> reassembler \<times> bytes option" where
  "feed_store now c r =
     (let fid = c_fragment_id c;
          n = length (c_data c);
          r = open_partial now c r;
          entry = the (map_of (r_buffers r) fid);
          entry = entry\<lparr>p_parts := hm_insert (c_seq c) (c_data c) (p_parts entry),
                        p_size := p_size entry + n\<rparr>;
          r = r\<lparr>r_buffers := hm_insert fid entry (r_buffers r), r_bytes := r_bytes r + n\<rparr>
      in if length (p_parts entry) \<noteq> unat (p_total entry) then (r, None)
         else (r\<lparr>r_buffers := hm_remove fid (r_buffers r), r_bytes := r_bytes r - p_size entry\<rparr>,
               Some (concat (map (\<lambda>i. the (map_of (p_parts entry) (of_nat i)))
                       [0..<unat (p_total entry)]))))"

text \<open>The byte budget of \<open>feed\<close>, then the store.\<close>

definition feed_budget ::
  "instant \<Rightarrow> chunk \<Rightarrow> reassembler \<Rightarrow> reassembler \<times> bytes option" where
  "feed_budget now c r =
     (case r_max_buffered_bytes r of
        None \<Rightarrow> feed_store now c r
      | Some cap \<Rightarrow>
          if length (c_data c) > cap then (r, None)
          else (case make_room (c_fragment_id c) (length (c_data c)) cap now r of
                  (r, True) \<Rightarrow> feed_store now c r
                | (r, False) \<Rightarrow> (r, None)))"

text \<open>\<open>feed\<close> after the chunk's id was found not to be an evicted one: the reset of a partial with
  another total, duplicates, single-chunk messages, and the size cap.\<close>

definition feed_chunk ::
  "instant \<Rightarrow> chunk \<Rightarrow> reassembler \<Rightarrow> reassembler \<times> bytes option" where
  "feed_chunk now c r =
     (let fid = c_fragment_id c;
          existing = map_option p_total (map_of (r_buffers r) fid);
          reset = (case existing of Some t \<Rightarrow> t \<noteq> c_total c | None \<Rightarrow> False);
          r = (if reset then drop_partial fid r else r);
          existing = (if reset then None else existing)
      in if existing \<noteq> None \<and>
            (case map_of (r_buffers r) fid of
               Some p \<Rightarrow> map_of (p_parts p) (c_seq c) \<noteq> None | None \<Rightarrow> False)
         then (r, None)
         else if existing = None \<and> c_total c = 1 then (r, Some (c_data c))
         else if length (c_data c) > r_max_chunk_payload r then (r, None)
         else feed_budget now c r)"

definition feed :: "instant \<Rightarrow> bytes \<Rightarrow> reassembler \<Rightarrow> reassembler \<times> bytes option" where
  "feed now b r =
     (case parse_chunk b of
        None \<Rightarrow> (r, None)
      | Some c \<Rightarrow>
          if c_total c > r_max_fragments r then (r, None)
          else
            (let r = gc now r in
             if map_of (r_evicted r) (c_fragment_id c) \<noteq> None then (r, None)
             else feed_chunk now c r))"

section \<open>The chunk codec\<close>

definition wf_chunk :: "chunk \<Rightarrow> bool" where
  "wf_chunk c \<longleftrightarrow> length (c_fragment_id c) = 16 \<and> c_total c \<noteq> 0 \<and> c_seq c < c_total c"

definition chunk_bytes :: "chunk \<Rightarrow> bytes" where
  "chunk_bytes c = pack_chunk (c_fragment_id c) (c_seq c) (c_total c) (c_data c)"

lemma chunk_eta [simp]:
  "\<lparr>c_fragment_id = c_fragment_id c, c_seq = c_seq c, c_total = c_total c, c_data = c_data c\<rparr>
     = (c :: chunk)"
  by simp

lemma parse_pack_chunk:
  assumes "length fid = 16" "seq < tot"
  shows "parse_chunk (pack_chunk fid seq tot data) =
    Some \<lparr>c_fragment_id = fid, c_seq = seq, c_total = tot, c_data = data\<rparr>"
proof -
  let ?b = "pack_chunk fid seq tot data"
  have "slice_of 1 17 ?b = fid" "slice_of 17 19 ?b = to_be 2 seq" "slice_of 19 21 ?b = to_be 2 tot"
    "drop 21 ?b = data" "?b ! 0 = VERSION" "length ?b = 21 + length data"
    using assms by (simp_all add: pack_chunk_def slice_of_def)
  moreover have "tot \<noteq> 0" using assms by auto
  ultimately show ?thesis
    using assms by (simp add: parse_chunk_def FRAG_HEADER_LEN_def)
qed

lemma parse_chunk_exact:
  assumes "parse_chunk b = Some c"
  shows "wf_chunk c \<and> chunk_bytes c = b"
proof -
  from assms have len: "21 \<le> length b" and v: "b ! 0 = VERSION"
    and c: "c = \<lparr>c_fragment_id = slice_of 1 17 b, c_seq = from_be (slice_of 17 19 b),
      c_total = from_be (slice_of 19 21 b), c_data = drop 21 b\<rparr>"
    and wf: "c_total c \<noteq> 0" "c_seq c < c_total c"
    by (auto simp: parse_chunk_def FRAG_HEADER_LEN_def Let_def split: if_splits)
  have "b = take 1 b @ slice_of 1 17 b @ slice_of 17 19 b @ slice_of 19 21 b @ drop 21 b"
    using len by (simp add: slice_drop)
  moreover have "take 1 b = [VERSION]"
    using len v by (cases b) auto
  ultimately show ?thesis
    using len wf by (simp add: wf_chunk_def chunk_bytes_def pack_chunk_def c to_be_words)
qed

interpretation chk: exact_codec chunk_bytes parse_chunk wf_chunk
  by unfold_locales (auto simp: wf_chunk_def chunk_bytes_def parse_pack_chunk dest: parse_chunk_exact)

section \<open>Splitting\<close>

text \<open>The pieces \<open>fragment\<close> puts into chunks.\<close>

definition pieces :: "nat \<Rightarrow> bytes \<Rightarrow> bytes list" where
  "pieces cs payload = (if payload = [] then [[]] else chunks cs payload)"

lemma pieces_spec:
  assumes "0 < cs"
  shows "concat (pieces cs payload) = payload" "pieces cs payload \<noteq> []"
    "d \<in> set (pieces cs payload) \<Longrightarrow> length d \<le> cs"
  using assms by (auto simp: pieces_def concat_chunks chunks_eq_Nil dest: chunks_sizes split: if_splits)

lemma length_pieces_le:
  assumes "0 < cs"
  shows "length (chunks cs xs) \<le> n \<longleftrightarrow> length xs \<le> n * cs"
proof -
  have "(length xs + cs - 1) div cs \<le> n \<longleftrightarrow> length xs + cs - 1 < Suc n * cs"
    using assms by (simp add: div_less_iff_less_mult flip: less_Suc_eq_le)
  also have "\<dots> \<longleftrightarrow> length xs \<le> n * cs"
    using assms by auto
  finally show ?thesis using assms by (simp add: length_chunks)
qed

lemma fragment_eq:
  "fragment payload cs fid =
     (if 0 < cs \<and> length payload \<le> 65535 * cs
      then Some (map (\<lambda>i. pack_chunk fid (of_nat i) (of_nat (length (pieces cs payload)))
                   (pieces cs payload ! i)) [0..<length (pieces cs payload)])
      else None)"
  using length_pieces_le [of cs payload 65535]
  by (auto simp: fragment_def pieces_def Let_def enumerate_eq_zip zip_map_fst_snd intro!: nth_equalityI)

end
