(* ===== verification/Channel.thy ===== *)
theory Channel
  imports Fragment Replay
begin

text \<open>
  \<open>rust/telesthete/src/channel.rs\<close>: the Channel frame, the sans-io reliability core
  \<open>ChannelCore\<close> with every operation, and the connection task that drives it. The inner sequence
  numbers are 64-bit words and wrap as the release build does. A \<open>BTreeMap\<close> or \<open>VecDeque\<close> is an
  association list or a list; the outbox holds serialized frames as in the code. Random fragment
  ids and clock readings are arguments of the operations that draw them.
\<close>

unbundle bit_operations_syntax

section \<open>Frames\<close>

definition FLAG_SYN :: u8 where "FLAG_SYN = 0x01"
definition FLAG_FIN :: u8 where "FLAG_FIN = 0x02"
definition FLAG_ACK :: u8 where "FLAG_ACK = 0x04"
definition FLAG_RST :: u8 where "FLAG_RST = 0x08"
definition RESERVED_MASK :: u8 where "RESERVED_MASK = 0xF0"
definition CHANNEL_HEADER_LEN :: nat where "CHANNEL_HEADER_LEN = 19"
definition DEFAULT_WINDOW :: u16 where "DEFAULT_WINDOW = 32"
definition DEFAULT_RTO :: duration where "DEFAULT_RTO = 500"
definition MAX_RETRIES :: u32 where "MAX_RETRIES = 10"

record channel_frame =
  f_flags :: u8
  f_ack_num :: u64
  f_window :: u16
  f_seq :: u64
  f_data :: bytes

definition frame_serialize :: "channel_frame \<Rightarrow> bytes" where
  "frame_serialize f = [f_flags f] @ to_be 8 (f_ack_num f) @ to_be 2 (f_window f)
     @ to_be 8 (f_seq f) @ f_data f"

definition frame_parse :: "bytes \<Rightarrow> channel_frame option" where
  "frame_parse buf =
     (if length buf < CHANNEL_HEADER_LEN then None
      else let flags = buf ! 0 in
           if flags AND RESERVED_MASK \<noteq> 0 then None
           else Some \<lparr>f_flags = flags, f_ack_num = from_be (slice_of 1 9 buf),
                      f_window = from_be (slice_of 9 11 buf), f_seq = from_be (slice_of 11 19 buf),
                      f_data = drop CHANNEL_HEADER_LEN buf\<rparr>)"

definition has_flag :: "u8 \<Rightarrow> u8 \<Rightarrow> bool" where
  "has_flag b flags \<longleftrightarrow> flags AND b \<noteq> 0"

definition consumes_seq :: "channel_frame \<Rightarrow> bool" where
  "consumes_seq f \<longleftrightarrow> has_flag FLAG_SYN (f_flags f) \<or> has_flag FLAG_FIN (f_flags f) \<or> f_data f \<noteq> []"

section \<open>The reliability core\<close>

datatype conn_state = Closed | SynSent | Established | FinSent

record unacked =
  u_flags :: u8
  u_seq :: u64
  u_data :: bytes

record channel_core =
  cc_state :: conn_state
  cc_send_next :: u64
  cc_unacked :: "unacked list"
  cc_send_queue :: "bytes list"
  cc_peer_window :: u16
  cc_closing :: bool
  cc_rcv_next :: u64
  cc_recv_buffer :: "(u64, channel_frame) hashmap"
  cc_reassembler :: reassembler
  cc_window :: u16
  cc_rto :: duration
  cc_retries :: u32
  cc_outbox :: "bytes list"
  cc_delivered :: "bytes list"
  cc_just_established :: bool
  cc_peer_closed :: bool
  cc_dead :: bool

definition core_new :: "u16 \<Rightarrow> duration \<Rightarrow> channel_core" where
  "core_new window rto = \<lparr>cc_state = Closed, cc_send_next = 0, cc_unacked = [], cc_send_queue = [],
     cc_peer_window = DEFAULT_WINDOW, cc_closing = False, cc_rcv_next = 0, cc_recv_buffer = [],
     cc_reassembler = for_chunk_size MAX_CHUNK_PAYLOAD, cc_window = window, cc_rto = rto,
     cc_retries = 0, cc_outbox = [], cc_delivered = [], cc_just_established = False,
     cc_peer_closed = False, cc_dead = False\<rparr>"

definition has_unacked :: "channel_core \<Rightarrow> bool" where
  "has_unacked c \<longleftrightarrow> cc_unacked c \<noteq> []"

definition emit :: "u8 \<Rightarrow> u64 \<Rightarrow> bytes \<Rightarrow> channel_core \<Rightarrow> channel_core" where
  "emit flags seq data c =
     c\<lparr>cc_outbox := cc_outbox c @ [frame_serialize \<lparr>f_flags = flags, f_ack_num = cc_rcv_next c,
        f_window = cc_window c, f_seq = seq, f_data = data\<rparr>]\<rparr>"

definition emit_reliable :: "u8 \<Rightarrow> u64 \<Rightarrow> bytes \<Rightarrow> channel_core \<Rightarrow> channel_core" where
  "emit_reliable flags seq data c =
     emit flags seq data (c\<lparr>cc_unacked := cc_unacked c @ [\<lparr>u_flags = flags, u_seq = seq, u_data = data\<rparr>]\<rparr>)"

definition emit_pure_ack :: "channel_core \<Rightarrow> channel_core" where
  "emit_pure_ack c = emit FLAG_ACK (cc_send_next c) [] c"

text \<open>The four lines that give a reliable frame the next sequence number, which the code repeats.\<close>

definition emit_next :: "u8 \<Rightarrow> bytes \<Rightarrow> channel_core \<Rightarrow> channel_core" where
  "emit_next flags data c =
     emit_reliable flags (cc_send_next c) data (c\<lparr>cc_send_next := cc_send_next c + 1\<rparr>)"

definition connect :: "channel_core \<Rightarrow> channel_core" where
  "connect c =
     (if cc_state c \<noteq> Closed then c else emit_next FLAG_SYN [] (c\<lparr>cc_state := SynSent\<rparr>))"

text \<open>The loop of \<open>pump\<close>: one data frame per queued chunk while fewer than \<open>limit\<close> are in flight.\<close>

fun pump_queue :: "nat \<Rightarrow> bytes list \<Rightarrow> channel_core \<Rightarrow> channel_core" where
  "pump_queue limit [] c = c\<lparr>cc_send_queue := []\<rparr>"
| "pump_queue limit (data # q) c =
     (if length (cc_unacked c) < limit
      then pump_queue limit q (emit_next FLAG_ACK data c)
      else c\<lparr>cc_send_queue := data # q\<rparr>)"

definition pump :: "channel_core \<Rightarrow> channel_core" where
  "pump c =
     (if cc_state c \<noteq> Established then c
      else let limit = unat (max (cc_peer_window c) 1);
               c = pump_queue limit (cc_send_queue c) c
           in if cc_closing c \<and> cc_send_queue c = [] \<and> length (cc_unacked c) < limit
              then (emit_next (FLAG_FIN OR FLAG_ACK) [] c)\<lparr>cc_state := FinSent, cc_closing := False\<rparr>
              else c)"

definition send_message :: "fragment_id \<Rightarrow> bytes \<Rightarrow> channel_core \<Rightarrow> channel_core option" where
  "send_message fid msg c =
     (case fragment msg MAX_CHUNK_PAYLOAD fid of
        None \<Rightarrow> None
      | Some pkts \<Rightarrow> Some (pump (c\<lparr>cc_send_queue := cc_send_queue c @ pkts\<rparr>)))"

definition close :: "channel_core \<Rightarrow> channel_core" where
  "close c = pump (c\<lparr>cc_closing := True\<rparr>)"

definition ack :: "u64 \<Rightarrow> channel_core \<Rightarrow> channel_core" where
  "ack ack_num c =
     (let ack_num = min ack_num (cc_send_next c);
          rest = dropWhile (\<lambda>u. u_seq u < ack_num) (cc_unacked c)
      in c\<lparr>cc_unacked := rest,
           cc_retries := (if length rest \<noteq> length (cc_unacked c) then 0 else cc_retries c)\<rparr>)"

definition teardown :: "channel_core \<Rightarrow> channel_core" where
  "teardown c = c\<lparr>cc_state := Closed, cc_unacked := [], cc_send_queue := [], cc_dead := True\<rparr>"

definition on_timeout :: "channel_core \<Rightarrow> channel_core" where
  "on_timeout c =
     (if cc_unacked c = [] then c
      else if cc_retries c \<ge> MAX_RETRIES then teardown c
      else fold (\<lambda>u. emit (u_flags u) (u_seq u) (u_data u)) (cc_unacked c)
             (c\<lparr>cc_retries := cc_retries c + 1\<rparr>))"

text \<open>The body of the loop of \<open>deliver\<close>, for the frame that was removed at \<open>rcv_next\<close>.\<close>

definition consume :: "instant \<Rightarrow> channel_frame \<Rightarrow> channel_core \<Rightarrow> channel_core" where
  "consume now fr c =
     (let c = c\<lparr>cc_rcv_next := cc_rcv_next c + 1\<rparr> in
      if has_flag FLAG_FIN (f_flags fr) then
        (let c = c\<lparr>cc_peer_closed := True\<rparr> in
         if cc_state c = Established
         then (emit_next (FLAG_FIN OR FLAG_ACK) [] c)\<lparr>cc_state := FinSent\<rparr>
         else c)
      else if f_data fr \<noteq> [] then
        (case feed now (f_data fr) (cc_reassembler c) of
           (r, None) \<Rightarrow> c\<lparr>cc_reassembler := r\<rparr>
         | (r, Some msg) \<Rightarrow> c\<lparr>cc_reassembler := r, cc_delivered := cc_delivered c @ [msg]\<rparr>)
      else c)"

lemma recv_buffer_consume [simp]: "cc_recv_buffer (consume now fr c) = cc_recv_buffer c"
  by (simp add: consume_def Let_def emit_next_def emit_reliable_def emit_def split: prod.split option.split)

function drain_buffer :: "instant \<Rightarrow> channel_core \<Rightarrow> channel_core" where
  "drain_buffer now c =
     (case map_of (cc_recv_buffer c) (cc_rcv_next c) of
        None \<Rightarrow> c
      | Some fr \<Rightarrow>
          drain_buffer now (consume now fr
            (c\<lparr>cc_recv_buffer := hm_remove (cc_rcv_next c) (cc_recv_buffer c)\<rparr>)))"
  by pat_completeness auto
termination
  by (relation "measure (\<lambda>(now, c). length (cc_recv_buffer c))") (auto intro: length_hm_remove_less)

declare drain_buffer.simps [simp del]

definition deliver :: "instant \<Rightarrow> channel_frame \<Rightarrow> channel_core \<Rightarrow> channel_core" where
  "deliver now f c =
     (if \<not> consumes_seq f then c
      else if f_seq f < cc_rcv_next c \<or> map_of (cc_recv_buffer c) (f_seq f) \<noteq> None then emit_pure_ack c
      else if f_seq f \<ge> cc_rcv_next c + ucast (cc_window c) then emit_pure_ack c
      else emit_pure_ack (drain_buffer now
             (c\<lparr>cc_recv_buffer := hm_insert (f_seq f) f (cc_recv_buffer c)\<rparr>)))"

text \<open>A handshake frame establishes the connection; \<open>reply\<close> is what is sent back.\<close>

definition establish :: "channel_frame \<Rightarrow> channel_core \<Rightarrow> channel_core" where
  "establish f c = c\<lparr>cc_rcv_next := f_seq f + 1, cc_state := Established, cc_just_established := True\<rparr>"

definition on_frame :: "instant \<Rightarrow> channel_frame \<Rightarrow> channel_core \<Rightarrow> channel_core" where
  "on_frame now f c =
     (let c = (ack (f_ack_num f) c)\<lparr>cc_peer_window := f_window f\<rparr> in
      if has_flag FLAG_RST (f_flags f) then teardown (c\<lparr>cc_peer_closed := True\<rparr>)
      else case cc_state c of
        Closed \<Rightarrow>
          if has_flag FLAG_SYN (f_flags f) then emit_next (FLAG_SYN OR FLAG_ACK) [] (establish f c) else c
      | SynSent \<Rightarrow>
          if has_flag FLAG_SYN (f_flags f) \<and> has_flag FLAG_ACK (f_flags f)
          then pump (emit_pure_ack (establish f c))
          else if has_flag FLAG_SYN (f_flags f) then emit_next (FLAG_SYN OR FLAG_ACK) [] (establish f c)
          else c
      | Established \<Rightarrow> pump (deliver now f c)
      | FinSent \<Rightarrow> pump (deliver now f c))"

section \<open>The connection task\<close>

text \<open>One iteration of the loop of \<open>run_connection\<close>. The event is what \<open>select!\<close> returned; \<open>rx_open\<close>
  says whether the endpoint still holds its receiver. \<open>ConnPanic\<close> is the panic of \<open>fragment\<close> on an
  oversized message.\<close>

datatype command = Connect | Send fragment_id bytes | CloseCmd

datatype conn_event = Cmd command | EndpointDropped | FrameIn channel_frame | HubGone | Timer

record conn_task =
  ct_core :: channel_core
  ct_deliver_open :: bool
  ct_pending_connect :: bool
  ct_deadline :: "instant option"

record conn_effects =
  ce_sent :: "bytes list"
  ce_delivered :: "bytes list"
  ce_connected :: bool

datatype conn_result = ConnPanic | ConnExit conn_effects | ConnContinue conn_task conn_effects

definition conn_task_new :: "u16 \<Rightarrow> duration \<Rightarrow> conn_task" where
  "conn_task_new window rto = \<lparr>ct_core = core_new window rto, ct_deliver_open = True,
     ct_pending_connect = False, ct_deadline = None\<rparr>"

definition no_effects :: conn_effects where
  "no_effects = \<lparr>ce_sent = [], ce_delivered = [], ce_connected = False\<rparr>"

text \<open>The timer branch of \<open>select!\<close> is enabled only while a deadline is set and has passed.\<close>

definition timer_ready :: "instant \<Rightarrow> conn_task \<Rightarrow> bool" where
  "timer_ready now t = (case ct_deadline t of None \<Rightarrow> False | Some d \<Rightarrow> d \<le> now)"

text \<open>The part of the iteration after \<open>select!\<close>: flush, hand out, signal, re-arm.\<close>

definition conn_flush :: "bool \<Rightarrow> instant \<Rightarrow> bool \<Rightarrow> conn_task \<Rightarrow> conn_result" where
  "conn_flush rx_open now responded t =
     (let core = ct_core t;
          sent = cc_outbox core;
          msgs = (if ct_deliver_open t \<and> rx_open then cc_delivered core else []);
          dopen = (ct_deliver_open t \<and> (rx_open \<or> cc_delivered core = []));
          connected = (responded \<or> (cc_just_established core \<and> ct_pending_connect t));
          pending = (if cc_just_established core then False else ct_pending_connect t);
          dopen = (dopen \<and> \<not> cc_peer_closed core);
          core = core\<lparr>cc_outbox := [], cc_delivered := [], cc_just_established := False\<rparr>;
          eff = \<lparr>ce_sent = sent, ce_delivered = msgs, ce_connected = connected\<rparr>
      in if cc_dead core then ConnExit eff
         else ConnContinue \<lparr>ct_core = core, ct_deliver_open = dopen, ct_pending_connect = pending,
                ct_deadline = (if has_unacked core
                               then (case ct_deadline t of Some d \<Rightarrow> Some d | None \<Rightarrow> Some (now + cc_rto core))
                               else None)\<rparr> eff)"

definition conn_step :: "bool \<Rightarrow> instant \<Rightarrow> conn_event \<Rightarrow> conn_task \<Rightarrow> conn_result" where
  "conn_step rx_open now ev t =
     (case ev of
        Cmd Connect \<Rightarrow>
          if cc_state (ct_core t) = Established then conn_flush rx_open now True t
          else conn_flush rx_open now False (t\<lparr>ct_pending_connect := True, ct_core := connect (ct_core t)\<rparr>)
      | Cmd (Send fid data) \<Rightarrow>
          (case send_message fid data (ct_core t) of
             None \<Rightarrow> ConnPanic
           | Some core \<Rightarrow> conn_flush rx_open now False (t\<lparr>ct_core := core\<rparr>))
      | Cmd CloseCmd \<Rightarrow> conn_flush rx_open now False (t\<lparr>ct_core := close (ct_core t)\<rparr>)
      | EndpointDropped \<Rightarrow> ConnExit no_effects
      | FrameIn f \<Rightarrow> conn_flush rx_open now False (t\<lparr>ct_core := on_frame now f (ct_core t)\<rparr>)
      | HubGone \<Rightarrow> ConnExit no_effects
      | Timer \<Rightarrow> conn_flush rx_open now False
                   (t\<lparr>ct_core := on_timeout (ct_core t), ct_deadline := None\<rparr>))"

section \<open>The channel hub\<close>

text \<open>The demultiplexer: the watermark table, and the route of each (peer, channel id) to the task
  opened last for it.\<close>

type_synonym channel_key = "socket_addr \<times> u16"

record channel_hub =
  hub_watermarks :: "(channel_key, u64) hashmap"
  hub_routes :: "(channel_key, nat) hashmap"

definition hub_new :: channel_hub where
  "hub_new = \<lparr>hub_watermarks = [], hub_routes = []\<rparr>"

definition hub_packet ::
  "socket_addr \<Rightarrow> u16 \<Rightarrow> u64 \<Rightarrow> bytes \<Rightarrow> channel_hub \<Rightarrow> channel_hub \<times> (nat \<times> channel_frame) option" where
  "hub_packet from cid seq payload h =
     (let key = (from, cid) in
      case watermark_check key seq (hub_watermarks h) of
        (_, False) \<Rightarrow> (h, None)
      | (w, True) \<Rightarrow>
          (let h = h\<lparr>hub_watermarks := w\<rparr> in
           case frame_parse payload of
             None \<Rightarrow> (h, None)
           | Some f \<Rightarrow> (h, map_option (\<lambda>task. (task, f)) (map_of (hub_routes h) key))))"

definition hub_rebase :: "socket_addr \<Rightarrow> channel_hub \<Rightarrow> channel_hub" where
  "hub_rebase addr h = h\<lparr>hub_watermarks := watermark_clear (\<lambda>(a, _). a = addr) (hub_watermarks h)\<rparr>"

definition hub_open :: "socket_addr \<Rightarrow> u16 \<Rightarrow> nat \<Rightarrow> channel_hub \<Rightarrow> channel_hub" where
  "hub_open peer cid task h = h\<lparr>hub_routes := hm_insert (peer, cid) task (hub_routes h)\<rparr>"

section \<open>The frame codec\<close>

definition wf_frame :: "channel_frame \<Rightarrow> bool" where
  "wf_frame f \<longleftrightarrow> f_flags f AND RESERVED_MASK = 0"

lemma frame_parse_serialize:
  assumes "wf_frame f"
  shows "frame_parse (frame_serialize f) = Some f"
proof -
  let ?b = "frame_serialize f"
  have "slice_of 1 9 ?b = to_be 8 (f_ack_num f)" "slice_of 9 11 ?b = to_be 2 (f_window f)"
    "slice_of 11 19 ?b = to_be 8 (f_seq f)" "drop 19 ?b = f_data f" "?b ! 0 = f_flags f" "\<not> length ?b < 19"
    by (simp_all add: frame_serialize_def slice_of_def)
  with assms show ?thesis
    by (simp add: frame_parse_def CHANNEL_HEADER_LEN_def wf_frame_def)
qed

lemma frame_parse_exact:
  assumes "frame_parse b = Some f"
  shows "wf_frame f \<and> frame_serialize f = b"
proof -
  from assms have len: "19 \<le> length b" and wf: "wf_frame f"
    and f: "f = \<lparr>f_flags = b ! 0, f_ack_num = from_be (slice_of 1 9 b),
      f_window = from_be (slice_of 9 11 b), f_seq = from_be (slice_of 11 19 b), f_data = drop 19 b\<rparr>"
    by (auto simp: frame_parse_def CHANNEL_HEADER_LEN_def wf_frame_def Let_def split: if_splits)
  have "b = take 1 b @ slice_of 1 9 b @ slice_of 9 11 b @ slice_of 11 19 b @ drop 19 b"
    using len by (simp add: slice_drop)
  moreover have "take 1 b = [b ! 0]"
    using len by (cases b) auto
  ultimately show ?thesis
    using len wf by (simp add: frame_serialize_def f to_be_words)
qed

interpretation chf: exact_codec frame_serialize frame_parse wf_frame
  by unfold_locales (auto simp: frame_parse_serialize dest: frame_parse_exact)

end
