(* ===== verification/Reassembly.thy ===== *)
theory Reassembly
  imports Fragment "HOL-Library.Sublist"
begin

text \<open>
  The proofs about the reassembler of \<open>rust/telesthete/src/wire/fragment.rs\<close>: an invariant of
  every operation that gives the memory bounds, integrity (what comes out is what some sender's
  chunks said) and completeness (the chunks of a message, in any order and with repetitions, give
  the message back).
\<close>

section \<open>The reassembler's invariant\<close>

text \<open>A buffered partial holds at least one and not all of its parts, at indices below its total and
  within the chunk cap; its size is the sum of its parts.\<close>

definition partial_ok :: "u16 \<Rightarrow> nat \<Rightarrow> partial \<Rightarrow> bool" where
  "partial_ok mf mcp p \<longleftrightarrow>
     wf_hm (p_parts p) \<and> p_parts p \<noteq> [] \<and> length (p_parts p) < unat (p_total p) \<and>
     p_total p \<le> mf \<and> p_size p = hm_sum length (p_parts p) \<and>
     (\<forall>(i, d) \<in> set (p_parts p). i < p_total p \<and> length d \<le> mcp)"

definition buffers_ok :: "reassembler \<Rightarrow> bool" where
  "buffers_ok r \<longleftrightarrow>
     wf_hm (r_buffers r) \<and> r_bytes r = hm_sum p_size (r_buffers r) \<and>
     (\<forall>(f, p) \<in> set (r_buffers r). partial_ok (r_max_fragments r) (r_max_chunk_payload r) p)"

definition evicted_ok :: "reassembler \<Rightarrow> bool" where
  "evicted_ok r \<longleftrightarrow>
     wf_hm (r_evicted r) \<and> length (r_evicted r) \<le> DEFAULT_EVICTED_MEMORY \<and>
     set (r_evicted r) \<subseteq> set (r_evicted_order r) \<and>
     (\<forall>f. map_of (r_evicted r) f \<noteq> None \<longrightarrow> map_of (r_buffers r) f = None)"

definition within_limits :: "reassembler \<Rightarrow> bool" where
  "within_limits r \<longleftrightarrow>
     0 < r_limit r \<and> length (r_buffers r) \<le> r_limit r \<and>
     (case r_max_buffered_bytes r of None \<Rightarrow> True | Some m \<Rightarrow> r_bytes r \<le> m)"

definition reasm_inv :: "reassembler \<Rightarrow> bool" where
  "reasm_inv r \<longleftrightarrow> buffers_ok r \<and> evicted_ok r \<and> within_limits r"

text \<open>The settings, which no operation changes.\<close>

definition settings :: "reassembler \<Rightarrow> nat \<times> u16 \<times> nat \<times> nat option \<times> duration" where
  "settings r = (r_limit r, r_max_fragments r, r_max_chunk_payload r, r_max_buffered_bytes r, r_timeout r)"

named_theorems reasm_simps

lemma drop_partial_fields [simp, reasm_simps]:
  "r_evicted (drop_partial fid r) = r_evicted r"
  "r_evicted_order (drop_partial fid r) = r_evicted_order r"
  "r_next_order (drop_partial fid r) = r_next_order r"
  "r_limit (drop_partial fid r) = r_limit r"
  "r_max_fragments (drop_partial fid r) = r_max_fragments r"
  "r_max_chunk_payload (drop_partial fid r) = r_max_chunk_payload r"
  "r_max_buffered_bytes (drop_partial fid r) = r_max_buffered_bytes r"
  "r_timeout (drop_partial fid r) = r_timeout r"
  by (simp_all add: drop_partial_def split: option.split)

lemma evict_fields [simp, reasm_simps]:
  "r_limit (evict fid now r) = r_limit r"
  "r_max_fragments (evict fid now r) = r_max_fragments r"
  "r_max_chunk_payload (evict fid now r) = r_max_chunk_payload r"
  "r_max_buffered_bytes (evict fid now r) = r_max_buffered_bytes r"
  "r_timeout (evict fid now r) = r_timeout r"
  "r_bytes (evict fid now r) = r_bytes (drop_partial fid r)"
  by (simp_all add: evict_def Let_def split: prod.split)

lemma r_bytes_drop_partial_le: "r_bytes (drop_partial fid r) \<le> r_bytes r"
  by (simp add: drop_partial_def split: option.split)

lemma buffers_ok_remove:
  assumes "buffers_ok r"
  shows "r_bytes (drop_partial fid r) = hm_sum p_size (hm_remove fid (r_buffers r))"
  using assms hm_sum_remove [of "r_buffers r" p_size fid]
  by (auto simp: buffers_ok_def drop_partial_def hm_remove_absent split: option.splits)

lemma buffers_ok_drop_partial: "buffers_ok r \<Longrightarrow> buffers_ok (drop_partial fid r)"
  using buffers_ok_remove [of r fid] by (auto simp: buffers_ok_def set_hm_remove)

lemma buffers_ok_evict: "buffers_ok r \<Longrightarrow> buffers_ok (evict fid now r)"
  using buffers_ok_remove [of r fid] by (auto simp: buffers_ok_def set_hm_remove)

lemma within_limits_remove:
  assumes "within_limits r" "settings r' = settings r"
    "r_buffers r' = hm_remove fid (r_buffers r)" "r_bytes r' = r_bytes (drop_partial fid r)"
  shows "within_limits r'"
  using assms r_bytes_drop_partial_le [of fid r] length_delete_le [of fid "r_buffers r"]
  by (auto simp: within_limits_def settings_def split: option.splits)

lemma trim_evicted_spec:
  assumes "trim_evicted ev ord = (ev', ord')" "wf_hm ev" "set ev \<subseteq> set ord"
  shows "wf_hm ev' \<and> set ev' \<subseteq> set ev \<and> set ev' \<subseteq> set ord' \<and> length ev' \<le> DEFAULT_EVICTED_MEMORY"
  using assms
proof (induction ev ord arbitrary: ev' ord' rule: trim_evicted.induct)
  case (2 ev old at ord)
  show ?case
  proof (cases "length ev > DEFAULT_EVICTED_MEMORY")
    case True
    let ?ev = "if map_of ev old = Some at then hm_remove old ev else ev"
    have "set ?ev \<subseteq> set ord"
      using 2(4) by (auto simp: set_hm_remove map_of_set_iff [OF 2(3)])
    then have "wf_hm ev' \<and> set ev' \<subseteq> set ?ev \<and> set ev' \<subseteq> set ord' \<and> length ev' \<le> DEFAULT_EVICTED_MEMORY"
      using 2 True by simp
    then show ?thesis
      by (auto simp: set_hm_remove split: if_splits)
  qed (use 2 in auto)
qed simp

lemma map_of_subset_hm: "wf_hm m \<Longrightarrow> wf_hm m' \<Longrightarrow> set m' \<subseteq> set m \<Longrightarrow> map_of m' k = Some v \<Longrightarrow> map_of m k = Some v"
  by (auto simp: map_of_set_iff)

lemma evict_spec:
  assumes "evicted_ok r"
  shows "evicted_ok (evict fid now r)"
    and "map_of (r_evicted (evict fid now r)) f = Some at \<Longrightarrow> f = fid \<or> map_of (r_evicted r) f = Some at"
proof -
  define ev where "ev = hm_insert fid now (r_evicted r)"
  obtain ev' ord' where t: "trim_evicted ev (r_evicted_order r @ [(fid, now)]) = (ev', ord')"
    by (metis surj_pair)
  have e: "r_evicted (evict fid now r) = ev'" "r_evicted_order (evict fid now r) = ord'"
    using t by (simp_all add: evict_def Let_def ev_def)
  have wf: "wf_hm ev" "set ev \<subseteq> set (r_evicted_order r @ [(fid, now)])"
    using assms by (auto simp: ev_def evicted_ok_def set_hm_insert)
  note spec = trim_evicted_spec [OF t wf]
  have old: "f = fid \<or> map_of (r_evicted r) f = Some at" if "map_of ev' f = Some at" for f at
    using map_of_subset_hm [of ev ev' f at] that spec wf by (auto simp: ev_def split: if_splits)
  then show "map_of (r_evicted (evict fid now r)) f = Some at \<Longrightarrow> f = fid \<or> map_of (r_evicted r) f = Some at"
    by (simp add: e)
  show "evicted_ok (evict fid now r)"
    using spec old assms by (fastforce simp: evicted_ok_def e)
qed

lemma reasm_inv_drop_partial: "reasm_inv r \<Longrightarrow> reasm_inv (drop_partial fid r)"
  unfolding reasm_inv_def
  by (auto simp: settings_def evicted_ok_def intro: buffers_ok_drop_partial within_limits_remove)

lemma reasm_inv_evict: "reasm_inv r \<Longrightarrow> reasm_inv (evict fid now r)"
  unfolding reasm_inv_def
  by (auto simp: settings_def intro: buffers_ok_evict evict_spec within_limits_remove)

lemma settings_eq [simp, reasm_simps]:
  "settings (drop_partial fid r) = settings r"
  "settings (evict fid now r) = settings r"
  by (simp_all add: settings_def)

lemma expire_evicted_spec:
  assumes "expire_evicted now t ev ord = (ev', ord')" "wf_hm ev" "set ev \<subseteq> set ord"
  shows "wf_hm ev' \<and> set ev' \<subseteq> set ev \<and> set ev' \<subseteq> set ord' \<and> length ev' \<le> length ev \<and>
    (\<forall>f at. map_of ev f = Some at \<and> now - at \<le> t \<longrightarrow> map_of ev' f = Some at)"
  using assms
proof (induction now t ev ord arbitrary: ev' ord' rule: expire_evicted.induct)
  case (2 now t ev fid at ord)
  show ?case
  proof (cases "now - at > t")
    case True
    let ?ev = "if map_of ev fid = Some at then hm_remove fid ev else ev"
    have "set ?ev \<subseteq> set ord"
      using 2(4) by (auto simp: set_hm_remove map_of_set_iff [OF 2(3)])
    moreover have "expire_evicted now t ?ev ord = (ev', ord')" "wf_hm ?ev"
      using 2(2,3) True by simp_all
    ultimately have "wf_hm ev' \<and> set ev' \<subseteq> set ?ev \<and> set ev' \<subseteq> set ord' \<and> length ev' \<le> length ?ev \<and>
      (\<forall>f at. map_of ?ev f = Some at \<and> now - at \<le> t \<longrightarrow> map_of ev' f = Some at)"
      using 2(1) [of ev' ord'] True by blast
    then show ?thesis
      using True length_delete_le [of fid ev]
      by (auto simp: set_hm_remove split: if_splits) (metis option.inject not_le)
  next
    case False
    then show ?thesis
      using 2(2-4) by auto
  qed
qed simp

lemma fold_drop_partial:
  "reasm_inv r \<Longrightarrow> reasm_inv (fold drop_partial ks r)"
  "settings (fold drop_partial ks r) = settings r"
  "r_evicted (fold drop_partial ks r) = r_evicted r"
  "map_of (r_buffers (fold drop_partial ks r)) f = (if f \<in> set ks then None else map_of (r_buffers r) f)"
  by (induction ks arbitrary: r) (auto simp: reasm_inv_drop_partial)

lemma gc_spec:
  assumes "reasm_inv r"
  shows "reasm_inv (gc now r)" and "settings (gc now r) = settings r"
    and "map_of (r_buffers (gc now r)) f = (case map_of (r_buffers r) f of
      None \<Rightarrow> None | Some p \<Rightarrow> if now - p_first_seen p > r_timeout r then None else Some p)"
    and "map_of (r_evicted (gc now r)) f = Some at \<Longrightarrow> map_of (r_evicted r) f = Some at"
    and "map_of (r_evicted r) f = Some at \<Longrightarrow> now - at \<le> r_timeout r \<Longrightarrow>
      map_of (r_evicted (gc now r)) f = Some at"
proof -
  obtain ev ord where x: "expire_evicted now (r_timeout r) (r_evicted r) (r_evicted_order r) = (ev, ord)"
    by (metis surj_pair)
  define r1 where "r1 = r\<lparr>r_evicted := ev, r_evicted_order := ord\<rparr>"
  define stale where "stale = map fst (filter (\<lambda>(_, p). now - p_first_seen p > r_timeout r) (r_buffers r))"
  have gc: "gc now r = fold drop_partial stale r1"
    by (auto simp: gc_def x r1_def stale_def Let_def)
  have wf: "wf_hm (r_evicted r)" "set (r_evicted r) \<subseteq> set (r_evicted_order r)" "wf_hm (r_buffers r)"
    using assms by (auto simp: reasm_inv_def evicted_ok_def buffers_ok_def)
  note spec = expire_evicted_spec [OF x wf(1,2)]
  have old: "map_of ev f = Some at \<Longrightarrow> map_of (r_evicted r) f = Some at" for f at
    using spec wf(1) by (blast intro: map_of_subset_hm)
  have "map_of (r_buffers r) f = None" if "map_of ev f \<noteq> None" for f
    using that old [of f] assms by (auto simp: reasm_inv_def evicted_ok_def)
  then have "evicted_ok r1"
    using assms spec by (simp add: reasm_inv_def evicted_ok_def r1_def)
  then have inv1: "reasm_inv r1"
    using assms by (simp add: reasm_inv_def r1_def buffers_ok_def within_limits_def split: option.splits)
  then show "reasm_inv (gc now r)" "settings (gc now r) = settings r"
    by (simp_all add: gc fold_drop_partial) (simp add: r1_def settings_def)
  have "f \<in> set stale \<longleftrightarrow> (\<exists>p. map_of (r_buffers r) f = Some p \<and> now - p_first_seen p > r_timeout r)"
    using wf(3) by (force simp: stale_def map_of_set_iff)
  then show "map_of (r_buffers (gc now r)) f = (case map_of (r_buffers r) f of
      None \<Rightarrow> None | Some p \<Rightarrow> if now - p_first_seen p > r_timeout r then None else Some p)"
    by (auto simp: gc fold_drop_partial r1_def split: option.splits)
  show "map_of (r_evicted (gc now r)) f = Some at \<Longrightarrow> map_of (r_evicted r) f = Some at"
    by (simp add: gc fold_drop_partial r1_def old)
  show "map_of (r_evicted r) f = Some at \<Longrightarrow> now - at \<le> r_timeout r \<Longrightarrow>
      map_of (r_evicted (gc now r)) f = Some at"
    using spec by (simp add: gc fold_drop_partial r1_def)
qed

text \<open>The budget loop evicts other messages only. It fails only when this message alone does not
  fit.\<close>

lemma oldest_other: "oldest (Some fid) r = None \<longleftrightarrow> fst ` set (r_buffers r) \<subseteq> {fid}"
  by (auto simp: oldest_def filter_empty_conv)

lemma make_room_spec:
  assumes "make_room fid n cap now r = (r', ok)" "reasm_inv r"
  shows "reasm_inv r' \<and> settings r' = settings r \<and>
    (ok \<longrightarrow> r_bytes r' + n \<le> cap \<and> map_of (r_buffers r') fid = map_of (r_buffers r) fid \<and>
       (map_of (r_evicted r) fid = None \<longrightarrow> map_of (r_evicted r') fid = None)) \<and>
    set (r_buffers r') \<subseteq> set (r_buffers r)"
  using assms
proof (induction fid n cap now r arbitrary: r' rule: make_room.induct)
  case (1 fid n cap now r)
  show ?case
  proof (cases "r_bytes r + n > cap")
    case True
    show ?thesis
    proof (cases "oldest (Some fid) r")
      case None
      then show ?thesis
        using 1(2,3) True by (auto simp: make_room.simps [of fid n cap now r] reasm_inv_evict set_hm_remove)
    next
      case (Some v)
      then have "v \<noteq> fid" by (auto dest: oldest_member)
      moreover have "map_of (r_evicted (evict v now r)) fid = None" if "map_of (r_evicted r) fid = None"
        using that evict_spec(2) [of r v now fid] 1(3) \<open>v \<noteq> fid\<close> by (cases "map_of (r_evicted (evict v now r)) fid") (auto simp: reasm_inv_def)
      moreover have "make_room fid n cap now (evict v now r) = (r', ok)"
        using 1(2) True Some by (simp add: make_room.simps [of fid n cap now r])
      moreover have "set (r_buffers (evict v now r)) \<subseteq> set (r_buffers r)"
        by (auto simp: set_hm_remove)
      ultimately show ?thesis
        using 1(1) [OF True Some, of r'] 1(3) by (auto simp: reasm_inv_evict)
    qed
  next
    case False
    then show ?thesis
      using 1(2,3) by (simp add: make_room.simps [of fid n cap now r])
  qed
qed

lemma make_room_fits:
  assumes "make_room fid n cap now r = (r', ok)" "reasm_inv r"
    "(case map_of (r_buffers r) fid of None \<Rightarrow> 0 | Some p \<Rightarrow> p_size p) + n \<le> cap"
  shows "ok"
  using assms
proof (induction fid n cap now r arbitrary: r' rule: make_room.induct)
  case (1 fid n cap now r)
  have *: "r_bytes r = (case map_of (r_buffers r) fid of None \<Rightarrow> 0 | Some p \<Rightarrow> p_size p)"
    if "oldest (Some fid) r = None"
  proof -
    have "hm_remove fid (r_buffers r) = []"
      using that by (auto simp: oldest_other set_hm_remove simp flip: set_empty)
    then show ?thesis
      using 1(3) hm_sum_remove [of "r_buffers r" p_size fid]
      by (auto simp: reasm_inv_def buffers_ok_def)
  qed
  show ?case
  proof (cases "r_bytes r + n > cap")
    case True
    then obtain v where v: "oldest (Some fid) r = Some v"
      using * 1(4) by (cases "oldest (Some fid) r") auto
    then have "v \<noteq> fid" by (auto dest: oldest_member)
    have "make_room fid n cap now (evict v now r) = (r', ok)"
      using 1(2) True v by (simp add: make_room.simps [of fid n cap now r])
    from 1(1) [OF True v this] show ?thesis
      using 1(3,4) \<open>v \<noteq> fid\<close> by (simp add: reasm_inv_evict)
  next
    case False
    then show ?thesis
      using 1(2) by (simp add: make_room.simps [of fid n cap now r])
  qed
qed

subsection \<open>Storing a chunk\<close>

lemma free_slot_spec:
  assumes "reasm_inv r"
  shows "reasm_inv (free_slot fid now r)" "settings (free_slot fid now r) = settings r"
    "map_of (r_buffers (free_slot fid now r)) fid = map_of (r_buffers r) fid"
    "map_of (r_buffers r) fid = None \<Longrightarrow>
       length (r_buffers (free_slot fid now r)) < r_limit (free_slot fid now r)"
    "map_of (r_evicted r) fid = None \<Longrightarrow> map_of (r_evicted (free_slot fid now r)) fid = None"
    "set (r_buffers (free_slot fid now r)) \<subseteq> set (r_buffers r)"
    "r_bytes (free_slot fid now r) \<le> r_bytes r"
proof -
  let ?full = "map_of (r_buffers r) fid = None \<and> length (r_buffers r) \<ge> r_limit r"
  have pos: "0 < r_limit r" "length (r_buffers r) \<le> r_limit r"
    using assms by (auto simp: reasm_inv_def within_limits_def)
  obtain v where v: "?full \<Longrightarrow> oldest None r = Some v"
    using pos by (cases "oldest None r") (auto simp: oldest_def filter_empty_conv)
  have mem: "\<exists>p. (v, p) \<in> set (r_buffers r)" if ?full
    using v [OF that] by (auto dest: oldest_member)
  then have ne: "v \<noteq> fid" if ?full
    using that by (auto simp: map_of_eq_None_iff rev_image_eqI)
  have f: "free_slot fid now r = (if ?full then evict v now r else r)"
    using v by (auto simp: free_slot_def)
  show "reasm_inv (free_slot fid now r)" "settings (free_slot fid now r) = settings r"
    "set (r_buffers (free_slot fid now r)) \<subseteq> set (r_buffers r)"
    "r_bytes (free_slot fid now r) \<le> r_bytes r"
    using assms by (auto simp: f reasm_inv_evict set_hm_remove r_bytes_drop_partial_le)
  show "map_of (r_buffers (free_slot fid now r)) fid = map_of (r_buffers r) fid"
    by (auto simp: f)
  show "map_of (r_buffers r) fid = None \<Longrightarrow>
      length (r_buffers (free_slot fid now r)) < r_limit (free_slot fid now r)"
    using pos mem by (auto simp: f dest: length_hm_remove_member)
  show "map_of (r_evicted (free_slot fid now r)) fid = None" if "map_of (r_evicted r) fid = None"
  proof (cases ?full)
    case True
    with that ne evict_spec(2) [of r v now fid] assms
    have "map_of (r_evicted (evict v now r)) fid = None"
      by (cases "map_of (r_evicted (evict v now r)) fid") (auto simp: reasm_inv_def)
    with True show ?thesis by (simp add: f)
  next
    case False
    with that show ?thesis by (auto simp: f)
  qed
qed

text \<open>The partial that the chunk goes into, with the chunk stored.\<close>

definition stored :: "instant \<Rightarrow> chunk \<Rightarrow> reassembler \<Rightarrow> partial" where
  "stored now c r =
     (let e = (case map_of (r_buffers r) (c_fragment_id c) of Some p \<Rightarrow> p
               | None \<Rightarrow> \<lparr>p_total = c_total c, p_parts = [], p_size = 0, p_first_seen = now,
                          p_order = r_next_order (free_slot (c_fragment_id c) now r)\<rparr>)
      in e\<lparr>p_parts := hm_insert (c_seq c) (c_data c) (p_parts e), p_size := p_size e + length (c_data c)\<rparr>)"

lemma feed_store_alt:
  fixes now c r
  defines "r0 \<equiv> free_slot (c_fragment_id c) now r" and "e \<equiv> stored now c r"
  defines "nx \<equiv> r_next_order r0 + (if map_of (r_buffers r) (c_fragment_id c) = None then 1 else 0)"
  shows "feed_store now c r =
    (if length (p_parts e) \<noteq> unat (p_total e)
     then (r0\<lparr>r_buffers := hm_insert (c_fragment_id c) e (r_buffers r0),
              r_bytes := r_bytes r0 + length (c_data c), r_next_order := nx\<rparr>, None)
     else (r0\<lparr>r_buffers := hm_remove (c_fragment_id c) (r_buffers r0),
              r_bytes := r_bytes r0 + length (c_data c) - p_size e, r_next_order := nx\<rparr>,
           Some (concat (map (\<lambda>i. the (map_of (p_parts e) (of_nat i))) [0..<unat (p_total e)]))))"
proof (cases "map_of (r_buffers r) (c_fragment_id c)")
  case None
  then show ?thesis
    by (simp add: feed_store_def open_partial_def r0_def e_def nx_def stored_def Let_def)
next
  case (Some p)
  then have "r0 = r" by (simp add: r0_def free_slot_def)
  with Some show ?thesis
    by (simp add: feed_store_def open_partial_def e_def nx_def stored_def Let_def)
qed

text \<open>What holds of the chunk and the reassembler when the budget is consulted, and when
  \<open>feed_store\<close> is reached.\<close>

definition admissible :: "chunk \<Rightarrow> reassembler \<Rightarrow> bool" where
  "admissible c r \<longleftrightarrow>
     wf_chunk c \<and> c_total c \<le> r_max_fragments r \<and> length (c_data c) \<le> r_max_chunk_payload r \<and>
     map_of (r_evicted r) (c_fragment_id c) = None \<and>
     (case map_of (r_buffers r) (c_fragment_id c) of
        None \<Rightarrow> c_total c \<noteq> 1
      | Some p \<Rightarrow> p_total p = c_total c \<and> map_of (p_parts p) (c_seq c) = None)"

definition admitted :: "chunk \<Rightarrow> reassembler \<Rightarrow> bool" where
  "admitted c r \<longleftrightarrow> admissible c r \<and>
     (case r_max_buffered_bytes r of None \<Rightarrow> True | Some m \<Rightarrow> r_bytes r + length (c_data c) \<le> m)"

lemma buffered_partial_ok:
  "reasm_inv r \<Longrightarrow> map_of (r_buffers r) f = Some p \<Longrightarrow>
     partial_ok (r_max_fragments r) (r_max_chunk_payload r) p"
  by (auto simp: reasm_inv_def buffers_ok_def map_of_set_iff)

lemma stored_spec:
  assumes "reasm_inv r" "admitted c r"
  shows "p_total (stored now c r) = c_total c" "wf_hm (p_parts (stored now c r))"
    "p_parts (stored now c r) \<noteq> []" "length (p_parts (stored now c r)) \<le> unat (c_total c)"
    "p_size (stored now c r) = hm_sum length (p_parts (stored now c r))"
    "\<forall>(i, d) \<in> set (p_parts (stored now c r)). i < c_total c \<and> length d \<le> r_max_chunk_payload r"
    "p_size (stored now c r) =
      (case map_of (r_buffers r) (c_fragment_id c) of None \<Rightarrow> 0 | Some p \<Rightarrow> p_size p) + length (c_data c)"
proof -
  let ?parts = "case map_of (r_buffers r) (c_fragment_id c) of None \<Rightarrow> [] | Some p \<Rightarrow> p_parts p"
  have old: "wf_hm ?parts" "length ?parts < unat (c_total c)" "map_of ?parts (c_seq c) = None"
    "\<forall>(i, d) \<in> set ?parts. i < c_total c \<and> length d \<le> r_max_chunk_payload r"
    using assms by (auto simp: admitted_def admissible_def wf_chunk_def word_neq_0_conv unat_gt_0 partial_ok_def
        split: option.splits dest!: buffered_partial_ok)
  have sz: "(case map_of (r_buffers r) (c_fragment_id c) of None \<Rightarrow> 0 | Some p \<Rightarrow> p_size p) = hm_sum length ?parts"
    using assms by (auto simp: partial_ok_def split: option.splits dest!: buffered_partial_ok)
  have e: "p_parts (stored now c r) = hm_insert (c_seq c) (c_data c) ?parts"
    by (simp add: stored_def Let_def split: option.splits)
  show size: "p_size (stored now c r) =
      (case map_of (r_buffers r) (c_fragment_id c) of None \<Rightarrow> 0 | Some p \<Rightarrow> p_size p) + length (c_data c)"
    by (simp add: stored_def Let_def split: option.splits)
  then show "p_size (stored now c r) = hm_sum length (p_parts (stored now c r))"
    using hm_sum_insert [OF old(1), of length "c_seq c" "c_data c"] old(3) by (simp add: e sz)
  show "p_total (stored now c r) = c_total c"
    using assms by (auto simp: stored_def admitted_def admissible_def Let_def split: option.splits)
  show "wf_hm (p_parts (stored now c r))" "p_parts (stored now c r) \<noteq> []"
    "length (p_parts (stored now c r)) \<le> unat (c_total c)"
    using old by (simp_all add: e length_hm_insert flip: length_0_conv)
  show "\<forall>(i, d) \<in> set (p_parts (stored now c r)). i < c_total c \<and> length d \<le> r_max_chunk_payload r"
    using old assms(2) by (auto simp: e set_hm_insert admitted_def admissible_def wf_chunk_def)
qed

lemma all_parts_present:
  assumes "wf_hm m" "length m = unat tot" "\<forall>(i, d) \<in> set m. i < (tot :: u16)" "k < tot"
  shows "map_of m k \<noteq> None"
proof -
  have d: "distinct (map fst m)" using assms(1) by (simp add: wf_hm_def)
  have "card (unat ` set (map fst m)) = card (set (map fst m))"
    by (rule card_image) (auto simp: inj_on_def dest: unsigned_word_eqI)
  then have "card (unat ` set (map fst m)) = unat tot"
    using assms(2) distinct_card [OF d] by simp
  moreover have "unat ` set (map fst m) \<subseteq> {..<unat tot}"
    using assms(3) by (auto simp: word_less_nat_alt)
  ultimately have "unat ` set (map fst m) = {..<unat tot}"
    by (intro card_subset_eq) auto
  then show ?thesis
    using assms(4) by (auto simp: map_of_eq_None_iff word_less_nat_alt) (metis (no_types, lifting)
        imageE lessThan_iff unsigned_word_eqI)
qed

lemma settings_fields:
  "settings r' = settings r \<Longrightarrow> r_limit r' = r_limit r \<and> r_max_fragments r' = r_max_fragments r \<and>
     r_max_chunk_payload r' = r_max_chunk_payload r \<and>
     r_max_buffered_bytes r' = r_max_buffered_bytes r \<and> r_timeout r' = r_timeout r"
  by (simp add: settings_def)

lemma reasm_inv_shrunk:
  assumes "reasm_inv r" "settings r' = settings r" "r_evicted r' = r_evicted r"
    "r_evicted_order r' = r_evicted_order r" "r_buffers r' = hm_remove fid (r_buffers r)"
    "r_bytes r' = hm_sum p_size (r_buffers r')"
  shows "reasm_inv r'"
  using assms settings_fields [OF assms(2)] hm_sum_delete_le [of p_size fid "r_buffers r"]
    length_delete_le [of fid "r_buffers r"]
  by (auto simp: reasm_inv_def buffers_ok_def evicted_ok_def within_limits_def set_hm_remove
      split: option.splits)

lemma reasm_inv_grown:
  assumes "reasm_inv r" "settings r' = settings r" "r_evicted r' = r_evicted r"
    "r_evicted_order r' = r_evicted_order r" "r_buffers r' = hm_insert fid e (r_buffers r)"
    "r_bytes r' = hm_sum p_size (r_buffers r')" "map_of (r_evicted r) fid = None"
    "partial_ok (r_max_fragments r) (r_max_chunk_payload r) e" "length (r_buffers r') \<le> r_limit r"
    "case r_max_buffered_bytes r of None \<Rightarrow> True | Some m \<Rightarrow> r_bytes r' \<le> m"
  shows "reasm_inv r'"
  using assms settings_fields [OF assms(2)]
  by (auto simp: reasm_inv_def buffers_ok_def evicted_ok_def within_limits_def set_hm_insert)

lemma feed_store_inv:
  assumes "reasm_inv r" "admitted c r" "feed_store now c r = (r', out)"
  shows "reasm_inv r'" "settings r' = settings r"
proof -
  define r0 where "r0 = free_slot (c_fragment_id c) now r"
  define e where "e = stored now c r"
  note slot = free_slot_spec [OF assms(1), of "c_fragment_id c" now, folded r0_def]
  note st = stored_spec [OF assms(1,2), of now, folded e_def]
  have wf0: "wf_hm (r_buffers r0)" "r_bytes r0 = hm_sum p_size (r_buffers r0)"
    using slot(1) by (auto simp: reasm_inv_def buffers_ok_def)
  have old: "(case map_of (r_buffers r0) (c_fragment_id c) of None \<Rightarrow> 0 | Some p \<Rightarrow> p_size p)
      + length (c_data c) = p_size e"
    using slot(3) st(7) by simp
  show s: "settings r' = settings r"
    using assms(3) slot(2) by (auto simp: feed_store_alt settings_def r0_def split: if_splits)
  show "reasm_inv r'"
  proof (cases "length (p_parts e) = unat (p_total e)")
    case True
    then have r': "r_buffers r' = hm_remove (c_fragment_id c) (r_buffers r0)"
        "r_bytes r' = r_bytes r0 + length (c_data c) - p_size e"
        "r_evicted r' = r_evicted r0" "r_evicted_order r' = r_evicted_order r0"
      using assms(3) by (auto simp: feed_store_alt r0_def e_def)
    show ?thesis
      using hm_sum_remove [OF wf0(1), of p_size "c_fragment_id c"] wf0 old s slot(2) r'
      by (intro reasm_inv_shrunk [OF slot(1)]) (auto split: option.splits)
  next
    case False
    then have r': "r_buffers r' = hm_insert (c_fragment_id c) e (r_buffers r0)"
        "r_bytes r' = r_bytes r0 + length (c_data c)"
        "r_evicted r' = r_evicted r0" "r_evicted_order r' = r_evicted_order r0"
      using assms(3) by (auto simp: feed_store_alt r0_def e_def)
    have lim: "length (r_buffers r') \<le> r_limit r0"
      using slot(1,3,4) by (auto simp: r' length_hm_insert reasm_inv_def within_limits_def)
    have ok: "partial_ok (r_max_fragments r0) (r_max_chunk_payload r0) e"
      using st False assms(2) settings_fields [OF slot(2)] by (auto simp: partial_ok_def admitted_def admissible_def)
    have "r_bytes r' = hm_sum p_size (r_buffers r')"
      using hm_sum_insert [OF wf0(1), of p_size "c_fragment_id c" e] wf0(2) old
      by (simp add: r' split: option.splits)
    moreover have "case r_max_buffered_bytes r0 of None \<Rightarrow> True | Some m \<Rightarrow> r_bytes r' \<le> m"
      using assms(2) slot(7) settings_fields [OF slot(2)] by (auto simp: r' admitted_def admissible_def split: option.splits)
    ultimately show ?thesis
      using assms(2) slot r' lim ok s by (intro reasm_inv_grown [OF slot(1)]) (auto simp: admitted_def admissible_def)
  qed
qed

subsection \<open>Feeding a chunk\<close>

text \<open>\<open>feed\<close> either forgets some partials and returns nothing, or returns a single-chunk message, or
  forgets some partials and stores the chunk.\<close>

definition forgets :: "reassembler \<Rightarrow> reassembler \<Rightarrow> bool" where
  "forgets r r' \<longleftrightarrow> reasm_inv r' \<and> settings r' = settings r \<and> set (r_buffers r') \<subseteq> set (r_buffers r)"

lemma forgets_trans: "forgets r r1 \<Longrightarrow> forgets r1 r2 \<Longrightarrow> forgets r r2"
  by (auto simp: forgets_def)

lemma forgets_refl: "reasm_inv r \<Longrightarrow> forgets r r"
  by (simp add: forgets_def)

lemma feed_budget_cases:
  assumes "reasm_inv r" "admissible c r" "feed_budget now c r = (r', out)"
  shows "(out = None \<and> forgets r r') \<or>
    (\<exists>r1. forgets r r1 \<and> admitted c r1 \<and> feed_store now c r1 = (r', out) \<and>
       map_of (r_buffers r1) (c_fragment_id c) = map_of (r_buffers r) (c_fragment_id c))"
proof (cases "r_max_buffered_bytes r")
  case None
  then have "admitted c r" "feed_store now c r = (r', out)"
    using assms by (simp_all add: feed_budget_def admitted_def)
  then show ?thesis
    using forgets_refl [OF assms(1)] by blast
next
  case (Some m)
  obtain r1 ok where room: "make_room (c_fragment_id c) (length (c_data c)) m now r = (r1, ok)"
    by (metis surj_pair)
  note spec = make_room_spec [OF room assms(1)]
  then have f: "forgets r r1" by (auto simp: forgets_def)
  have "admitted c r1" if ok
    using that spec assms(2) Some settings_fields [of r1 r] by (auto simp: admitted_def admissible_def)
  then show ?thesis
    using assms Some room spec f
    by (cases ok) (auto simp: feed_budget_def forgets_refl split: if_splits)
qed

lemma feed_chunk_cases:
  assumes "reasm_inv r" "wf_chunk c" "c_total c \<le> r_max_fragments r"
    "map_of (r_evicted r) (c_fragment_id c) = None" "feed_chunk now c r = (r', out)"
  shows "(out = None \<and> forgets r r') \<or> (c_total c = 1 \<and> out = Some (c_data c) \<and> forgets r r') \<or>
    (\<exists>r1. forgets r r1 \<and> admitted c r1 \<and> feed_store now c r1 = (r', out))"
proof -
  define reset where "reset = (case map_of (r_buffers r) (c_fragment_id c) of
    Some p \<Rightarrow> p_total p \<noteq> c_total c | None \<Rightarrow> False)"
  define r1 where "r1 = (if reset then drop_partial (c_fragment_id c) r else r)"
  have f: "forgets r r1"
    using assms(1) by (auto simp: r1_def forgets_def reasm_inv_drop_partial set_hm_remove)
  have ev: "map_of (r_evicted r1) (c_fragment_id c) = None"
    using assms(4) by (simp add: r1_def)
  have fc: "feed_chunk now c r =
     (case map_of (r_buffers r1) (c_fragment_id c) of
        Some p \<Rightarrow> if map_of (p_parts p) (c_seq c) \<noteq> None then (r1, None)
          else if length (c_data c) > r_max_chunk_payload r1 then (r1, None) else feed_budget now c r1
      | None \<Rightarrow> if c_total c = 1 then (r1, Some (c_data c))
          else if length (c_data c) > r_max_chunk_payload r1 then (r1, None) else feed_budget now c r1)"
    by (auto simp: feed_chunk_def r1_def reset_def Let_def split: option.splits)
  have tot: "p_total p = c_total c" if "map_of (r_buffers r1) (c_fragment_id c) = Some p" for p
    using that by (auto simp: r1_def reset_def split: if_splits option.splits)
  consider "out = None" "r' = r1" | "c_total c = 1" "out = Some (c_data c)" "r' = r1"
    | "admissible c r1" "feed_budget now c r1 = (r', out)"
    using assms(2,3,5) tot ev settings_fields [of r1 r] f
    by (auto simp: fc admissible_def forgets_def split: option.splits if_splits)
  then show ?thesis
  proof cases
    case 3
    with f feed_budget_cases [of r1 c now r' out] show ?thesis
      by (metis forgets_def forgets_trans)
  qed (use f in auto)
qed

lemma feed_cases:
  assumes "reasm_inv r" "feed now b r = (r', out)"
  shows "(out = None \<and> forgets r r') \<or>
    (\<exists>c. parse_chunk b = Some c \<and> c_total c = 1 \<and> out = Some (c_data c) \<and> forgets r r') \<or>
    (\<exists>c r1. parse_chunk b = Some c \<and> forgets r r1 \<and> admitted c r1 \<and> feed_store now c r1 = (r', out))"
proof (cases "parse_chunk b")
  case None
  then show ?thesis using assms by (simp add: feed_def forgets_refl)
next
  case (Some c)
  have wf: "wf_chunk c" using parse_chunk_exact [OF Some] by simp
  have "set (r_buffers (gc now r)) \<subseteq> set (r_buffers r)"
  proof (rule subrelI)
    fix k p
    have wf: "wf_hm (r_buffers (gc now r))" "wf_hm (r_buffers r)"
      using gc_spec(1) [OF assms(1), of now] assms(1) by (simp_all add: reasm_inv_def buffers_ok_def)
    assume "(k, p) \<in> set (r_buffers (gc now r))"
    then have "map_of (r_buffers r) k = Some p"
      using gc_spec(3) [OF assms(1), of now k] wf
      by (auto simp flip: map_of_set_iff split: option.splits if_splits)
    then show "(k, p) \<in> set (r_buffers r)"
      using wf by (simp add: map_of_set_iff)
  qed
  then have g: "forgets r (gc now r)"
    using gc_spec(1,2) [OF assms(1)] by (simp add: forgets_def)
  show ?thesis
  proof (cases "c_total c > r_max_fragments r \<or> map_of (r_evicted (gc now r)) (c_fragment_id c) \<noteq> None")
    case True
    then show ?thesis
      using assms g by (auto simp: feed_def Some forgets_refl split: if_splits)
  next
    case False
    then have "feed_chunk now c (gc now r) = (r', out)"
      using assms(2) by (simp add: feed_def Some)
    moreover have "c_total c \<le> r_max_fragments (gc now r)"
      using False settings_fields [OF gc_spec(2) [OF assms(1), of now]] by (simp add: not_less)
    ultimately show ?thesis
      using feed_chunk_cases [of "gc now r" c now r' out] gc_spec(1) [OF assms(1)] wf False
        forgets_trans [OF g] Some by blast
  qed
qed

lemma feed_inv:
  assumes "reasm_inv r" "feed now b r = (r', out)"
  shows "reasm_inv r' \<and> settings r' = settings r"
  using feed_cases [OF assms] feed_store_inv by (metis forgets_def)

text \<open>A run of the reassembler on a sequence of timed inputs, with the output of each.\<close>

fun feeds :: "(instant \<times> bytes) list \<Rightarrow> reassembler \<Rightarrow> reassembler \<times> bytes option list" where
  "feeds [] r = (r, [])"
| "feeds ((now, b) # evs) r =
     (let (r1, out) = feed now b r; (r2, outs) = feeds evs r1 in (r2, out # outs))"

lemma feeds_inv: "reasm_inv r \<Longrightarrow> reasm_inv (fst (feeds evs r)) \<and> settings (fst (feeds evs r)) = settings r"
proof (induction evs arbitrary: r)
  case (Cons ev evs)
  obtain now b where ev: "ev = (now, b)" by (cases ev)
  obtain r1 out where f: "feed now b r = (r1, out)" by (metis surj_pair)
  with Cons feed_inv [OF Cons.prems f] show ?case
    by (simp add: ev split: prod.split) (metis fst_conv)
qed simp

lemma reasm_inv_new: "reasm_inv reassembler_new"
  by (simp add: reasm_inv_def buffers_ok_def evicted_ok_def within_limits_def reassembler_new_def
      DEFAULT_BUFFER_LIMIT_def)

lemma reasm_inv_for_chunk_size: "reasm_inv (for_chunk_size n)"
  using reasm_inv_new
  by (simp add: reasm_inv_def buffers_ok_def evicted_ok_def within_limits_def for_chunk_size_def Let_def
      with_max_buffered_bytes_def with_max_fragments_def with_max_chunk_payload_def reassembler_new_def)

lemma for_chunk_size_fields [simp]:
  "r_limit (for_chunk_size n) = DEFAULT_BUFFER_LIMIT"
  "r_max_fragments (for_chunk_size n) = 65535"
  "r_max_chunk_payload (for_chunk_size n) = max n 1"
  "r_max_buffered_bytes (for_chunk_size n) =
     Some (max LIBRARY_MAX_BUFFERED_BYTES (min (max n 1 * 65535) (2 ^ 64 - 1)))"
  "r_timeout (for_chunk_size n) = DEFAULT_REASSEMBLY_TIMEOUT"
  "r_buffers (for_chunk_size n) = []"
  by (simp_all add: for_chunk_size_def Let_def with_max_buffered_bytes_def with_max_fragments_def
      with_max_chunk_payload_def reassembler_new_def usize_saturating_mul_def WIRE_MAX_FRAGMENTS_def
      max_def word_le_nat_alt)

text \<open>C5. Memory of the reassembler is bounded against any traffic: after any sequence of inputs at
  any times (malformed, duplicated, hostile), a reassembler made by \<open>for_chunk_size\<close> holds at most
  256 partial messages, remembers at most 1024 evicted ids, its byte counter is the number of bytes
  it really holds, and that number is within its budget.\<close>

theorem reassembler_bounded:
  "let r = fst (feeds evs (for_chunk_size n)) in
     pending r \<le> DEFAULT_BUFFER_LIMIT \<and>
     length (r_evicted r) \<le> DEFAULT_EVICTED_MEMORY \<and>
     buffered_bytes r = hm_sum (\<lambda>p. hm_sum length (p_parts p)) (r_buffers r) \<and>
     buffered_bytes r \<le> max LIBRARY_MAX_BUFFERED_BYTES (min (max n 1 * 65535) (2 ^ 64 - 1))"
proof -
  define r where "r = fst (feeds evs (for_chunk_size n))"
  have inv: "reasm_inv r" and s: "settings r = settings (for_chunk_size n)"
    using feeds_inv [OF reasm_inv_for_chunk_size] by (auto simp: r_def)
  from settings_fields [OF s] have lim: "r_limit r = DEFAULT_BUFFER_LIMIT"
    and cap: "r_max_buffered_bytes r =
      Some (max LIBRARY_MAX_BUFFERED_BYTES (min (max n 1 * 65535) (2 ^ 64 - 1)))"
    by simp_all
  have "hm_sum p_size (r_buffers r) = hm_sum (\<lambda>p. hm_sum length (p_parts p)) (r_buffers r)"
    using inv unfolding hm_sum_def reasm_inv_def buffers_ok_def partial_ok_def
    by (intro arg_cong [of _ _ sum_list] map_cong refl) (auto simp: hm_sum_def)
  then show ?thesis
    using inv lim cap unfolding r_def [symmetric] Let_def
    by (simp add: reasm_inv_def buffers_ok_def evicted_ok_def within_limits_def pending_def buffered_bytes_def)
qed

section \<open>Integrity\<close>

text \<open>Every buffered part is a chunk of the history \<open>H\<close>; an output is the concatenation of the data
  of all the chunks of one message of the history, in order.\<close>

definition from_history :: "chunk set \<Rightarrow> reassembler \<Rightarrow> bool" where
  "from_history H r \<longleftrightarrow> (\<forall>f p i d. (f, p) \<in> set (r_buffers r) \<longrightarrow> (i, d) \<in> set (p_parts p) \<longrightarrow>
     \<lparr>c_fragment_id = f, c_seq = i, c_total = p_total p, c_data = d\<rparr> \<in> H)"

definition assembled_from :: "chunk set \<Rightarrow> chunk \<Rightarrow> bytes \<Rightarrow> bool" where
  "assembled_from H c m \<longleftrightarrow> (\<exists>ds. m = concat ds \<and> length ds = unat (c_total c) \<and>
     (\<forall>i < unat (c_total c). \<lparr>c_fragment_id = c_fragment_id c, c_seq = of_nat i,
        c_total = c_total c, c_data = ds ! i\<rparr> \<in> H))"

lemma from_history_forgets: "from_history H r \<Longrightarrow> forgets r r' \<Longrightarrow> from_history H r'"
  unfolding from_history_def forgets_def by blast

lemma feed_store_history:
  assumes "reasm_inv r" "admitted c r" "feed_store now c r = (r', out)" "from_history H r" "c \<in> H"
  shows "from_history H r' \<and> (\<forall>m. out = Some m \<longrightarrow> assembled_from H c m)"
proof -
  define r0 where "r0 = free_slot (c_fragment_id c) now r"
  define e where "e = stored now c r"
  note slot = free_slot_spec [OF assms(1), of "c_fragment_id c" now, folded r0_def]
  note st = stored_spec [OF assms(1,2), of now, folded e_def]
  have wf: "wf_hm (r_buffers r)" "wf_hm (r_buffers r0)"
    using assms(1) slot(1) by (auto simp: reasm_inv_def buffers_ok_def)
  have H: "\<lparr>c_fragment_id = c_fragment_id c, c_seq = i, c_total = c_total c, c_data = d\<rparr> \<in> H"
    if "(i, d) \<in> set (p_parts e)" for i d
  proof (cases "map_of (r_buffers r) (c_fragment_id c)")
    case None
    then show ?thesis using that assms(5) by (simp add: e_def stored_def)
  next
    case (Some p)
    then have "(c_fragment_id c, p) \<in> set (r_buffers r)" "wf_hm (p_parts p)" "p_total p = c_total c"
      using assms(2) map_of_SomeD [OF Some] buffered_partial_ok [OF assms(1) Some]
      by (simp_all add: Some partial_ok_def admitted_def admissible_def)
    with that Some assms(4,5) show ?thesis
      by (fastforce simp: e_def stored_def set_hm_insert from_history_def)
  qed
  have "r_buffers r' = hm_insert (c_fragment_id c) e (r_buffers r0) \<or>
      r_buffers r' = hm_remove (c_fragment_id c) (r_buffers r0)"
    using assms(3) by (auto simp: feed_store_alt simp flip: r0_def e_def split: if_splits)
  then have sub: "set (r_buffers r') \<subseteq> insert (c_fragment_id c, e) (set (r_buffers r))"
    using slot(6) wf(2) by (auto simp: set_hm_insert set_hm_remove)
  have "from_history H r'"
    unfolding from_history_def
  proof (intro allI impI)
    fix f p i d
    assume "(f, p) \<in> set (r_buffers r')" and id: "(i, d) \<in> set (p_parts p)"
    then consider "f = c_fragment_id c" "p = e" | "(f, p) \<in> set (r_buffers r)"
      using sub by auto
    then show "\<lparr>c_fragment_id = f, c_seq = i, c_total = p_total p, c_data = d\<rparr> \<in> H"
      using H st(1) assms(4) id by cases (simp_all add: from_history_def)
  qed
  moreover have "assembled_from H c m" if "out = Some m" for m
  proof -
    from that assms(3) st(1) have full: "length (p_parts e) = unat (c_total c)"
      and m: "m = concat (map (\<lambda>i. the (map_of (p_parts e) (of_nat i))) [0..<unat (c_total c)])"
      by (auto simp: feed_store_alt simp flip: e_def split: if_splits)
    have "(of_nat i, the (map_of (p_parts e) (of_nat i))) \<in> set (p_parts e)" if "i < unat (c_total c)" for i
    proof -
      have "(of_nat i :: u16) < c_total c" using that by simp
      with all_parts_present [OF st(2) full, of "of_nat i"] st(6) show ?thesis
        by (force simp: map_of_set_iff [OF st(2), symmetric])
    qed
    then show ?thesis
      unfolding assembled_from_def m using H
      by (intro exI conjI refl) auto
  qed
  ultimately show ?thesis by simp
qed

lemma feed_history:
  assumes "reasm_inv r" "from_history H r" "feed now b r = (r', out)"
    "\<And>c. parse_chunk b = Some c \<Longrightarrow> c \<in> H"
  shows "from_history H r' \<and> 
    (\<forall>m. out = Some m \<longrightarrow> (\<exists>c. parse_chunk b = Some c \<and> assembled_from H c m))"
proof -
  consider "out = None" "forgets r r'"
    | c where "parse_chunk b = Some c" "c_total c = 1" "out = Some (c_data c)" "forgets r r'"
    | c r1 where "parse_chunk b = Some c" "forgets r r1" "admitted c r1" "feed_store now c r1 = (r', out)"
    using feed_cases [OF assms(1,3)] by blast
  then show ?thesis
  proof cases
    case (2 c)
    from 2(1) have "wf_chunk c" by (blast dest: parse_chunk_exact)
    then have "c_seq c = 0"
      using 2(2) by (simp add: wf_chunk_def)
    then have "\<lparr>c_fragment_id = c_fragment_id c, c_seq = 0, c_total = 1, c_data = c_data c\<rparr> = c"
      using 2(2) by (metis chunk_eta)
    then have "assembled_from H c (c_data c)"
      using assms(4) [OF 2(1)] 2(2) unfolding assembled_from_def
      by (intro exI [of _ "[c_data c]"]) simp
    with 2 from_history_forgets [OF assms(2)] show ?thesis by simp
  next
    case (3 c r1)
    then show ?thesis
      using feed_store_history [of r1 c now r' out H] from_history_forgets [OF assms(2)] assms(4)
      by (simp add: forgets_def)
  qed (use assms(2) in \<open>simp add: from_history_forgets\<close>)
qed

definition fed :: "(instant \<times> bytes) list \<Rightarrow> chunk set" where
  "fed evs = {c. \<exists>(now, b) \<in> set evs. parse_chunk b = Some c}"

lemma fed_iff: "c \<in> fed evs \<longleftrightarrow> (\<exists>now b. (now, b) \<in> set evs \<and> parse_chunk b = Some c)"
  by (auto simp: fed_def)

lemma feeds_history:
  assumes "reasm_inv r" "from_history H r" "fed evs \<subseteq> H" "m \<in> set (snd (feeds evs r))" "m = Some msg"
  shows "\<exists>c. assembled_from H c msg"
  using assms
proof (induction evs arbitrary: r)
  case (Cons ev evs)
  obtain now b where ev: "ev = (now, b)" by (cases ev)
  obtain r1 out where f: "feed now b r = (r1, out)" by (metis surj_pair)
  have "from_history H r1 \<and> (\<forall>m. out = Some m \<longrightarrow> (\<exists>c. assembled_from H c m))"
    using feed_history [OF Cons.prems(1,2) f] Cons.prems(3) by (auto simp: fed_def ev)
  moreover have "m = out \<or> m \<in> set (snd (feeds evs r1))"
    using Cons.prems(4) by (auto simp: ev f split: prod.splits)
  moreover have "fed evs \<subseteq> H" using Cons.prems(3) by (auto simp: fed_def)
  ultimately show ?case
    using Cons.IH [of r1] feed_inv [OF Cons.prems(1) f] Cons.prems(5) by blast
qed simp

text \<open>C18. Integrity of reassembly: whatever the network delivers and whenever, a message that the
  reassembler hands out is the concatenation, in order, of the data of all the chunks of one
  fragment id and one total that were fed to it; chunks of different messages are never mixed and
  none is missing or repeated.\<close>

theorem reassembled_from_fed_chunks:
  assumes "Some msg \<in> set (snd (feeds evs (for_chunk_size n)))"
  shows "\<exists>fid tot ds. msg = concat ds \<and> length ds = unat tot \<and>
    (\<forall>i < unat tot. \<exists>now b. (now, b) \<in> set evs \<and>
       parse_chunk b = Some \<lparr>c_fragment_id = fid, c_seq = of_nat i, c_total = tot, c_data = ds ! i\<rparr>)"
proof -
  have "from_history (fed evs) (for_chunk_size n)"
    by (simp add: from_history_def)
  then obtain c where "assembled_from (fed evs) c msg"
    using feeds_history [OF reasm_inv_for_chunk_size _ _ assms refl] by blast
  then show ?thesis
    unfolding assembled_from_def fed_iff by blast
qed

lemma feed_single:
  assumes "length fid = 16" "r_buffers r = []" "r_evicted r = []" "r_evicted_order r = []" "r_max_fragments r \<noteq> 0"
  shows "feed now (pack_chunk fid 0 1 d) r = (r, Some d)"
  using assms by (simp add: feed_def parse_pack_chunk gc_def feed_chunk_def Let_def not_less)

lemma for_chunk_size_evicted [simp]:
  "r_evicted (for_chunk_size n) = []" "r_evicted_order (for_chunk_size n) = []"
  by (simp_all add: for_chunk_size_def Let_def with_max_buffered_bytes_def with_max_fragments_def
      with_max_chunk_payload_def reassembler_new_def)

theorem reassembled_from_fed_chunks_witness:
  "\<exists>fid tot ds. [7] = concat ds \<and> length ds = unat tot \<and>
    (\<forall>i < unat tot. \<exists>now b. (now, b) \<in> set [(0 :: instant, pack_chunk (replicate 16 0) 0 1 [7])] \<and>
       parse_chunk b = Some \<lparr>c_fragment_id = fid, c_seq = of_nat i, c_total = tot, c_data = ds ! i\<rparr>)"
  by (rule reassembled_from_fed_chunks [of _ _ 1]) (simp add: feed_single)

section \<open>Completeness\<close>

lemma feed_store_progress:
  assumes "reasm_inv r" "admitted c r" "feed_store now c r = (r', out)"
  shows "if length (p_parts (stored now c r)) = unat (c_total c)
    then out = Some (concat (map (\<lambda>i. the (map_of (p_parts (stored now c r)) (of_nat i)))
           [0..<unat (c_total c)]))
    else out = None \<and> map_of (r_buffers r') (c_fragment_id c) = Some (stored now c r) \<and>
      map_of (r_evicted r') (c_fragment_id c) = None"
proof -
  have "map_of (r_evicted (free_slot (c_fragment_id c) now r)) (c_fragment_id c) = None"
    using assms(2) free_slot_spec(5) [OF assms(1)] by (simp add: admitted_def admissible_def)
  moreover have "r' = fst (feed_store now c r)" "out = snd (feed_store now c r)"
    using assms(3) by simp_all
  ultimately show ?thesis
    using stored_spec(1) [OF assms(1,2), of now] by (simp add: feed_store_alt)
qed

text \<open>The reassembler holds the parts \<open>S\<close> of the message with the data \<open>ds\<close>, since \<open>t0\<close>.\<close>

definition holding :: "fragment_id \<Rightarrow> u16 \<Rightarrow> bytes list \<Rightarrow> instant \<Rightarrow> nat set \<Rightarrow> reassembler \<Rightarrow> bool" where
  "holding fid tot ds t0 S r \<longleftrightarrow> reasm_inv r \<and> map_of (r_evicted r) fid = None \<and>
     (case map_of (r_buffers r) fid of
        None \<Rightarrow> S = {}
      | Some p \<Rightarrow> S \<noteq> {} \<and> p_total p = tot \<and> p_first_seen p = t0 \<and>
          (\<forall>k. map_of (p_parts p) k = (if unat k \<in> S then Some (ds ! unat k) else None)))"

text \<open>The message is within the settings of the reassembler.\<close>

definition fits :: "u16 \<Rightarrow> bytes list \<Rightarrow> reassembler \<Rightarrow> bool" where
  "fits tot ds r \<longleftrightarrow> length ds = unat tot \<and> tot \<le> r_max_fragments r \<and>
     (\<forall>d \<in> set ds. length d \<le> r_max_chunk_payload r) \<and>
     (case r_max_buffered_bytes r of None \<Rightarrow> True | Some m \<Rightarrow> length (concat ds) \<le> m)"

lemma parts_size:
  fixes tot :: u16
  assumes "wf_hm m" "\<forall>k :: u16. map_of m k = (if unat k \<in> S then Some (ds ! unat k) else None)"
    "S \<subseteq> {..<unat tot}" "length ds = unat tot"
  shows "length m = card S" "hm_sum length m = (\<Sum>i \<in> S. length (ds ! i))"
proof -
  have inj: "inj_on unat (dom (map_of m))"
    by (auto simp: inj_on_def dest: unsigned_word_eqI)
  have "unat ` dom (map_of m) = S"
  proof (intro equalityI subsetI)
    fix i assume "i \<in> S"
    then have "i < unat tot" using assms(3) by auto
    then have "unat (of_nat i :: u16) = i" by (rule unat_of_nat_index)
    with \<open>i \<in> S\<close> assms(2) show "i \<in> unat ` dom (map_of m)"
      by (intro image_eqI [of _ _ "of_nat i"]) (simp_all add: dom_def)
  qed (use assms(2) in \<open>auto split: if_splits\<close>)
  then have S: "S = unat ` dom (map_of m)" ..
  have "length (the (map_of m k)) = length (ds ! unat k)" if "k \<in> dom (map_of m)" for k
    using that assms(2) by (auto simp: dom_def split: if_splits)
  then have "hm_sum length m = (\<Sum>k \<in> dom (map_of m). length (ds ! unat k))"
    using assms(1) by (simp add: hm_sum_dom)
  then show "hm_sum length m = (\<Sum>i \<in> S. length (ds ! i))"
    using sum.reindex [OF inj, of "\<lambda>i. length (ds ! i)"] by (simp add: S)
  show "length m = card S"
    using card_image [OF inj] assms(1) by (simp add: S length_hm_dom)
qed

lemma sum_parts_le:
  assumes "S \<subseteq> {..<length ds}"
  shows "(\<Sum>i \<in> S. length (ds ! i)) \<le> length (concat ds)"
proof -
  have "length (concat ds) = (\<Sum>i \<in> {..<length ds}. length (ds ! i))"
    by (simp add: length_concat sum_list_sum_nth lessThan_atLeast0)
  then show ?thesis
    using assms by (simp add: sum_mono2)
qed

lemma holding_gc:
  assumes "holding fid tot ds t0 S r" "now - t0 \<le> r_timeout r"
  shows "holding fid tot ds t0 S (gc now r)" "settings (gc now r) = settings r"
proof -
  from assms have inv: "reasm_inv r" and ev: "map_of (r_evicted r) fid = None"
    by (auto simp: holding_def)
  show "settings (gc now r) = settings r" by (rule gc_spec(2) [OF inv])
  have "map_of (r_evicted (gc now r)) fid = None"
    using gc_spec(4) [OF inv, of now fid] ev by (cases "map_of (r_evicted (gc now r)) fid") auto
  then show "holding fid tot ds t0 S (gc now r)"
    using assms gc_spec(1) [OF inv, of now] gc_spec(3) [OF inv, of now fid]
    by (auto simp: holding_def split: option.splits)
qed

lemma holding_size:
  assumes "holding fid tot ds t0 S r" "S \<subseteq> {..<unat tot}" "length ds = unat tot"
  shows "(case map_of (r_buffers r) fid of None \<Rightarrow> 0 | Some p \<Rightarrow> p_size p) = (\<Sum>i \<in> S. length (ds ! i))"
proof (cases "map_of (r_buffers r) fid")
  case (Some p)
  then have "partial_ok (r_max_fragments r) (r_max_chunk_payload r) p"
    using assms(1) buffered_partial_ok by (auto simp: holding_def)
  then show ?thesis
    using Some assms parts_size [of "p_parts p" S ds tot] by (simp add: holding_def partial_ok_def)
qed (use assms in \<open>simp add: holding_def\<close>)

lemma stored_parts:
  assumes "holding fid tot ds t0 S r" "c_fragment_id c = fid" "c_seq c = of_nat i" "c_data c = ds ! i"
    "i < unat tot" "S \<subseteq> {..<unat tot}"
  shows "map_of (p_parts (stored now c r)) k = (if unat k \<in> insert i S then Some (ds ! unat k) else None)"
proof -
  have "k = of_nat i \<longleftrightarrow> unat k = i"
    using unat_of_nat_index [OF assms(5)] by auto
  then show ?thesis
    using assms by (auto simp: stored_def holding_def Let_def split: option.splits)
qed

lemma feed_budget_admits:
  assumes "reasm_inv r" "admissible c r"
    "case r_max_buffered_bytes r of None \<Rightarrow> True | Some m \<Rightarrow>
       (case map_of (r_buffers r) (c_fragment_id c) of None \<Rightarrow> 0 | Some p \<Rightarrow> p_size p) + length (c_data c) \<le> m"
  obtains r1 where "reasm_inv r1" "settings r1 = settings r" "admitted c r1"
    "feed_budget now c r = feed_store now c r1"
    "map_of (r_buffers r1) (c_fragment_id c) = map_of (r_buffers r) (c_fragment_id c)"
proof (cases "r_max_buffered_bytes r")
  case None
  then show thesis
    using that [of r] assms by (simp add: feed_budget_def admitted_def)
next
  case (Some m)
  obtain r1 ok where room: "make_room (c_fragment_id c) (length (c_data c)) m now r = (r1, ok)"
    by (metis surj_pair)
  have ok using make_room_fits [OF room assms(1)] assms(3) Some by simp
  with make_room_spec [OF room assms(1)] have spec: "reasm_inv r1" "settings r1 = settings r"
    "r_bytes r1 + length (c_data c) \<le> m"
    "map_of (r_buffers r1) (c_fragment_id c) = map_of (r_buffers r) (c_fragment_id c)"
    "map_of (r_evicted r) (c_fragment_id c) = None \<longrightarrow> map_of (r_evicted r1) (c_fragment_id c) = None"
    by auto
  moreover have "admitted c r1"
    using assms(2) spec Some settings_fields [OF spec(2)] by (simp add: admitted_def admissible_def)
  moreover have "feed_budget now c r = feed_store now c r1"
    using room \<open>ok\<close> Some assms(3) by (auto simp: feed_budget_def)
  ultimately show thesis using that by blast
qed

lemma holding_same:
  "holding fid tot ds t0 S r \<Longrightarrow> reasm_inv r' \<Longrightarrow> map_of (r_evicted r') fid = None \<Longrightarrow>
     map_of (r_buffers r') fid = map_of (r_buffers r) fid \<Longrightarrow> holding fid tot ds t0 S r'"
  by (simp add: holding_def)

lemma holding_store:
  assumes h: "holding fid tot ds t0 S r" and i: "i < unat tot" "i \<notin> S" "S \<subseteq> {..<unat tot}"
    and len: "length ds = unat tot" and now: "S = {} \<Longrightarrow> now = t0"
    and c: "c = \<lparr>c_fragment_id = fid, c_seq = of_nat i, c_total = tot, c_data = ds ! i\<rparr>"
    and a: "admitted c r" and fs: "feed_store now c r = (r', out)"
  shows "if insert i S = {..<unat tot} then out = Some (concat ds)
    else out = None \<and> holding fid tot ds t0 (insert i S) r'"
proof -
  have inv: "reasm_inv r" using h by (simp add: holding_def)
  note st = stored_spec [OF inv a, of now]
  have parts: "map_of (p_parts (stored now c r)) k =
      (if unat k \<in> insert i S then Some (ds ! unat k) else None)" for k
    using stored_parts [OF h, of c i now k] i by (simp add: c)
  have sub: "insert i S \<subseteq> {..<unat tot}" using i by auto
  have "length (p_parts (stored now c r)) = card (insert i S)"
    by (rule parts_size(1) [OF st(2) _ sub len]) (rule allI, rule parts)
  then have full: "length (p_parts (stored now c r)) = unat tot \<longleftrightarrow> insert i S = {..<unat tot}"
    using card_subset_eq [OF finite_lessThan sub] by (metis card_lessThan)
  have first: "p_first_seen (stored now c r) = t0"
    using h now by (auto simp: stored_def holding_def c Let_def split: option.splits)
  note prog = feed_store_progress [OF inv a fs]
  show ?thesis
  proof (cases "insert i S = {..<unat tot}")
    case True
    have "map (\<lambda>j. the (map_of (p_parts (stored now c r)) (of_nat j))) [0..<unat tot] = map ((!) ds) [0..<unat tot]"
      using parts True by (intro map_cong) (auto simp: unat_of_nat_index)
    also have "\<dots> = ds"
      using map_nth [of ds] len by simp
    finally have "map (\<lambda>j. the (map_of (p_parts (stored now c r)) (of_nat j))) [0..<unat tot] = ds" .
    then show ?thesis
      using prog full True by (simp add: c)
  next
    case False
    then show ?thesis
      using prog full feed_store_inv(1) [OF inv a fs] st(1) first parts by (simp add: c holding_def)
  qed
qed

text \<open>One chunk of the message arrives.\<close>

lemma holding_step:
  assumes h: "holding fid tot ds t0 S r" and f: "fits tot ds r" and len: "length fid = 16"
    and i: "i < unat tot" "S \<subset> {..<unat tot}" and now: "now - t0 \<le> r_timeout r" "S = {} \<Longrightarrow> now = t0"
    and fd: "feed now (pack_chunk fid (of_nat i) tot (ds ! i)) r = (r', out)"
  shows "if insert i S = {..<unat tot} then out = Some (concat ds)
    else out = None \<and> holding fid tot ds t0 (insert i S) r' \<and> settings r' = settings r"
proof -
  define c where "c = \<lparr>c_fragment_id = fid, c_seq = of_nat i, c_total = tot, c_data = ds ! i\<rparr>"
  define g where "g = gc now r"
  have c: "c_fragment_id c = fid" "c_seq c = of_nat i" "c_total c = tot" "c_data c = ds ! i" "wf_chunk c"
    using i len by (auto simp: c_def wf_chunk_def)
  have parse: "parse_chunk (pack_chunk fid (of_nat i) tot (ds ! i)) = Some c"
    using i len by (simp add: c_def parse_pack_chunk)
  have hg: "holding fid tot ds t0 S g" and sg: "settings g = settings r"
    using holding_gc [OF h now(1)] by (simp_all add: g_def)
  note inv = feed_inv [OF _ fd]
  have fg: "fits tot ds g" using f settings_fields [OF sg] by (simp add: fits_def)
  have "\<not> c_total c > r_max_fragments r" "map_of (r_evicted g) (c_fragment_id c) = None"
    using f hg c by (simp_all add: fits_def holding_def not_less)
  then have fc: "feed_chunk now c g = (r', out)"
    using fd by (simp add: feed_def parse Let_def g_def)
  have gf: "length ds = unat tot" "tot \<le> r_max_fragments g" "length (ds ! i) \<le> r_max_chunk_payload g"
    using fg i by (auto simp: fits_def)
  show ?thesis
  proof (cases "i \<in> S")
    case True
    then have "r' = g" "out = None"
      using fc hg unat_of_nat_index [OF i(1)]
      by (auto simp: feed_chunk_def holding_def c Let_def split: option.splits)
    with True i hg sg show ?thesis by (auto simp: insert_absorb)
  next
    case new: False
    show ?thesis
    proof (cases "S = {} \<and> tot = 1")
      case True
      then have "out = Some (ds ! i)"
        using fc hg by (auto simp: feed_chunk_def holding_def c Let_def split: option.splits)
      moreover have "i = 0" "ds = [ds ! 0]"
        using True i gf(1) by (auto simp: length_Suc_conv)
      moreover have "insert i S = {..<unat tot}"
        using True \<open>i = 0\<close> by auto
      ultimately show ?thesis by simp (metis append_Nil2 concat.simps)
    next
      case False
      have adm: "admissible c g"
        using hg c gf new False unat_of_nat_index [OF i(1)]
        by (auto simp: admissible_def holding_def split: option.splits)
      have fb: "feed_budget now c g = (r', out)"
        using fc hg new False gf c unat_of_nat_index [OF i(1)]
        by (auto simp: feed_chunk_def holding_def Let_def split: option.splits if_splits)
      have "(\<Sum>j \<in> S. length (ds ! j)) + length (ds ! i) \<le> length (concat ds)"
        using sum_parts_le [of "insert i S" ds] i new gf(1) finite_subset [of S "{..<unat tot}"]
        by (auto simp: add.commute)
      then have "case r_max_buffered_bytes g of None \<Rightarrow> True | Some m \<Rightarrow>
         (case map_of (r_buffers g) (c_fragment_id c) of None \<Rightarrow> 0 | Some p \<Rightarrow> p_size p) + length (c_data c) \<le> m"
        using fg holding_size [OF hg _ gf(1)] i by (auto simp: c fits_def split: option.splits)
      then obtain r1 where r1: "reasm_inv r1" "settings r1 = settings g" "admitted c r1"
        "feed_store now c r1 = (r', out)" "map_of (r_buffers r1) fid = map_of (r_buffers g) fid"
        using feed_budget_admits [OF _ adm, of now] hg fb c(1) unfolding holding_def by metis
      have "holding fid tot ds t0 S r1"
        using holding_same [OF hg] r1 c(1) by (simp add: admitted_def admissible_def)
      with holding_store [OF _ i(1) new _ gf(1) now(2) c_def r1(3,4)] feed_store_inv(2) [OF r1(1,3,4)] i r1(2) sg
      show ?thesis by auto
    qed
  qed
qed

lemma holding_feeds:
  assumes "holding fid tot ds t0 S r" "fits tot ds r" "length fid = 16"
    "\<forall>(t, i) \<in> set js. t - t0 \<le> r_timeout r" "S \<union> snd ` set js \<subset> {..<unat tot}"
    "S = {} \<longrightarrow> js \<noteq> [] \<longrightarrow> fst (hd js) = t0"
    "feeds (map (\<lambda>(t, i). (t, pack_chunk fid (of_nat i) tot (ds ! i))) js) r = (r', outs)"
  shows "outs = replicate (length js) None \<and> holding fid tot ds t0 (S \<union> snd ` set js) r' \<and> settings r' = settings r"
  using assms
proof (induction js arbitrary: S r outs)
  case (Cons x js)
  obtain t i where x: "x = (t, i)" by (cases x)
  obtain r1 out where f: "feed t (pack_chunk fid (of_nat i) tot (ds ! i)) r = (r1, out)"
    by (metis surj_pair)
  obtain outs' where rest: "outs = out # outs'"
    "feeds (map (\<lambda>(t, i). (t, pack_chunk fid (of_nat i) tot (ds ! i))) js) r1 = (r', outs')"
    using Cons.prems(7) by (auto simp: x f split: prod.splits)
  have ne: "insert i S \<noteq> {..<unat tot}" and i: "i < unat tot" "S \<subset> {..<unat tot}"
    using Cons.prems(5) by (auto simp: x)
  have t: "t - t0 \<le> r_timeout r" "S = {} \<Longrightarrow> t = t0"
    using Cons.prems(4,6) by (simp_all add: x)
  from holding_step [OF Cons.prems(1-3) i t f] ne
  have step: "out = None" "holding fid tot ds t0 (insert i S) r1" "settings r1 = settings r"
    by simp_all
  have "fits tot ds r1" "r_timeout r1 = r_timeout r"
    using Cons.prems(2) settings_fields [OF step(3)] by (simp_all add: fits_def)
  then show ?case
    using Cons.IH [OF step(2) _ Cons.prems(3) _ _ _ rest(2)] Cons.prems(4,5) step rest(1) by (simp add: x)
qed simp

lemma feeds_append:
  "feeds (xs @ ys) r = (let (r1, o1) = feeds xs r; (r2, o2) = feeds ys r1 in (r2, o1 @ o2))"
  by (induction xs r rule: feeds.induct) (auto simp: Let_def split: prod.splits)

lemma feeds_message:
  assumes "holding fid tot ds (fst (hd (js @ [(t, i)]))) {} r" "fits tot ds r" "length fid = 16"
    "\<forall>(u, j) \<in> set (js @ [(t, i)]). u - fst (hd (js @ [(t, i)])) \<le> r_timeout r"
    "snd ` set (js @ [(t, i)]) = {..<unat tot}" "i \<notin> snd ` set js"
  shows "snd (feeds (map (\<lambda>(t, i). (t, pack_chunk fid (of_nat i) tot (ds ! i))) (js @ [(t, i)])) r)
    = replicate (length js) None @ [Some (concat ds)]"
proof -
  let ?t0 = "fst (hd (js @ [(t, i)]))"
  obtain r1 outs where f: "feeds (map (\<lambda>(t, i). (t, pack_chunk fid (of_nat i) tot (ds ! i))) js) r = (r1, outs)"
    by (rule prod.exhaust)
  have all: "insert i (snd ` set js) = {..<unat tot}" using assms(5) by simp
  then have sub: "snd ` set js \<subset> {..<unat tot}" and i: "i < unat tot"
    using assms(6) by blast+
  have t: "\<forall>(u, j) \<in> set js. u - ?t0 \<le> r_timeout r" "t - ?t0 \<le> r_timeout r"
    using assms(4) by simp_all
  have "{} = {} \<longrightarrow> js \<noteq> [] \<longrightarrow> fst (hd js) = ?t0" by (simp add: hd_append)
  from holding_feeds [OF assms(1-3) t(1) _ this f] sub
  have 1: "outs = replicate (length js) None" "holding fid tot ds ?t0 (snd ` set js) r1" "settings r1 = settings r"
    by simp_all
  obtain r2 out where g: "feed t (pack_chunk fid (of_nat i) tot (ds ! i)) r1 = (r2, out)"
    by (metis surj_pair)
  have "fits tot ds r1" "t - ?t0 \<le> r_timeout r1" "snd ` set js = {} \<Longrightarrow> t = ?t0"
    using assms(2) t(2) settings_fields [OF 1(3)] by (simp_all add: fits_def)
  from holding_step [OF 1(2) this(1) assms(3) i sub this(2,3) g] all
  have "out = Some (concat ds)" by simp
  then show ?thesis
    using f g 1(1) by (simp add: feeds_append)
qed

lemma feeds_fragments:
  assumes frag: "fragment payload cs fid = Some pkts" and fid: "length fid = 16" and cs: "cs < 2 ^ 48"
    and r: "r = fst (feeds earlier (for_chunk_size cs))"
    and fresh: "map_of (r_buffers r) fid = None" "map_of (r_evicted r) fid = None"
    and sched: "sched = js @ [(t, i)]" "\<forall>(u, j) \<in> set sched. u - fst (hd sched) \<le> DEFAULT_REASSEMBLY_TIMEOUT"
    and idx: "snd ` set sched = {..<length pkts}" "i \<notin> snd ` set js"
  shows "snd (feeds (map (\<lambda>(t, i). (t, pkts ! i)) sched) r) = replicate (length js) None @ [Some payload]"
proof -
  let ?ds = "pieces cs payload" and ?tot = "of_nat (length (pieces cs payload)) :: u16"
  have pos: "0 < cs" "length payload \<le> 65535 * cs"
    and pkts: "pkts = map (\<lambda>i. pack_chunk fid (of_nat i) ?tot (?ds ! i)) [0..<length ?ds]"
    using frag by (auto simp: fragment_eq split: if_splits)
  have "length ?ds \<le> 65535"
    using length_pieces_le [of cs payload 65535] pos by (auto simp: pieces_def)
  then have tot: "unat ?tot = length ?ds" by (simp add: unat_of_nat)
  have inv: "reasm_inv r" and s: "settings r = settings (for_chunk_size cs)"
    using feeds_inv [OF reasm_inv_for_chunk_size] by (auto simp: r)
  have eq: "map (\<lambda>(t, i). (t, pkts ! i)) sched
      = map (\<lambda>(t, i). (t, pack_chunk fid (of_nat i) ?tot (?ds ! i))) sched"
  proof (rule map_cong [OF refl])
    fix x assume "x \<in> set sched"
    then have "snd x < length pkts" using idx(1) by force
    then show "(case x of (t, i) \<Rightarrow> (t, pkts ! i))
        = (case x of (t, i) \<Rightarrow> (t, pack_chunk fid (of_nat i) ?tot (?ds ! i)))"
      by (cases x) (simp add: pkts)
  qed
  have h: "holding fid ?tot ?ds (fst (hd sched)) {} r"
    using inv fresh by (simp add: holding_def)
  have mx: "max cs 1 = cs" using pos by simp
  have "length payload \<le> max LIBRARY_MAX_BUFFERED_BYTES (min (cs * 65535) (2 ^ 64 - 1))"
    using pos cs by (simp add: le_max_iff_disj)
  then have f: "fits ?tot ?ds r"
    using tot pieces_spec [OF pos(1)] settings_fields [OF s] \<open>length ?ds \<le> 65535\<close>
    unfolding for_chunk_size_fields mx by (simp add: fits_def word_le_nat_alt)
  show ?thesis
    unfolding eq unfolding sched(1)
    using feeds_message [OF h [unfolded sched(1)] f fid] sched idx tot pieces_spec(1) [OF pos(1)]
      settings_fields [OF s] by (simp add: pkts)
qed

text \<open>C2. Fragmentation round trip: a reassembler made for the sender's chunk size, after any earlier
  traffic, that gets the chunks \<open>fragment\<close> made of a payload, in any order and with any repetition,
  within the timeout, returns nothing until the last missing chunk arrives and then returns exactly
  the payload.\<close>

theorem fragment_reassemble:
  assumes frag: "fragment payload cs fid = Some pkts" and fid: "length fid = 16" and cs: "cs < 2 ^ 48"
    and r: "r = fst (feeds earlier (for_chunk_size cs))"
    and fresh: "map_of (r_buffers r) fid = None" "map_of (r_evicted r) fid = None"
    and sched: "sched = js @ [(t, i)]" "\<forall>(u, j) \<in> set sched. u - fst (hd sched) \<le> DEFAULT_REASSEMBLY_TIMEOUT"
    and idx: "snd ` set sched = {..<length pkts}" "i \<notin> snd ` set js"
  shows "snd (feeds (map (\<lambda>(t, i). (t, pkts ! i)) sched) r) = replicate (length js) None @ [Some payload]"
  by (rule feeds_fragments [OF assms])

theorem fragment_reassemble_witness:
  "snd (feeds (map (\<lambda>(t, i). (t, the (fragment [1, 2, 3] 2 (replicate 16 0)) ! i)) [(5, 1), (6, 1), (7, 0)])
     (for_chunk_size 2)) = [None, None, Some [1, 2, 3]]"
proof -
  have p: "pieces 2 [1, 2, 3 :: u8] = [[1, 2], [3]]"
    by (simp add: pieces_def chunks_step)
  have f: "fragment [1, 2, 3] 2 (replicate 16 0) = Some (the (fragment [1, 2, 3] 2 (replicate 16 0)))"
    and l: "length (the (fragment [1, 2, 3] 2 (replicate 16 0))) = 2"
    by (simp_all add: fragment_eq p)
  have i: "snd ` set [(5 :: nat, 1), (6, 1), (7, 0)] = {..<length (the (fragment [1, 2, 3] 2 (replicate 16 0)))}"
    unfolding l by (auto simp: numeral_2_eq_2 lessThan_Suc)
  have "snd (feeds (map (\<lambda>(t, i). (t, the (fragment [1, 2, 3] 2 (replicate 16 0)) ! i)) [(5, 1), (6, 1), (7, 0)])
     (for_chunk_size 2)) = replicate (length [(5 :: nat, 1 :: nat), (6, 1)]) None @ [Some [1, 2, 3]]"
    by (rule fragment_reassemble [OF f _ _ _ _ _ _ _ i, where earlier = "[]" and i = 0 and t = 7])
      (simp_all add: DEFAULT_REASSEMBLY_TIMEOUT_def)
  then show ?thesis by (simp only: list.size replicate.simps append.simps) simp
qed

section \<open>In-order chunks of several messages\<close>

text \<open>The present values among a list of outputs.\<close>

fun somes :: "'a option list \<Rightarrow> 'a list" where
  "somes [] = []"
| "somes (None # xs) = somes xs"
| "somes (Some x # xs) = x # somes xs"

lemma somes_append [simp]: "somes (xs @ ys) = somes xs @ somes ys"
  by (induction xs rule: somes.induct) auto

definition chunk_at :: "fragment_id \<Rightarrow> bytes list \<Rightarrow> nat \<Rightarrow> chunk" where
  "chunk_at fid ds i = \<lparr>c_fragment_id = fid, c_seq = of_nat i, c_total = of_nat (length ds), c_data = ds ! i\<rparr>"

lemma chunk_at_simps [simp]:
  "c_fragment_id (chunk_at fid ds i) = fid" "c_seq (chunk_at fid ds i) = of_nat i"
  "c_total (chunk_at fid ds i) = of_nat (length ds)" "c_data (chunk_at fid ds i) = ds ! i"
  by (simp_all add: chunk_at_def)

lemma assembled_last:
  assumes "assembled_from (H \<union> chunk_at fid ds ` {..j}) (chunk_at fid ds j) m"
    "\<And>c. c \<in> H \<Longrightarrow> c_fragment_id c \<noteq> fid" "length ds \<le> 65535" "j < length ds"
  shows "Suc j = length ds \<and> m = concat ds"
proof -
  have tot: "unat (of_nat (length ds) :: u16) = length ds"
    using assms(3) by (simp add: unat_of_nat)
  obtain ds' where m: "m = concat ds'" and l: "length ds' = length ds"
    and h: "\<And>i. i < length ds \<Longrightarrow> \<lparr>c_fragment_id = fid, c_seq = of_nat i, c_total = of_nat (length ds), c_data = ds' ! i\<rparr>
      \<in> H \<union> chunk_at fid ds ` {..j}"
    using assms(1) by (auto simp: assembled_from_def tot)
  have *: "i \<le> j \<and> ds' ! i = ds ! i" if "i < length ds" for i
  proof -
    from h [OF that] assms(2) obtain i' where i': "i' \<le> j"
      "\<lparr>c_fragment_id = fid, c_seq = of_nat i, c_total = of_nat (length ds), c_data = ds' ! i\<rparr> = chunk_at fid ds i'"
      by fastforce
    then have eq: "(of_nat i :: u16) = of_nat i'" and d: "ds' ! i = ds ! i'"
      by (simp_all add: chunk_at_def)
    have "unat (of_nat i :: u16) = i" "unat (of_nat i' :: u16) = i'"
      using that i'(1) assms(3,4) by (simp_all add: unat_of_nat)
    then have "i = i'" using eq by metis
    with i'(1) d show ?thesis by simp
  qed
  have "length ds - 1 \<le> j" using * [of "length ds - 1"] assms(4) by simp
  moreover have "ds' = ds" using * l by (intro nth_equalityI) auto
  ultimately show ?thesis using assms(4) m by simp
qed

text \<open>The first \<open>j\<close> chunks of a message, in order, from a state that has no chunk of it.\<close>

lemma feeds_one_message:
  assumes "reasm_inv r" "from_history H r" "\<And>c. c \<in> H \<Longrightarrow> c_fragment_id c \<noteq> fid"
    "length fid = 16" "length ds \<le> 65535" "j \<le> length ds" "length ts = j"
    "feeds (zip ts (map (\<lambda>i. chunk_bytes (chunk_at fid ds i)) [0..<j])) r = (r', outs)"
  shows "reasm_inv r' \<and> from_history (H \<union> chunk_at fid ds ` {..<j}) r' \<and>
    (somes outs = [] \<or> j = length ds \<and> somes outs = [concat ds])"
  using assms(6-8)
proof (induction j arbitrary: ts r' outs)
  case 0
  then show ?case using assms(1,2) by simp
next
  case (Suc j)
  let ?c = "chunk_at fid ds j"
  have j: "j < length ds" using Suc.prems(1) by simp
  obtain ts1 t where ts: "ts = ts1 @ [t]" "length ts1 = j"
    using Suc.prems(2) by (metis length_Suc_conv_rev)
  obtain r1 outs1 where f1: "feeds (zip ts1 (map (\<lambda>i. chunk_bytes (chunk_at fid ds i)) [0..<j])) r = (r1, outs1)"
    by (metis surj_pair)
  obtain out where f2: "feed t (chunk_bytes ?c) r1 = (r', out)" and outs: "outs = outs1 @ [out]"
    using Suc.prems(3) f1 ts by (auto simp: feeds_append split: prod.splits)
  have 1: "reasm_inv r1" "from_history (H \<union> chunk_at fid ds ` {..<j}) r1" "somes outs1 = []"
    using Suc.IH [OF _ ts(2) f1] j by auto
  have wf: "wf_chunk ?c"
    using assms(4,5) j by (auto simp: wf_chunk_def word_less_nat_alt unat_of_nat unat_eq_0 [symmetric])
  then have parse: "parse_chunk (chunk_bytes ?c) = Some ?c" by (rule chk.decode_encode)
  have sub: "H \<union> chunk_at fid ds ` {..<j} \<subseteq> H \<union> chunk_at fid ds ` {..j}" by auto
  have "from_history (H \<union> chunk_at fid ds ` {..j}) r1"
    using 1(2) sub unfolding from_history_def by blast
  from feed_history [OF 1(1) this f2] parse
  have h: "from_history (H \<union> chunk_at fid ds ` {..j}) r'"
    "\<And>m. out = Some m \<Longrightarrow> assembled_from (H \<union> chunk_at fid ds ` {..j}) ?c m" by auto
  have "somes outs = [] \<or> Suc j = length ds \<and> somes outs = [concat ds]"
  proof (cases out)
    case (Some m)
    with assembled_last [OF h(2) assms(3,5) j] 1(3) show ?thesis by (simp add: outs)
  qed (simp add: outs 1(3))
  with h(1) feed_inv [OF 1(1) f2] show ?case
    by (simp add: lessThan_Suc_atMost)
qed

lemma fragment_chunks:
  assumes "fragment m cs fid = Some pkts"
  obtains ds where "pkts = map (\<lambda>i. chunk_bytes (chunk_at fid ds i)) [0..<length ds]" "concat ds = m"
    "length ds \<le> 65535" "ds \<noteq> []"
proof -
  have pos: "0 < cs" "length m \<le> 65535 * cs"
    and pkts: "pkts = map (\<lambda>i. pack_chunk fid (of_nat i) (of_nat (length (pieces cs m))) (pieces cs m ! i))
      [0..<length (pieces cs m)]"
    using assms by (auto simp: fragment_eq split: if_splits)
  have "length (pieces cs m) \<le> 65535"
    using length_pieces_le [of cs m 65535] pos by (auto simp: pieces_def)
  then show thesis
    using that [of "pieces cs m"] pkts pieces_spec [OF pos(1)] by (simp add: chunk_bytes_def)
qed

definition chunks_of :: "nat \<Rightarrow> (fragment_id \<times> bytes) list \<Rightarrow> bytes list" where
  "chunks_of cs msgs = concat (map (\<lambda>(fid, m). the (fragment m cs fid)) msgs)"

lemma chunks_of_simps [simp]:
  "chunks_of cs [] = []" "chunks_of cs ((fid, m) # msgs) = the (fragment m cs fid) @ chunks_of cs msgs"
  "chunks_of cs (xs @ ys) = chunks_of cs xs @ chunks_of cs ys"
  by (simp_all add: chunks_of_def)

definition sendable :: "nat \<Rightarrow> (fragment_id \<times> bytes) list \<Rightarrow> bool" where
  "sendable cs msgs \<longleftrightarrow> (\<forall>(fid, m) \<in> set msgs. length fid = 16 \<and> fragment m cs fid \<noteq> None)"

text \<open>Feeding a prefix of the chunks of a list of messages, in order, gives a subsequence of the
  messages (a message can be lost to the timeout, never altered, repeated or reordered).\<close>

lemma feeds_in_order:
  assumes "reasm_inv r" "from_history H r" "\<And>c. c \<in> H \<Longrightarrow> c_fragment_id c \<notin> fst ` set msgs"
    "distinct (map fst msgs)" "sendable cs msgs" "prefix xs (chunks_of cs msgs)" "length ts = length xs"
  shows "subseq (somes (snd (feeds (zip ts xs) r))) (map snd msgs)"
  using assms
proof (induction msgs arbitrary: r H xs ts)
  case (Cons msg msgs)
  obtain fid m where msg: "msg = (fid, m)" by (cases msg)
  obtain pkts where pk: "fragment m cs fid = Some pkts" and fid: "length fid = 16"
    using Cons.prems(5) by (auto simp: sendable_def msg)
  obtain ds where ds: "pkts = map (\<lambda>i. chunk_bytes (chunk_at fid ds i)) [0..<length ds]" "concat ds = m"
    "length ds \<le> 65535" by (rule fragment_chunks [OF pk])
  have H: "\<And>c. c \<in> H \<Longrightarrow> c_fragment_id c \<noteq> fid" using Cons.prems(3) by (auto simp: msg)
  have pre: "prefix xs (pkts @ chunks_of cs msgs)" using Cons.prems(6) by (simp add: msg pk)
  define j where "j = min (length xs) (length ds)"
  have lp: "length pkts = length ds" by (simp add: ds(1))
  obtain zs where zs: "pkts @ chunks_of cs msgs = xs @ zs" using pre by (auto simp: prefix_def)
  have "take j (pkts @ chunks_of cs msgs) = take j pkts" "take j (xs @ zs) = take j xs"
    by (simp_all add: j_def lp)
  then have "take j xs = take j pkts" using zs by metis
  then have x1: "take j xs = map (\<lambda>i. chunk_bytes (chunk_at fid ds i)) [0..<j]"
    by (simp add: ds(1) take_map j_def)
  have x2: "prefix (drop j xs) (chunks_of cs msgs)"
  proof (cases "length xs \<le> length ds")
    case False
    then have "j = length pkts" "j \<le> length xs" by (simp_all add: j_def lp)
    then have "chunks_of cs msgs = drop j xs @ zs"
      using arg_cong [OF zs, of "drop j"] by simp
    then show ?thesis by simp
  qed (simp add: j_def)
  obtain r1 o1 where f1: "feeds (zip (take j ts) (take j xs)) r = (r1, o1)" by (rule prod.exhaust)
  have one: "reasm_inv r1" "from_history (H \<union> chunk_at fid ds ` {..<j}) r1" "somes o1 = [] \<or> somes o1 = [m]"
    using feeds_one_message [OF Cons.prems(1,2) H fid ds(3) _ _ f1 [unfolded x1]] Cons.prems(7) ds(2)
    by (auto simp: j_def)
  have "c_fragment_id c \<notin> fst ` set msgs" if "c \<in> H \<union> chunk_at fid ds ` {..<j}" for c
    using that Cons.prems(3,4) by (force simp: msg)
  then have two: "subseq (somes (snd (feeds (zip (drop j ts) (drop j xs)) r1))) (map snd msgs)"
    using Cons.IH [OF one(1,2) _ _ _ x2] Cons.prems(4,5,7) by (auto simp: sendable_def)
  have "zip ts xs = zip (take j ts) (take j xs) @ zip (drop j ts) (drop j xs)"
    using Cons.prems(7) zip_append [of "take j ts" "take j xs" "drop j ts" "drop j xs"] by simp
  then have "snd (feeds (zip ts xs) r) = o1 @ snd (feeds (zip (drop j ts) (drop j xs)) r1)"
    using f1 by (simp add: feeds_append split: prod.split)
  then show ?case
    using one(3) two by (auto simp: msg)
qed simp

end
