(* ===== verification/Replica.thy ===== *)
theory Replica
  imports Prelude
begin

text \<open>
  The contract of a last-writer-wins replica, and its consequence: a replica stands for the set of
  updates it has taken in, whatever their order and repetition, so that replicas that took in the
  same updates agree. Taking in every entry of another replica stands for taking in all of its
  updates.
\<close>

locale lww_replica =
  fixes merge :: "'p \<Rightarrow> 'r \<Rightarrow> 'r"
    and view :: "'r \<Rightarrow> 'k \<Rightarrow> 'e option"
    and good :: "'r \<Rightarrow> bool"
    and key :: "'p \<Rightarrow> 'k"
    and entry :: "'p \<Rightarrow> 'e"
    and version :: "'e \<Rightarrow> 't::linorder"
  assumes good_merge: "good r \<Longrightarrow> good (merge p r)"
    and view_merge: "good r \<Longrightarrow> view (merge p r) k =
      (if k = key p \<and> (\<forall>e. view r k = Some e \<longrightarrow> version e < version (entry p)) then Some (entry p)
       else view r k)"
begin

text \<open>A version of a key names one entry only.\<close>

definition consistent :: "'p set \<Rightarrow> bool" where
  "consistent S \<longleftrightarrow> (\<forall>p \<in> S. \<forall>q \<in> S. key p = key q \<longrightarrow> version (entry p) = version (entry q) \<longrightarrow> entry p = entry q)"

text \<open>The replica holds, for every key, the entry of the greatest version among the updates.\<close>

definition stands_for :: "'r \<Rightarrow> 'p set \<Rightarrow> bool" where
  "stands_for r S \<longleftrightarrow> good r \<and>
     (\<forall>k e. view r k = Some e \<longrightarrow> (\<exists>p \<in> S. key p = k \<and> entry p = e)) \<and>
     (\<forall>p \<in> S. \<exists>e. view r (key p) = Some e \<and> version (entry p) \<le> version e)"

lemma stands_for_empty: "good r \<Longrightarrow> (\<And>k. view r k = None) \<Longrightarrow> stands_for r {}"
  by (simp add: stands_for_def)

lemma stands_for_merge:
  assumes "stands_for r S"
  shows "stands_for (merge p r) (insert p S)"
proof -
  have r: "good r" "\<And>k e. view r k = Some e \<Longrightarrow> \<exists>p \<in> S. key p = k \<and> entry p = e"
    "\<And>q. q \<in> S \<Longrightarrow> \<exists>e. view r (key q) = Some e \<and> version (entry q) \<le> version e"
    using assms by (auto simp: stands_for_def)
  have "\<exists>q \<in> insert p S. key q = k \<and> entry q = e" if "view (merge p r) k = Some e" for k e
    using that r(2) [of k e] view_merge [OF r(1), of p k] by (auto split: if_splits)
  moreover have "\<exists>e. view (merge p r) (key p) = Some e \<and> version (entry p) \<le> version e"
    using view_merge [OF r(1), of p "key p"] by (cases "view r (key p)") (auto simp: not_less)
  moreover have "\<exists>e. view (merge p r) (key q) = Some e \<and> version (entry q) \<le> version e" if "q \<in> S" for q
    using r(3) [OF that] view_merge [OF r(1), of p "key q"] by (auto intro: order.trans less_imp_le)
  ultimately show ?thesis
    using good_merge [OF r(1)] by (simp add: stands_for_def)
qed

lemma stands_for_merges: "stands_for r S \<Longrightarrow> stands_for (fold merge ps r) (S \<union> set ps)"
proof (induction ps arbitrary: r S)
  case (Cons p ps)
  from Cons.IH [OF stands_for_merge [OF Cons.prems, of p]] show ?case by simp
qed simp

text \<open>Updates that a replica already dominates add nothing to what it stands for.\<close>

lemma stands_for_dominated:
  assumes "stands_for r S" "S \<subseteq> T" "\<And>q. q \<in> T \<Longrightarrow> \<exists>p \<in> S. key p = key q \<and> version (entry q) \<le> version (entry p)"
  shows "stands_for r T"
proof -
  have "\<exists>e. view r (key q) = Some e \<and> version (entry q) \<le> version e" if "q \<in> T" for q
    using assms(3) [OF that] assms(1) by (force simp: stands_for_def intro: order.trans)
  with assms(1,2) show ?thesis unfolding stands_for_def by blast
qed

text \<open>Taking in the entries of a replica stands for taking in what that replica stands for.\<close>

lemma stands_for_join:
  assumes "stands_for r S" "stands_for r' T"
    and ps: "\<And>p. p \<in> set ps \<Longrightarrow> p \<in> T" "\<And>k e. view r' k = Some e \<Longrightarrow> \<exists>p \<in> set ps. key p = k \<and> entry p = e"
  shows "stands_for (fold merge ps r) (S \<union> T)"
proof (rule stands_for_dominated [OF stands_for_merges [OF assms(1)]])
  show "S \<union> set ps \<subseteq> S \<union> T" using ps(1) by auto
  show "\<exists>p \<in> S \<union> set ps. key p = key q \<and> version (entry q) \<le> version (entry p)" if "q \<in> S \<union> T" for q
  proof (cases "q \<in> S")
    case False
    with that obtain e where "view r' (key q) = Some e" "version (entry q) \<le> version e"
      using assms(2) unfolding stands_for_def by blast
    with ps(2) show ?thesis by fastforce
  qed auto
qed

lemma stands_for_agree:
  assumes "stands_for r S" "stands_for r' S" "consistent S"
  shows "view r = view r'"
proof
  fix k
  have half: "view b k = Some e" if ab: "stands_for a S" "stands_for b S" and e: "view a k = Some e" for a b e
  proof -
    obtain p where p: "p \<in> S" "key p = k" "entry p = e" using ab(1) e by (auto simp: stands_for_def)
    then obtain f where f: "view b k = Some f" "version e \<le> version f" using ab(2) by (force simp: stands_for_def)
    then obtain q where q: "q \<in> S" "key q = k" "entry q = f" using ab(2) by (auto simp: stands_for_def)
    then have "version f \<le> version e" using ab(1) e by (force simp: stands_for_def)
    with f p q assms(3) have "e = f" unfolding consistent_def by (metis order.antisym)
    with f show ?thesis by simp
  qed
  show "view r k = view r' k"
    using half [OF assms(1,2)] half [OF assms(2,1)] by (cases "view r k"; cases "view r' k") force+
qed

end

end
