(* ===== verification/Board.thy ===== *)
theory Board
  imports Transport Reassembly Json Replica "HOL-Library.Product_Lexorder"
begin

text \<open>
  \<open>rust/telesthete/src/board.rs\<close>: the replicated last-writer-wins map, its messages, the endpoint's
  operations, the task that treats inbound packets, and the hub. Serialisation cannot fail on the
  types involved, so the JSON error of \<open>BoardError\<close> does not arise. Randomness (the fragment id of
  a snapshot) and the clock are arguments; a \<open>None\<close> of the task is a panic.
\<close>

section \<open>Entries and messages\<close>

definition BOARD_SET :: u8 where "BOARD_SET = 0x01"
definition BOARD_DIGEST :: u8 where "BOARD_DIGEST = 0x02"
definition BOARD_SYNC_REQ :: u8 where "BOARD_SYNC_REQ = 0x03"
definition BOARD_SNAPSHOT :: u8 where "BOARD_SNAPSHOT = 0x04"

record set_payload =
  sp_key :: string
  sp_value :: json
  sp_ts :: "u64 \<times> string"
  sp_deleted :: bool

definition of_set_payload :: "set_payload \<Rightarrow> json" where
  "of_set_payload p = JObj [(''key'', JStr (sp_key p)), (''value'', sp_value p),
     (''ts'', JArr [JPos (fst (sp_ts p)), JStr (snd (sp_ts p))]), (''deleted'', JBool (sp_deleted p))]"

definition json_set_payload :: "json \<Rightarrow> set_payload option" where
  "json_set_payload j =
     (case json_struct [''key'', ''value'', ''ts'', ''deleted''] j of
        Some [k, v, t, d] \<Rightarrow>
          (case (json_field json_string k, json_default (Some \<circ> value_of) JNull v,
                 json_field (json_pair json_u64 json_string) t, json_default json_bool False d) of
             (Some k, Some v, Some t, Some d) \<Rightarrow> Some \<lparr>sp_key = k, sp_value = v, sp_ts = t, sp_deleted = d\<rparr>
           | _ \<Rightarrow> None)
      | _ \<Rightarrow> None)"

record digest_payload =
  dp_count :: "u64 option"
  dp_hash :: "string option"

definition of_digest_payload :: "digest_payload \<Rightarrow> json" where
  "of_digest_payload p = JObj [(''count'', of_option JPos (dp_count p)), (''hash'', of_option JStr (dp_hash p))]"

definition json_digest_payload :: "json \<Rightarrow> digest_payload option" where
  "json_digest_payload j =
     (case json_struct [''count'', ''hash''] j of
        Some [c, h] \<Rightarrow>
          (case (json_default (json_option json_u64) None c, json_default (json_option json_string) None h) of
             (Some c, Some h) \<Rightarrow> Some \<lparr>dp_count = c, dp_hash = h\<rparr>
           | _ \<Rightarrow> None)
      | _ \<Rightarrow> None)"

definition of_snapshot :: "set_payload list \<Rightarrow> json" where
  "of_snapshot entries = JObj [(''entries'', JArr (map of_set_payload entries))]"

definition json_snapshot :: "json \<Rightarrow> set_payload list option" where
  "json_snapshot j =
     (case json_struct [''entries''] j of
        Some [e] \<Rightarrow> json_default (json_vec json_set_payload) [] e
      | _ \<Rightarrow> None)"

record board_entry =
  e_value :: json
  e_lamport :: u64
  e_actor :: string
  e_deleted :: bool

definition entry_ts :: "board_entry \<Rightarrow> u64 \<times> string" where
  "entry_ts e = (e_lamport e, e_actor e)"

definition to_payload :: "string \<Rightarrow> board_entry \<Rightarrow> set_payload" where
  "to_payload k e = \<lparr>sp_key = k, sp_value = e_value e, sp_ts = (e_lamport e, e_actor e), sp_deleted = e_deleted e\<rparr>"

record board_change =
  ch_key :: string
  ch_value :: json
  ch_deleted :: bool

section \<open>The core\<close>

record board_core =
  bc_actor :: string
  bc_entries :: "(string, board_entry) btreemap"
  bc_lamport :: u64

definition board_new :: "string \<Rightarrow> board_core" where
  "board_new actor = \<lparr>bc_actor = actor, bc_entries = [], bc_lamport = 0\<rparr>"

definition board_set :: "string \<Rightarrow> json \<Rightarrow> board_core \<Rightarrow> board_core \<times> set_payload" where
  "board_set k v c =
     (let l = bc_lamport c + 1;
          e = \<lparr>e_value = v, e_lamport = l, e_actor = bc_actor c, e_deleted = False\<rparr>
      in (c\<lparr>bc_lamport := l, bc_entries := bt_insert k e (bc_entries c)\<rparr>, to_payload k e))"

definition board_delete :: "string \<Rightarrow> board_core \<Rightarrow> board_core \<times> set_payload" where
  "board_delete k c =
     (let l = bc_lamport c + 1;
          e = \<lparr>e_value = JNull, e_lamport = l, e_actor = bc_actor c, e_deleted = True\<rparr>
      in (c\<lparr>bc_lamport := l, bc_entries := bt_insert k e (bc_entries c)\<rparr>, to_payload k e))"

definition board_get :: "string \<Rightarrow> board_core \<Rightarrow> json option" where
  "board_get k c = (case map_of (bc_entries c) k of
     Some e \<Rightarrow> if e_deleted e then None else Some (e_value e)
   | None \<Rightarrow> None)"

definition board_items :: "board_core \<Rightarrow> (string, json) hashmap" where
  "board_items c = map (\<lambda>(k, e). (k, e_value e)) (filter (\<lambda>(_, e). \<not> e_deleted e) (bc_entries c))"

definition to_hex :: "bytes \<Rightarrow> string" where
  "to_hex bs = concat (map hex_byte bs)"

definition digest_input :: "board_core \<Rightarrow> bytes" where
  "digest_input c = concat (map (\<lambda>(k, e). str_bytes k @ to_be 8 (e_lamport e) @ str_bytes (e_actor e) @
     (if e_deleted e then [1] else [0])) (bc_entries c))"

definition board_digest :: "crypto_ops \<Rightarrow> board_core \<Rightarrow> u64 \<times> string" where
  "board_digest C c = (of_nat (length (bc_entries c)), to_hex (sha256 C (digest_input c)))"

definition merge_entry :: "set_payload \<Rightarrow> board_core \<Rightarrow> board_core \<times> bool" where
  "merge_entry p c =
     (let (lamport, actor) = sp_ts p;
          c = c\<lparr>bc_lamport := max (bc_lamport c) lamport\<rparr>;
          e = \<lparr>e_value = sp_value p, e_lamport = lamport, e_actor = actor, e_deleted = sp_deleted p\<rparr>;
          won = (c\<lparr>bc_entries := bt_insert (sp_key p) e (bc_entries c)\<rparr>, True)
      in case map_of (bc_entries c) (sp_key p) of
           Some current \<Rightarrow> if (lamport, actor) \<le> entry_ts current then (c, False) else won
         | None \<Rightarrow> won)"

definition board_snapshot :: "board_core \<Rightarrow> set_payload list" where
  "board_snapshot c = map (\<lambda>(k, e). to_payload k e) (bc_entries c)"

section \<open>Messages on the wire\<close>

definition board_raw :: "socket_addr \<Rightarrow> u16 \<Rightarrow> bytes \<Rightarrow> outbound" where
  "board_raw dest board_id plaintext =
     \<lparr>ob_to = dest, ob_channel_type = Board, ob_channel_id = board_id, ob_plaintext = plaintext,
      ob_priority = 3, ob_use_base_key = False\<rparr>"

definition board_json :: "json_ops \<Rightarrow> socket_addr \<Rightarrow> u16 \<Rightarrow> u8 \<Rightarrow> json \<Rightarrow> outbound" where
  "board_json J dest board_id ty payload = board_raw dest board_id (js_print J (of_envelope (ty, payload)))"

definition snapshot_outbounds ::
  "json_ops \<Rightarrow> socket_addr \<Rightarrow> u16 \<Rightarrow> fragment_id \<Rightarrow> set_payload list \<Rightarrow> outbound list option" where
  "snapshot_outbounds J dest board_id fid entries =
     map_option (map (board_raw dest board_id))
       (fragment (js_print J (of_envelope (BOARD_SNAPSHOT, value_of (of_snapshot entries)))) MAX_CHUNK_PAYLOAD fid)"

section \<open>The endpoint\<close>

record board_endpoint =
  bd_id :: u16
  bd_core :: board_core
  bd_destinations :: "socket_addr list"
  bd_watermark :: "(socket_addr, u64) hashmap"
  bd_reassemblers :: "(socket_addr, reassembler) hashmap"

definition board_endpoint_new :: "u16 \<Rightarrow> string \<Rightarrow> board_endpoint" where
  "board_endpoint_new board_id actor =
     \<lparr>bd_id = board_id, bd_core = board_new actor, bd_destinations = [], bd_watermark = [], bd_reassemblers = []\<rparr>"

definition add_destination :: "socket_addr \<Rightarrow> board_endpoint \<Rightarrow> board_endpoint" where
  "add_destination peer b =
     (if peer \<in> set (bd_destinations b) then b
      else b\<lparr>bd_destinations := bd_destinations b @ [peer]\<rparr>)"

definition remove_destination :: "socket_addr \<Rightarrow> board_endpoint \<Rightarrow> board_endpoint" where
  "remove_destination peer b = b\<lparr>bd_destinations := filter (\<lambda>d. d \<noteq> peer) (bd_destinations b)\<rparr>"

definition broadcast_set :: "json_ops \<Rightarrow> u16 \<Rightarrow> set_payload \<Rightarrow> socket_addr list \<Rightarrow> outbound list" where
  "broadcast_set J board_id payload dests =
     (let body = value_of (of_set_payload payload)
      in map (\<lambda>dest. board_json J dest board_id BOARD_SET body) dests)"

text \<open>A local write: the new state, the change event, and what is broadcast.\<close>

definition endpoint_set ::
  "json_ops \<Rightarrow> string \<Rightarrow> json \<Rightarrow> board_endpoint \<Rightarrow> board_endpoint \<times> board_change \<times> outbound list" where
  "endpoint_set J k v b =
     (let (core, payload) = board_set k v (bd_core b)
      in (b\<lparr>bd_core := core\<rparr>,
          \<lparr>ch_key = sp_key payload, ch_value = sp_value payload, ch_deleted = False\<rparr>,
          broadcast_set J (bd_id b) payload (bd_destinations b)))"

definition endpoint_delete ::
  "json_ops \<Rightarrow> string \<Rightarrow> board_endpoint \<Rightarrow> board_endpoint \<times> board_change \<times> outbound list" where
  "endpoint_delete J k b =
     (let (core, payload) = board_delete k (bd_core b)
      in (b\<lparr>bd_core := core\<rparr>,
          \<lparr>ch_key = sp_key payload, ch_value = JNull, ch_deleted = True\<rparr>,
          broadcast_set J (bd_id b) payload (bd_destinations b)))"

definition send_digest :: "crypto_ops \<Rightarrow> json_ops \<Rightarrow> socket_addr option \<Rightarrow> board_endpoint \<Rightarrow> outbound list" where
  "send_digest C J dest b =
     (let (count, hash) = board_digest C (bd_core b);
          body = value_of (of_digest_payload \<lparr>dp_count = Some count, dp_hash = Some hash\<rparr>);
          targets = (case dest of Some d \<Rightarrow> [d] | None \<Rightarrow> bd_destinations b)
      in map (\<lambda>d. board_json J d (bd_id b) BOARD_DIGEST body) targets)"

definition send_snapshot ::
  "json_ops \<Rightarrow> fragment_id \<Rightarrow> socket_addr \<Rightarrow> board_endpoint \<Rightarrow> outbound list option" where
  "send_snapshot J fid dest b = snapshot_outbounds J dest (bd_id b) fid (board_snapshot (bd_core b))"

section \<open>The task\<close>

fun merge_entries :: "set_payload list \<Rightarrow> board_core \<Rightarrow> board_core \<times> board_change list" where
  "merge_entries [] c = (c, [])"
| "merge_entries (p # ps) c =
     (let (c, changed) = merge_entry p c; (c, chs) = merge_entries ps c
      in (c, (if changed then [\<lparr>ch_key = sp_key p, ch_value = sp_value p, ch_deleted = sp_deleted p\<rparr>] else []) @ chs))"

text \<open>A decoded envelope: the new core, the change events, and the packets answered; \<open>None\<close> when the
  answer is a snapshot too large to fragment.\<close>

definition board_message ::
  "crypto_ops \<Rightarrow> json_ops \<Rightarrow> fragment_id \<Rightarrow> u16 \<Rightarrow> socket_addr \<Rightarrow> u8 \<Rightarrow> json \<Rightarrow> board_core \<Rightarrow>
     (board_core \<times> board_change list \<times> outbound list) option" where
  "board_message C J fid board_id from ty payload c =
     (if ty = BOARD_SET then
        (case json_set_payload payload of
           None \<Rightarrow> Some (c, [], [])
         | Some p \<Rightarrow> let (c, chs) = merge_entries [p] c in Some (c, chs, []))
      else if ty = BOARD_DIGEST then
        (case json_digest_payload payload of
           None \<Rightarrow> Some (c, [], [])
         | Some probe \<Rightarrow>
             let (count, hash) = board_digest C c in
             Some (c, [], if dp_count probe \<noteq> Some count \<or> dp_hash probe \<noteq> Some hash
                          then [board_json J from board_id BOARD_SYNC_REQ (JObj [])] else []))
      else if ty = BOARD_SYNC_REQ then
        map_option (\<lambda>outs. (c, [], outs)) (snapshot_outbounds J from board_id fid (board_snapshot c))
      else if ty = BOARD_SNAPSHOT then
        (case json_snapshot payload of
           None \<Rightarrow> Some (c, [], [])
         | Some entries \<Rightarrow> let (c, chs) = merge_entries entries c in Some (c, chs, []))
      else Some (c, [], []))"

text \<open>A chunk of a snapshot goes through the peer's reassembler; anything else is the message.\<close>

definition board_unwrap ::
  "instant \<Rightarrow> socket_addr \<Rightarrow> bytes \<Rightarrow> board_endpoint \<Rightarrow> board_endpoint \<times> bytes option" where
  "board_unwrap now from payload b =
     (case payload of
        x # _ \<Rightarrow>
          if x = 0x01 then
            (let r = (case map_of (bd_reassemblers b) from of
                        Some r \<Rightarrow> r | None \<Rightarrow> for_chunk_size MAX_CHUNK_PAYLOAD);
                 (r, full) = feed now payload r
             in (b\<lparr>bd_reassemblers := hm_insert from r (bd_reassemblers b)\<rparr>, full))
          else (b, Some payload)
      | [] \<Rightarrow> (b, Some payload))"

datatype board_event =
    BoardPacket instant fragment_id inbound
  | BoardRebase socket_addr
  | BoardLagged

fun board_step ::
  "crypto_ops \<Rightarrow> json_ops \<Rightarrow> board_event \<Rightarrow> board_endpoint \<Rightarrow>
     (board_endpoint \<times> board_change list \<times> outbound list) option" where
  "board_step C J (BoardPacket now fid pkt) b =
     (case watermark_check (in_from pkt) (h_sequence (in_header pkt)) (bd_watermark b) of
        (_, False) \<Rightarrow> Some (b, [], [])
      | (wm, True) \<Rightarrow>
          (case board_unwrap now (in_from pkt) (in_payload pkt) (b\<lparr>bd_watermark := wm\<rparr>) of
             (b, None) \<Rightarrow> Some (b, [], [])
           | (b, Some payload) \<Rightarrow>
               (case Option.bind (js_parse J payload) json_envelope of
                  None \<Rightarrow> Some (b, [], [])
                | Some (ty, body) \<Rightarrow>
                    map_option (\<lambda>(c, chs, outs). (b\<lparr>bd_core := c\<rparr>, chs, outs))
                      (board_message C J fid (bd_id b) (in_from pkt) ty body (bd_core b)))))"
| "board_step C J (BoardRebase addr) b =
     Some (b\<lparr>bd_watermark := hm_remove addr (bd_watermark b),
             bd_reassemblers := hm_remove addr (bd_reassemblers b)\<rparr>, [], [])"
| "board_step C J BoardLagged b = Some (b, [], [])"

section \<open>The hub\<close>

record board_hub =
  bh_actor :: string
  bh_senders :: "(u16, nat) hashmap"

definition board_hub_new :: "string \<Rightarrow> board_hub" where
  "board_hub_new actor = \<lparr>bh_actor = actor, bh_senders = []\<rparr>"

definition board_hub_packet :: "inbound \<Rightarrow> board_hub \<Rightarrow> (nat \<times> inbound) option" where
  "board_hub_packet pkt h = map_option (\<lambda>tx. (tx, pkt)) (map_of (bh_senders h) (h_channel_id (in_header pkt)))"

definition board_hub_open :: "u16 \<Rightarrow> nat \<Rightarrow> board_hub \<Rightarrow> board_hub \<times> board_endpoint" where
  "board_hub_open board_id tx h =
     (h\<lparr>bh_senders := hm_insert board_id tx (bh_senders h)\<rparr>, board_endpoint_new board_id (bh_actor h))"

section \<open>The core is a last-writer-wins replica\<close>

definition board_inv :: "board_core \<Rightarrow> bool" where
  "board_inv c \<longleftrightarrow> wf_bt (bc_entries c) \<and> (\<forall>(k, e) \<in> set (bc_entries c). e_lamport e \<le> bc_lamport c)"

definition payload_entry :: "set_payload \<Rightarrow> board_entry" where
  "payload_entry p = \<lparr>e_value = sp_value p, e_lamport = fst (sp_ts p), e_actor = snd (sp_ts p), e_deleted = sp_deleted p\<rparr>"

definition board_merge :: "set_payload \<Rightarrow> board_core \<Rightarrow> board_core" where
  "board_merge p c = fst (merge_entry p c)"

definition board_view :: "board_core \<Rightarrow> string \<Rightarrow> board_entry option" where
  "board_view c = map_of (bc_entries c)"

lemma payload_entry_to [simp]: "payload_entry (to_payload k e) = e" "sp_key (to_payload k e) = k"
  by (simp_all add: payload_entry_def to_payload_def)

lemma board_merge_entries:
  "bc_entries (board_merge p c) =
     (case map_of (bc_entries c) (sp_key p) of
        Some e \<Rightarrow> if entry_ts (payload_entry p) \<le> entry_ts e then bc_entries c
                  else bt_insert (sp_key p) (payload_entry p) (bc_entries c)
      | None \<Rightarrow> bt_insert (sp_key p) (payload_entry p) (bc_entries c))"
  by (simp add: board_merge_def merge_entry_def Let_def entry_ts_def payload_entry_def split: prod.split option.split)

lemma board_merge_fields [simp]:
  "bc_lamport (board_merge p c) = max (bc_lamport c) (fst (sp_ts p))" "bc_actor (board_merge p c) = bc_actor c"
  by (simp_all add: board_merge_def merge_entry_def Let_def split: prod.split option.split)

lemma merge_entry_changed:
  "snd (merge_entry p c) \<longleftrightarrow> (\<forall>e. map_of (bc_entries c) (sp_key p) = Some e \<longrightarrow> entry_ts e < entry_ts (payload_entry p))"
  by (auto simp: merge_entry_def Let_def entry_ts_def payload_entry_def not_le split: prod.split option.split)

lemma entry_ts_less_eq: "entry_ts e \<le> entry_ts f \<Longrightarrow> e_lamport e \<le> e_lamport f"
  by (auto simp: entry_ts_def less_eq_prod_def)

lemma board_inv_new: "board_inv (board_new a)"
  by (simp add: board_inv_def board_new_def)

lemma board_inv_insert:
  "board_inv c \<Longrightarrow> bc_lamport c \<le> l \<Longrightarrow> e_lamport e \<le> l \<Longrightarrow>
     board_inv (c\<lparr>bc_lamport := l, bc_entries := bt_insert k e (bc_entries c)\<rparr>)"
  using set_bt_insert [of k e "bc_entries c"] by (fastforce simp: board_inv_def)

lemma board_inv_merge:
  assumes "board_inv c"
  shows "board_inv (board_merge p c)"
proof -
  have w: "wf_bt (bc_entries c)" and l: "\<And>k e. (k, e) \<in> set (bc_entries c) \<Longrightarrow> e_lamport e \<le> bc_lamport c"
    using assms by (auto simp: board_inv_def)
  have "e_lamport e \<le> max (bc_lamport c) (fst (sp_ts p))" if "(k, e) \<in> set (bc_entries (board_merge p c))" for k e
  proof -
    have "(k, e) \<in> set (bc_entries c) \<or> e = payload_entry p"
      using that set_bt_insert [of "sp_key p" "payload_entry p" "bc_entries c"]
      by (auto simp: board_merge_entries split: option.splits if_splits)
    then show ?thesis using l [of k e] by (auto simp: payload_entry_def le_max_iff_disj)
  qed
  moreover have "wf_bt (bc_entries (board_merge p c))"
    using w by (simp add: board_merge_entries split: option.split)
  ultimately show ?thesis by (auto simp: board_inv_def)
qed

interpretation brd: lww_replica board_merge board_view board_inv sp_key payload_entry entry_ts
proof
  fix r p k
  assume "board_inv r"
  then have "wf_bt (bc_entries r)" by (simp add: board_inv_def)
  then show "board_view (board_merge p r) k =
      (if k = sp_key p \<and> (\<forall>e. board_view r k = Some e \<longrightarrow> entry_ts e < entry_ts (payload_entry p))
       then Some (payload_entry p) else board_view r k)"
    by (auto simp: board_view_def board_merge_entries not_le split: option.split)
qed (rule board_inv_merge)

lemma merge_entries_fold: "fst (merge_entries ps c) = fold board_merge ps c"
  by (induction ps arbitrary: c) (simp_all add: board_merge_def case_prod_beta)

lemma board_inv_merges: "board_inv c \<Longrightarrow> board_inv (fold board_merge ps c)"
  by (induction ps arbitrary: c) (simp_all add: board_inv_merge)

lemma board_eqI: "board_inv c \<Longrightarrow> board_inv d \<Longrightarrow> board_view c = board_view d \<Longrightarrow> bc_entries c = bc_entries d"
  by (auto simp: board_inv_def board_view_def intro: bt_eqI)

text \<open>A local write is the merge of its own payload, as long as the clock does not wrap around.\<close>

lemma local_write_merge:
  assumes "board_inv c" "bc_lamport c \<noteq> - 1"
    and e: "e_lamport e = bc_lamport c + 1" "e_actor e = bc_actor c"
  shows "c\<lparr>bc_lamport := bc_lamport c + 1, bc_entries := bt_insert k e (bc_entries c)\<rparr> = board_merge (to_payload k e) c"
proof -
  have up: "bc_lamport c < bc_lamport c + 1"
    using assms(2) by (rule word_less_plus_one)
  have "entry_ts f < entry_ts e" if "map_of (bc_entries c) k = Some f" for f
  proof -
    have "e_lamport f \<le> bc_lamport c"
      using assms(1) map_of_SomeD [OF that] by (auto simp: board_inv_def)
    from order.strict_trans1 [OF this up] show ?thesis by (simp add: entry_ts_def e)
  qed
  then have "bc_entries (board_merge (to_payload k e) c) = bt_insert k e (bc_entries c)"
    by (auto simp: board_merge_entries not_le split: option.split)
  moreover have "bc_lamport (board_merge (to_payload k e) c) = bc_lamport c + 1"
    using up by (simp add: to_payload_def e max_def)
  ultimately show ?thesis
    by (intro board_core.equality) simp_all
qed

lemma board_set_merge:
  assumes "board_inv c" "bc_lamport c \<noteq> - 1" "board_set k v c = (c', p)"
  shows "c' = board_merge p c" "sp_key p = k" "sp_ts p = (bc_lamport c + 1, bc_actor c)"
  using assms(3) local_write_merge [OF assms(1,2)]
  by (auto simp: board_set_def Let_def to_payload_def)

lemma board_delete_merge:
  assumes "board_inv c" "bc_lamport c \<noteq> - 1" "board_delete k c = (c', p)"
  shows "c' = board_merge p c" "sp_key p = k" "sp_ts p = (bc_lamport c + 1, bc_actor c)"
  using assms(3) local_write_merge [OF assms(1,2)]
  by (auto simp: board_delete_def Let_def to_payload_def)

end
