(* ===== verification/Drop_Channel.thy ===== *)
theory Drop_Channel
  imports Transport Json
begin

text \<open>
  \<open>rust/telesthete/src/drop_channel.rs\<close>: file transfer driven by the receiver. The sender's core
  serves requested ranges, the receiver's core requests what it lacks and verifies at the end; around
  them stand the two tasks and the hub. A receiver operation that does not return is \<open>None\<close>: the
  indexing of a missing chunk panics, and the loop that splits a run of missing chunks into ranges
  can run forever, since its 32-bit counter wraps around.
\<close>

section \<open>Frames\<close>

definition CHUNK_SIZE :: nat where "CHUNK_SIZE = 1024"
definition MAX_RANGE_CHUNKS :: u64 where "MAX_RANGE_CHUNKS = 64"
definition REREQUEST_TIMEOUT :: duration where "REREQUEST_TIMEOUT = 1000"
definition DROP_OFFER :: u8 where "DROP_OFFER = 0x01"
definition DROP_REQUEST :: u8 where "DROP_REQUEST = 0x02"
definition DROP_CHUNK :: u8 where "DROP_CHUNK = 0x03"
definition DROP_DONE :: u8 where "DROP_DONE = 0x04"

record offer_payload =
  of_name :: string
  of_size :: u64
  of_chunk_size :: u64
  of_total_chunks :: u64
  of_sha256 :: string

definition of_offer :: "offer_payload \<Rightarrow> json" where
  "of_offer p = JObj [(''name'', JStr (of_name p)), (''size'', JPos (of_size p)),
     (''chunk_size'', JPos (of_chunk_size p)), (''total_chunks'', JPos (of_total_chunks p)),
     (''sha256'', JStr (of_sha256 p))]"

definition json_offer :: "json \<Rightarrow> offer_payload option" where
  "json_offer j =
     (case json_struct [''name'', ''size'', ''chunk_size'', ''total_chunks'', ''sha256''] j of
        Some [n, s, c, t, h] \<Rightarrow>
          (case (json_field json_string n, json_field json_u64 s, json_field json_u64 c,
                 json_field json_u64 t, json_field json_string h) of
             (Some n, Some s, Some c, Some t, Some h) \<Rightarrow>
               Some \<lparr>of_name = n, of_size = s, of_chunk_size = c, of_total_chunks = t, of_sha256 = h\<rparr>
           | _ \<Rightarrow> None)
      | _ \<Rightarrow> None)"

definition of_request :: "(int \<times> int) list \<Rightarrow> json" where
  "of_request ranges = JObj [(''ranges'', JArr (map (\<lambda>(s, e). JArr [of_i64 s, of_i64 e]) ranges))]"

definition json_request :: "json \<Rightarrow> (int \<times> int) list option" where
  "json_request j = (case json_struct [''ranges''] j of
     Some [r] \<Rightarrow> json_default (json_vec (json_pair json_i64 json_i64)) [] r | _ \<Rightarrow> None)"

definition of_done :: "string \<Rightarrow> json" where
  "of_done sha = JObj [(''sha256'', JStr sha)]"

definition json_done :: "json \<Rightarrow> string option" where
  "json_done j = (case json_struct [''sha256''] j of Some [h] \<Rightarrow> json_default json_string [] h | _ \<Rightarrow> None)"

definition sha256_hex :: "crypto_ops \<Rightarrow> bytes \<Rightarrow> string" where
  "sha256_hex C data = concat (map hex_byte (sha256 C data))"

definition json_frame :: "json_ops \<Rightarrow> u8 \<Rightarrow> json \<Rightarrow> bytes" where
  "json_frame J ty payload = ty # js_print J payload"

section \<open>The sender's core\<close>

record drop_sender_core =
  ds_name :: string
  ds_data :: bytes
  ds_total_chunks :: u32
  ds_sha256 :: string
  ds_completed :: "(socket_addr, bool) hashmap"

definition div_ceil :: "nat \<Rightarrow> nat \<Rightarrow> nat" where
  "div_ceil a b = (a + b - 1) div b"

definition drop_sender_new :: "crypto_ops \<Rightarrow> string \<Rightarrow> bytes \<Rightarrow> drop_sender_core" where
  "drop_sender_new C name data =
     \<lparr>ds_name = name, ds_data = data, ds_total_chunks = of_nat (max 1 (div_ceil (length data) CHUNK_SIZE)),
      ds_sha256 = sha256_hex C data, ds_completed = []\<rparr>"

definition drop_offer :: "drop_sender_core \<Rightarrow> offer_payload" where
  "drop_offer s = \<lparr>of_name = ds_name s, of_size = of_nat (length (ds_data s)), of_chunk_size = of_nat CHUNK_SIZE,
     of_total_chunks = ucast (ds_total_chunks s), of_sha256 = ds_sha256 s\<rparr>"

definition offer_frame :: "json_ops \<Rightarrow> drop_sender_core \<Rightarrow> bytes" where
  "offer_frame J s = json_frame J DROP_OFFER (of_offer (drop_offer s))"

definition chunk_frame :: "drop_sender_core \<Rightarrow> nat \<Rightarrow> bytes" where
  "chunk_frame s index =
     (let lo = index * CHUNK_SIZE; hi = min (lo + CHUNK_SIZE) (length (ds_data s));
          chunk = (if length (ds_data s) \<le> lo then [] else slice_of lo hi (ds_data s))
      in DROP_CHUNK # to_be 4 (of_nat index :: u32) @ chunk)"

definition serve_range :: "drop_sender_core \<Rightarrow> int \<Rightarrow> int \<Rightarrow> bytes list" where
  "serve_range s start end =
     (let start = (word_of_int (max start 0) :: u64);
          end = min (min (word_of_int (max end 0)) (ucast (ds_total_chunks s))) (start + MAX_RANGE_CHUNKS)
      in map (chunk_frame s) [unat start..<unat end])"

definition sender_handle_frame ::
  "json_ops \<Rightarrow> socket_addr \<Rightarrow> bytes \<Rightarrow> drop_sender_core \<Rightarrow> drop_sender_core \<times> bytes list \<times> bool option" where
  "sender_handle_frame J from frame s =
     (case frame of
        [] \<Rightarrow> (s, [], None)
      | ty # body \<Rightarrow>
          if ty = DROP_REQUEST then
            (case Option.bind (js_parse J body) json_request of
               None \<Rightarrow> (s, [], None)
             | Some ranges \<Rightarrow> (s, concat (map (\<lambda>(start, end). serve_range s start end) ranges), None))
          else if ty = DROP_DONE then
            (case Option.bind (js_parse J body) json_done of
               None \<Rightarrow> (s, [], None)
             | Some sha \<Rightarrow> let ok = (sha = ds_sha256 s)
                 in (s\<lparr>ds_completed := hm_insert from ok (ds_completed s)\<rparr>, [], Some ok))
          else (s, [], None))"

section \<open>The receiver's core\<close>

record drop_receiver_core =
  dr_offer :: "offer_payload option"
  dr_have :: "(u32, bytes) hashmap"
  dr_sender_addr :: "socket_addr option"
  dr_verified :: "bool option"
  dr_outstanding :: "(u32 \<times> u32) option"
  dr_last_progress :: "instant option"
  dr_rerequest_timeout :: duration
  dr_completion :: "(bytes \<times> bool) option"

definition drop_receiver_new :: "(u32, bytes) hashmap \<Rightarrow> drop_receiver_core" where
  "drop_receiver_new have_chunks =
     \<lparr>dr_offer = None, dr_have = have_chunks, dr_sender_addr = None, dr_verified = None, dr_outstanding = None,
      dr_last_progress = None, dr_rerequest_timeout = REREQUEST_TIMEOUT, dr_completion = None\<rparr>"

definition total_chunks :: "drop_receiver_core \<Rightarrow> u32" where
  "total_chunks r = (case dr_offer r of None \<Rightarrow> 0 | Some offer \<Rightarrow> ucast (of_total_chunks offer))"

text \<open>The inner loop: a run of missing chunks in ranges of at most 64.\<close>

partial_function (option) split_run :: "u32 \<Rightarrow> u32 \<Rightarrow> (u32 \<times> u32) list option" where
  "split_run s i =
     (if s < i
      then Option.bind (split_run (s + ucast MAX_RANGE_CHUNKS) i)
             (\<lambda>rest. Some ((s, min (s + ucast MAX_RANGE_CHUNKS) i) # rest))
      else Some [])"

text \<open>The outer loop over \<open>0..=total\<close>; \<open>run\<close> is the start of the current run of missing chunks.\<close>

fun missing_from ::
  "(u32, bytes) hashmap \<Rightarrow> u32 \<Rightarrow> u32 option \<Rightarrow> nat list \<Rightarrow> (u32 \<times> u32) list option" where
  "missing_from have_chunks tot run [] = Some []"
| "missing_from have_chunks tot run (n # ns) =
     (let i = of_nat n; lacking = (i < tot \<and> map_of have_chunks i = None) in
      case run of
        None \<Rightarrow> missing_from have_chunks tot (if lacking then Some i else None) ns
      | Some rs \<Rightarrow>
          if lacking then missing_from have_chunks tot (Some rs) ns
          else (case split_run rs i of
                  None \<Rightarrow> None
                | Some ranges \<Rightarrow> map_option ((@) ranges) (missing_from have_chunks tot None ns)))"

definition missing_ranges :: "drop_receiver_core \<Rightarrow> (u32 \<times> u32) list option" where
  "missing_ranges r = missing_from (dr_have r) (total_chunks r) None [0..<Suc (unat (total_chunks r))]"

definition request_missing ::
  "json_ops \<Rightarrow> drop_receiver_core \<Rightarrow> (drop_receiver_core \<times> bytes list) option" where
  "request_missing J r =
     (if dr_offer r = None \<or> dr_sender_addr r = None \<or> dr_verified r \<noteq> None then Some (r, [])
      else case missing_ranges r of
             None \<Rightarrow> None
           | Some [] \<Rightarrow> Some (r, [])
           | Some ((s, e) # _) \<Rightarrow>
               Some (r\<lparr>dr_outstanding := Some (s, e)\<rparr>,
                     [json_frame J DROP_REQUEST (of_request [(uint s, uint e)])]))"

definition receiver_tick ::
  "json_ops \<Rightarrow> instant \<Rightarrow> drop_receiver_core \<Rightarrow> (drop_receiver_core \<times> bytes list) option" where
  "receiver_tick J now r =
     (if dr_offer r \<noteq> None \<and> dr_verified r = None \<and>
         (case dr_last_progress r of None \<Rightarrow> True | Some t \<Rightarrow> now - t > dr_rerequest_timeout r)
      then request_missing J (r\<lparr>dr_last_progress := Some now\<rparr>)
      else Some (r, []))"

text \<open>All chunks in order; \<open>None\<close> when one is missing.\<close>

fun collect_chunks :: "(u32, bytes) hashmap \<Rightarrow> nat list \<Rightarrow> bytes option" where
  "collect_chunks have_chunks [] = Some []"
| "collect_chunks have_chunks (i # is) =
     (case map_of have_chunks (of_nat i) of
        None \<Rightarrow> None
      | Some c \<Rightarrow> map_option ((@) c) (collect_chunks have_chunks is))"

text \<open>The assembly. \<open>Vec::with_capacity\<close> panics for a size above \<open>isize::MAX\<close>, which an offer can name; that an
  allocation of an allowed size fails is outside the model.\<close>

definition ISIZE_MAX :: nat where "ISIZE_MAX = 2 ^ 63 - 1"

definition receiver_finish ::
  "crypto_ops \<Rightarrow> json_ops \<Rightarrow> drop_receiver_core \<Rightarrow> (drop_receiver_core \<times> bytes list) option" where
  "receiver_finish C J r =
     (case dr_offer r of
        None \<Rightarrow> None
      | Some offer \<Rightarrow>
          if unat (of_size offer) > ISIZE_MAX then None
          else map_option (\<lambda>data.
              let data = take (unat (of_size offer)) data; hex = sha256_hex C data; ok = (hex = of_sha256 offer)
              in (r\<lparr>dr_verified := Some ok, dr_completion := Some (data, ok)\<rparr>,
                  [json_frame J DROP_DONE (of_done hex)]))
            (collect_chunks (dr_have r) [0..<unat (total_chunks r)]))"

definition receiver_offer ::
  "json_ops \<Rightarrow> instant \<Rightarrow> socket_addr \<Rightarrow> offer_payload \<Rightarrow> drop_receiver_core \<Rightarrow>
     (drop_receiver_core \<times> bytes list) option" where
  "receiver_offer J now from offer r =
     (let r = (case dr_offer r of
                 Some prev \<Rightarrow> if of_sha256 offer \<noteq> of_sha256 prev \<or> of_size offer \<noteq> of_size prev
                              then r\<lparr>dr_have := [], dr_verified := None\<rparr> else r
               | None \<Rightarrow> r)
      in request_missing J (r\<lparr>dr_offer := Some offer, dr_sender_addr := Some from, dr_last_progress := Some now\<rparr>))"

definition receiver_chunk ::
  "crypto_ops \<Rightarrow> json_ops \<Rightarrow> instant \<Rightarrow> bytes \<Rightarrow> drop_receiver_core \<Rightarrow>
     (drop_receiver_core \<times> bytes list) option" where
  "receiver_chunk C J now body r =
     (if dr_offer r = None \<or> length body < 4 then Some (r, [])
      else let index = from_be (take 4 body); tot = total_chunks r in
        if tot \<le> index then Some (r, [])
        else let r = (if map_of (dr_have r) index = None
                      then r\<lparr>dr_have := hm_insert index (drop 4 body) (dr_have r), dr_last_progress := Some now\<rparr>
                      else r)
          in if of_nat (length (dr_have r)) = tot then receiver_finish C J r
             else if (case dr_outstanding r of None \<Rightarrow> False
                      | Some (s, e) \<Rightarrow> list_all (\<lambda>i. map_of (dr_have r) (of_nat i) \<noteq> None) [unat s..<unat e])
                  then request_missing J r
                  else Some (r, []))"

definition receiver_handle_frame ::
  "crypto_ops \<Rightarrow> json_ops \<Rightarrow> instant \<Rightarrow> socket_addr \<Rightarrow> bytes \<Rightarrow> drop_receiver_core \<Rightarrow>
     (drop_receiver_core \<times> bytes list) option" where
  "receiver_handle_frame C J now from frame r =
     (case frame of
        [] \<Rightarrow> Some (r, [])
      | ty # body \<Rightarrow>
          if ty = DROP_OFFER then
            (case Option.bind (js_parse J body) json_offer of
               None \<Rightarrow> Some (r, [])
             | Some offer \<Rightarrow> receiver_offer J now from offer r)
          else if ty = DROP_CHUNK then receiver_chunk C J now body r
          else Some (r, []))"

definition take_completion :: "drop_receiver_core \<Rightarrow> drop_receiver_core \<times> (bytes \<times> bool) option" where
  "take_completion r = (r\<lparr>dr_completion := None\<rparr>, dr_completion r)"

section \<open>Tasks and hub\<close>

definition replay_stale :: "socket_addr \<Rightarrow> u64 \<Rightarrow> (socket_addr, u64) hashmap \<Rightarrow> (socket_addr, u64) hashmap \<times> bool" where
  "replay_stale from seq wm =
     (case map_of wm from of
        Some w \<Rightarrow> if seq \<le> w then (wm, True) else (hm_insert from seq wm, False)
      | None \<Rightarrow> (hm_insert from seq wm, False))"

definition drop_raw :: "socket_addr \<Rightarrow> u16 \<Rightarrow> bytes \<Rightarrow> outbound" where
  "drop_raw dest drop_id plaintext =
     \<lparr>ob_to = dest, ob_channel_type = Drop, ob_channel_id = drop_id, ob_plaintext = plaintext,
      ob_priority = 4, ob_use_base_key = False\<rparr>"

record drop_sender =
  dsn_drop_id :: u16
  dsn_core :: drop_sender_core
  dsn_watermark :: "(socket_addr, u64) hashmap"

record drop_receiver =
  drc_drop_id :: u16
  drc_core :: drop_receiver_core
  drc_watermark :: "(socket_addr, u64) hashmap"

datatype drop_event = DropPacket instant inbound | DropTick instant | DropRebase socket_addr | DropLagged

text \<open>The sender's task has no ticker. The results are the packets sent and the verdict reported.\<close>

fun drop_sender_step ::
  "json_ops \<Rightarrow> drop_event \<Rightarrow> drop_sender \<Rightarrow> drop_sender \<times> outbound list \<times> (socket_addr \<times> bool) option" where
  "drop_sender_step J (DropPacket now pkt) d =
     (case replay_stale (in_from pkt) (h_sequence (in_header pkt)) (dsn_watermark d) of
        (wm, True) \<Rightarrow> (d, [], None)
      | (wm, False) \<Rightarrow>
          (let (core, frames, verdict) = sender_handle_frame J (in_from pkt) (in_payload pkt) (dsn_core d)
           in (d\<lparr>dsn_core := core, dsn_watermark := wm\<rparr>,
               map (drop_raw (in_from pkt) (dsn_drop_id d)) frames,
               map_option (Pair (in_from pkt)) verdict)))"
| "drop_sender_step J (DropTick now) d = (d, [], None)"
| "drop_sender_step J (DropRebase addr) d = (d\<lparr>dsn_watermark := hm_remove addr (dsn_watermark d)\<rparr>, [], None)"
| "drop_sender_step J DropLagged d = (d, [], None)"

definition sender_offer :: "json_ops \<Rightarrow> socket_addr \<Rightarrow> drop_sender \<Rightarrow> outbound" where
  "sender_offer J dest d = drop_raw dest (dsn_drop_id d) (offer_frame J (dsn_core d))"

text \<open>What follows a frame or a tick: the frames go to the sender's address, the completion is reported.\<close>

definition receiver_after ::
  "drop_receiver \<Rightarrow> drop_receiver_core \<times> bytes list \<Rightarrow> drop_receiver \<times> outbound list \<times> (bytes \<times> bool) option" where
  "receiver_after d rf =
     (let (core, frames) = rf; (core', completion) = take_completion core
      in (d\<lparr>drc_core := core'\<rparr>,
          (case dr_sender_addr core of None \<Rightarrow> [] | Some dest \<Rightarrow> map (drop_raw dest (drc_drop_id d)) frames),
          completion))"

fun drop_receiver_step ::
  "crypto_ops \<Rightarrow> json_ops \<Rightarrow> drop_event \<Rightarrow> drop_receiver \<Rightarrow>
     (drop_receiver \<times> outbound list \<times> (bytes \<times> bool) option) option" where
  "drop_receiver_step C J (DropPacket now pkt) d =
     (case replay_stale (in_from pkt) (h_sequence (in_header pkt)) (drc_watermark d) of
        (wm, True) \<Rightarrow> Some (d, [], None)
      | (wm, False) \<Rightarrow>
          map_option (receiver_after (d\<lparr>drc_watermark := wm\<rparr>))
            (receiver_handle_frame C J now (in_from pkt) (in_payload pkt) (drc_core d)))"
| "drop_receiver_step C J (DropTick now) d = map_option (receiver_after d) (receiver_tick J now (drc_core d))"
| "drop_receiver_step C J (DropRebase addr) d =
     Some (d\<lparr>drc_watermark := hm_remove addr (drc_watermark d)\<rparr>, [], None)"
| "drop_receiver_step C J DropLagged d = Some (d, [], None)"

record drop_hub =
  dh_senders :: "(u16, nat) hashmap"

definition drop_hub_new :: drop_hub where
  "drop_hub_new = \<lparr>dh_senders = []\<rparr>"

definition drop_hub_packet :: "inbound \<Rightarrow> drop_hub \<Rightarrow> (nat \<times> inbound) option" where
  "drop_hub_packet pkt h = map_option (\<lambda>tx. (tx, pkt)) (map_of (dh_senders h) (h_channel_id (in_header pkt)))"

definition open_sender :: "crypto_ops \<Rightarrow> u16 \<Rightarrow> nat \<Rightarrow> string \<Rightarrow> bytes \<Rightarrow> drop_hub \<Rightarrow> drop_hub \<times> drop_sender" where
  "open_sender C drop_id tx name data h =
     (h\<lparr>dh_senders := hm_insert drop_id tx (dh_senders h)\<rparr>,
      \<lparr>dsn_drop_id = drop_id, dsn_core = drop_sender_new C name data, dsn_watermark = []\<rparr>)"

definition open_receiver :: "u16 \<Rightarrow> nat \<Rightarrow> (u32, bytes) hashmap \<Rightarrow> drop_hub \<Rightarrow> drop_hub \<times> drop_receiver" where
  "open_receiver drop_id tx have_chunks h =
     (h\<lparr>dh_senders := hm_insert drop_id tx (dh_senders h)\<rparr>,
      \<lparr>drc_drop_id = drop_id, drc_core = drop_receiver_new have_chunks, drc_watermark = []\<rparr>)"

end
