(* ===== verification/Band.thy ===== *)
theory Band
  imports Handshake Streams Channel Board Drop_Channel
begin

text \<open>
  \<open>rust/telesthete/src/band.rs\<close>: a band puts one transport, the control task, the four hubs and the
  keepalive task together. The model takes one atomic step per datagram or per critical section; the
  keepalive task's local variables (its snapshot of the liveness stamps and the list of peers it found
  dead) are part of the state, so that a packet can be processed between two of its critical sections.
  Outside the model: the clock, the random bytes and the outcome of \<open>bind\<close> and \<open>send_to\<close>, which are
  arguments.
\<close>

section \<open>Options and state\<close>

record band_options =
  bo_session :: "u64 option"
  bo_ciphers :: "string list"
  bo_capabilities :: "string list"
  bo_keepalive_interval :: duration
  bo_dead_after :: duration
  bo_auto_keepalive :: bool

definition default_options :: band_options where
  "default_options = \<lparr>bo_session = None, bo_ciphers = [BASELINE_CIPHER], bo_capabilities = [],
     bo_keepalive_interval = 5000, bo_dead_after = 15000, bo_auto_keepalive = True\<rparr>"

datatype band_error = BandIo | BandControl transport_error

record band =
  bn_control :: control
  bn_stream_hub :: stream_hub
  bn_channel_hub :: channel_hub
  bn_board_hub :: board_hub
  bn_drop_hub :: drop_hub
  bn_control_held :: bool
  bn_hostname :: string
  bn_key :: key
  bn_band_id :: band_id
  bn_session :: u64
  bn_ciphers :: "string list"
  bn_capabilities :: "string list"
  bn_keepalive :: "(duration \<times> duration) option"
  bn_seen :: "(socket_addr, instant) hashmap"
  bn_dead :: "socket_addr list"

abbreviation bn_transport :: "band \<Rightarrow> transport" where
  "bn_transport b \<equiv> ct_transport (bn_control b)"

abbreviation bn_peers :: "band \<Rightarrow> (socket_addr, peer_state) hashmap" where
  "bn_peers b \<equiv> ct_peers (bn_control b)"

definition set_transport :: "transport \<Rightarrow> band \<Rightarrow> band" where
  "set_transport t b = b\<lparr>bn_control := bn_control b\<lparr>ct_transport := t\<rparr>\<rparr>"

definition set_peers :: "(socket_addr, peer_state) hashmap \<Rightarrow> band \<Rightarrow> band" where
  "set_peers p b = b\<lparr>bn_control := bn_control b\<lparr>ct_peers := p\<rparr>\<rparr>"

section \<open>Binding\<close>

text \<open>The subscriber number of each route; \<open>clock\<close> is the time since 1970 in milliseconds, if it is after 1970.\<close>

fun route_sub :: "channel_type \<Rightarrow> nat" where
  "route_sub Control = 0"
| "route_sub Stream = 1"
| "route_sub Channel = 2"
| "route_sub Board = 3"
| "route_sub Drop = 4"
| "route_sub Route = 5"
| "route_sub Addressed = 6"

definition bind_with_options ::
  "crypto_ops \<Rightarrow> bool \<Rightarrow> nat option \<Rightarrow> bytes \<Rightarrow> bytes \<Rightarrow> string \<Rightarrow> band_options \<Rightarrow> band_error + band" where
  "bind_with_options C io_ok clock random psk hostname opts =
     (let session = (case bo_session opts of Some s \<Rightarrow> s | None \<Rightarrow> (case clock of Some ms \<Rightarrow> of_nat ms | None \<Rightarrow> 0));
          base_key = derive_key C psk;
          band_id = derive_band_id C psk;
          ciphers = with_baseline (bo_ciphers opts)
      in if \<not> io_ok then Inl BandIo
         else let t = set_session_key (derive_session_key C psk BASELINE_CIPHER session) (transport_bind base_key band_id random);
                  t = fold (\<lambda>ty. transport_route ty (route_sub ty)) [Stream, Channel, Board, Drop] t;
                  cfg = \<lparr>cc_psk = psk, cc_session = session, cc_hostname = hostname,
                         cc_capabilities = bo_capabilities opts, cc_ciphers = ciphers\<rparr>
              in Inr \<lparr>bn_control = control_new (route_sub Control) cfg [] t, bn_stream_hub = stream_hub_new,
                      bn_channel_hub = hub_new, bn_board_hub = board_hub_new hostname, bn_drop_hub = drop_hub_new,
                      bn_control_held = True, bn_hostname = hostname, bn_key = base_key, bn_band_id = band_id,
                      bn_session = session, bn_ciphers = ciphers, bn_capabilities = bo_capabilities opts,
                      bn_keepalive = (if bo_auto_keepalive opts
                                      then Some (bo_keepalive_interval opts, bo_dead_after opts) else None),
                      bn_seen = [], bn_dead = []\<rparr>)"

definition band_bind :: "crypto_ops \<Rightarrow> bool \<Rightarrow> nat option \<Rightarrow> bytes \<Rightarrow> bytes \<Rightarrow> string \<Rightarrow> band_error + band" where
  "band_bind C io_ok clock random psk hostname = bind_with_options C io_ok clock random psk hostname default_options"

definition bind_with_session ::
  "crypto_ops \<Rightarrow> bool \<Rightarrow> nat option \<Rightarrow> bytes \<Rightarrow> bytes \<Rightarrow> string \<Rightarrow> u64 \<Rightarrow> band_error + band" where
  "bind_with_session C io_ok clock random psk hostname session =
     bind_with_options C io_ok clock random psk hostname (default_options\<lparr>bo_session := Some session\<rparr>)"

section \<open>Sending\<close>

text \<open>A send through the band's transport; the datagram goes to the network.\<close>

definition band_send ::
  "crypto_ops \<Rightarrow> bool \<Rightarrow> outbound \<Rightarrow> band \<Rightarrow> band \<times> (transport_error + socket_addr \<times> bytes)" where
  "band_send C io_ok out b = (let (t, r) = transport_send C io_ok out (bn_transport b) in (set_transport t b, r))"

definition connect_peer ::
  "crypto_ops \<Rightarrow> json_ops \<Rightarrow> bool \<Rightarrow> socket_addr \<Rightarrow> band \<Rightarrow> band \<times> (band_error + socket_addr \<times> bytes)" where
  "connect_peer C J io_ok peer b =
     (let hello = \<lparr>hl_hostname = bn_hostname b, hl_capabilities = bn_capabilities b, hl_ciphers = bn_ciphers b,
                   hl_session = bn_session b\<rparr>;
          (b, r) = band_send C io_ok (control_outbound J peer TYPE_HELLO (value_of (of_hello hello)) True) b
      in (b, case r of Inl e \<Rightarrow> Inl (BandControl e) | Inr d \<Rightarrow> Inr d))"

section \<open>Receiving\<close>

text \<open>What one datagram leads to: the control event and restart signal, or what a hub hands on; and the
  datagrams sent in answer.\<close>

datatype band_delivery =
    NoDelivery
  | ControlDelivery "control_event option" "socket_addr option"
  | StreamDelivery "(nat \<times> stream_message) option"
  | ChannelDelivery "(nat \<times> channel_frame) option"
  | BoardDelivery "(nat \<times> inbound) option"
  | DropDelivery "(nat \<times> inbound) option"

text \<open>The control task answers a HELLO itself; that the answer cannot be sent is only logged.\<close>

definition band_control_packet ::
  "crypto_ops \<Rightarrow> json_ops \<Rightarrow> bool \<Rightarrow> inbound \<Rightarrow> band \<Rightarrow> band \<times> band_delivery \<times> (socket_addr \<times> bytes) list" where
  "band_control_packet C J io_ok pkt b =
     (let (c, out) = control_packet C J pkt (bn_control b);
          b = b\<lparr>bn_control := c\<rparr>;
          d = ControlDelivery (co_event out) (co_rebase out)
      in case co_send out of
           None \<Rightarrow> (b, d, [])
         | Some reply \<Rightarrow>
             (case band_send C io_ok reply b of
                (b, Inl _) \<Rightarrow> (b, d, [])
              | (b, Inr dg) \<Rightarrow> (b, d, [dg])))"

definition band_dispatch ::
  "crypto_ops \<Rightarrow> json_ops \<Rightarrow> bool \<Rightarrow> inbound \<Rightarrow> band \<Rightarrow> band \<times> band_delivery \<times> (socket_addr \<times> bytes) list" where
  "band_dispatch C J io_ok pkt b =
     (case h_channel_type (in_header pkt) of
        Control \<Rightarrow> band_control_packet C J io_ok pkt b
      | Stream \<Rightarrow> (let (h, d) = stream_hub_step (StreamPacket pkt) (bn_stream_hub b)
                   in (b\<lparr>bn_stream_hub := h\<rparr>, StreamDelivery d, []))
      | Channel \<Rightarrow> (let (h, d) = hub_packet (in_from pkt) (h_channel_id (in_header pkt)) (h_sequence (in_header pkt))
                                  (in_payload pkt) (bn_channel_hub b)
                    in (b\<lparr>bn_channel_hub := h\<rparr>, ChannelDelivery d, []))
      | Board \<Rightarrow> (b, BoardDelivery (board_hub_packet pkt (bn_board_hub b)), [])
      | Drop \<Rightarrow> (b, DropDelivery (drop_hub_packet pkt (bn_drop_hub b)), [])
      | _ \<Rightarrow> (b, NoDelivery, []))"

definition band_recv ::
  "crypto_ops \<Rightarrow> json_ops \<Rightarrow> bool \<Rightarrow> instant \<Rightarrow> socket_addr \<Rightarrow> bytes \<Rightarrow> band \<Rightarrow>
     band \<times> band_delivery \<times> (socket_addr \<times> bytes) list" where
  "band_recv C J io_ok now from data b =
     (case transport_recv C now from data (bn_transport b) of
        (t, None) \<Rightarrow> (set_transport t b, NoDelivery, [])
      | (t, Some (_, pkt)) \<Rightarrow> band_dispatch C J io_ok pkt (set_transport t b))"

text \<open>The restart signal as the stream and channel hubs take it; boards and drops have their own.\<close>

definition band_rebase :: "socket_addr \<Rightarrow> band \<Rightarrow> band" where
  "band_rebase addr b = b\<lparr>bn_stream_hub := fst (stream_hub_step (StreamRebase addr) (bn_stream_hub b)),
     bn_channel_hub := hub_rebase addr (bn_channel_hub b)\<rparr>"

section \<open>The keepalive task\<close>

text \<open>One turn: a KEEPALIVE to every peer, the snapshot of the stamps, the eviction, and the removal of
  the dead peers' keys, one at a time. A failed send is only logged.\<close>

fun send_each :: "crypto_ops \<Rightarrow> (bool \<times> outbound) list \<Rightarrow> band \<Rightarrow> band \<times> (socket_addr \<times> bytes) list" where
  "send_each C [] b = (b, [])"
| "send_each C ((io_ok, out) # outs) b =
     (let (b, r) = band_send C io_ok out b; (b, ds) = send_each C outs b
      in (b, (case r of Inl _ \<Rightarrow> [] | Inr d \<Rightarrow> [d]) @ ds))"

definition keepalive_send :: "crypto_ops \<Rightarrow> json_ops \<Rightarrow> (socket_addr \<Rightarrow> bool) \<Rightarrow> band \<Rightarrow> band \<times> (socket_addr \<times> bytes) list" where
  "keepalive_send C J io_ok b =
     send_each C (map (\<lambda>(a, _). (io_ok a, control_outbound J a TYPE_KEEPALIVE (JObj []) False)) (bn_peers b)) b"

definition keepalive_snapshot :: "band \<Rightarrow> band" where
  "keepalive_snapshot b = b\<lparr>bn_seen := tr_last_seen (bn_transport b)\<rparr>"

definition peer_alive :: "(socket_addr, instant) hashmap \<Rightarrow> instant \<Rightarrow> duration \<Rightarrow> socket_addr \<Rightarrow> bool" where
  "peer_alive seen now dead_after addr =
     (case map_of seen addr of Some t \<Rightarrow> now - t < dead_after | None \<Rightarrow> False)"

definition keepalive_evict :: "instant \<Rightarrow> duration \<Rightarrow> band \<Rightarrow> band" where
  "keepalive_evict now dead_after b =
     (let alive = peer_alive (bn_seen b) now dead_after
      in (set_peers (filter (\<lambda>(a, _). alive a) (bn_peers b)) b)
           \<lparr>bn_dead := map fst (filter (\<lambda>(a, _). \<not> alive a) (bn_peers b))\<rparr>)"

definition keepalive_forget :: "band \<Rightarrow> band" where
  "keepalive_forget b =
     (case bn_dead b of
        [] \<Rightarrow> b
      | addr # rest \<Rightarrow> (set_transport (forget_peer addr (bn_transport b)) b)\<lparr>bn_dead := rest\<rparr>)"

definition keepalive_tick ::
  "crypto_ops \<Rightarrow> json_ops \<Rightarrow> (socket_addr \<Rightarrow> bool) \<Rightarrow> instant \<Rightarrow> duration \<Rightarrow> band \<Rightarrow> band \<times> (socket_addr \<times> bytes) list" where
  "keepalive_tick C J io_ok now dead_after b =
     (let (b, ds) = keepalive_send C J io_ok b;
          b = keepalive_evict now dead_after (keepalive_snapshot b)
      in ((keepalive_forget ^^ length (bn_dead b)) b, ds))"

section \<open>Endpoints\<close>

definition band_stream :: "u16 \<Rightarrow> nat \<Rightarrow> band \<Rightarrow> band" where
  "band_stream sid tx b = b\<lparr>bn_stream_hub := stream_hub_open sid tx (bn_stream_hub b)\<rparr>"

definition band_channel :: "socket_addr \<Rightarrow> u16 \<Rightarrow> nat \<Rightarrow> band \<Rightarrow> band" where
  "band_channel peer cid task b = b\<lparr>bn_channel_hub := hub_open peer cid task (bn_channel_hub b)\<rparr>"

definition band_board :: "u16 \<Rightarrow> nat \<Rightarrow> band \<Rightarrow> band \<times> board_endpoint" where
  "band_board bid tx b = (let (h, e) = board_hub_open bid tx (bn_board_hub b) in (b\<lparr>bn_board_hub := h\<rparr>, e))"

definition drop_send :: "crypto_ops \<Rightarrow> u16 \<Rightarrow> nat \<Rightarrow> string \<Rightarrow> bytes \<Rightarrow> band \<Rightarrow> band \<times> drop_sender" where
  "drop_send C did tx name data b = (let (h, e) = open_sender C did tx name data (bn_drop_hub b) in (b\<lparr>bn_drop_hub := h\<rparr>, e))"

definition drop_recv_resume :: "u16 \<Rightarrow> nat \<Rightarrow> (u32, bytes) hashmap \<Rightarrow> band \<Rightarrow> band \<times> drop_receiver" where
  "drop_recv_resume did tx held b = (let (h, e) = open_receiver did tx held (bn_drop_hub b) in (b\<lparr>bn_drop_hub := h\<rparr>, e))"

definition drop_recv :: "u16 \<Rightarrow> nat \<Rightarrow> band \<Rightarrow> band \<times> drop_receiver" where
  "drop_recv did tx b = drop_recv_resume did tx [] b"

text \<open>Borrowing the control handle panics once it has been taken.\<close>

definition band_control :: "band \<Rightarrow> control option" where
  "band_control b = (if bn_control_held b then Some (bn_control b) else None)"

definition take_control :: "band \<Rightarrow> band \<times> control option" where
  "take_control b = (b\<lparr>bn_control_held := False\<rparr>, band_control b)"

end
