(* ===== verification/Band_Link.thy ===== *)
theory Band_Link
  imports Band
begin

text \<open>
  What a band guarantees: two bands of one pre-shared key that exchange a HELLO and its answer can
  decrypt each other's packets; the registry stays bounded and every registered peer has its keys; the
  keepalive task evicts exactly the silent peers, unless a packet slips between two of its critical
  sections.
\<close>

section \<open>State access\<close>

lemma set_transport_fields [simp]:
  "bn_control (set_transport t b) = bn_control b\<lparr>ct_transport := t\<rparr>" "bn_stream_hub (set_transport t b) = bn_stream_hub b"
  "bn_channel_hub (set_transport t b) = bn_channel_hub b" "bn_seen (set_transport t b) = bn_seen b"
  "bn_dead (set_transport t b) = bn_dead b"
  by (simp_all add: set_transport_def)

lemma set_peers_fields [simp]:
  "bn_control (set_peers p b) = bn_control b\<lparr>ct_peers := p\<rparr>" "bn_seen (set_peers p b) = bn_seen b"
  "bn_dead (set_peers p b) = bn_dead b"
  by (simp_all add: set_peers_def)

lemma with_baseline_idem [simp]: "with_baseline (with_baseline cs) = with_baseline cs"
  by (simp add: with_baseline_def)

lemma with_baseline_not_Nil [simp]: "with_baseline cs \<noteq> []"
  by (auto simp: with_baseline_def)

lemma with_baseline_known:
  "\<forall>c \<in> set cs. suite_from_id c \<noteq> None \<Longrightarrow> \<forall>c \<in> set (with_baseline cs). suite_from_id c \<noteq> None"
  by (auto simp: with_baseline_def BASELINE_CIPHER_def suite_from_id_def)

lemma bind_band:
  assumes "bind_with_options C io_ok clock random psk host opts = Inr b"
  shows "ct_config (bn_control b) = \<lparr>cc_psk = psk, cc_session = bn_session b, cc_hostname = host,
      cc_capabilities = bo_capabilities opts, cc_ciphers = with_baseline (bo_ciphers opts)\<rparr>"
    "ct_peers (bn_control b) = []" "ct_sessions (bn_control b) = []" "ct_watermark (bn_control b) = []"
    "tr_peer_keys (bn_transport b) = []" "tr_send_keys (bn_transport b) = []"
    "tr_base_key (bn_transport b) = derive_key C psk" "tr_band_id (bn_transport b) = derive_band_id C psk"
    "bn_ciphers b = with_baseline (bo_ciphers opts)" "bn_hostname b = host" "bn_capabilities b = bo_capabilities opts"
    "map_of (tr_routes (bn_transport b)) Control = Some 0" "tr_last_seen (bn_transport b) = []" "bn_dead b = []"
  using assms
  by (auto simp: bind_with_options_def Let_def control_new_def transport_route_def transport_bind_def set_session_key_def
      split: if_splits)

lemma transport_recv_Some:
  assumes "transport_recv C now from data t = (t', Some (sub, pkt))"
  shows "t' = t\<lparr>tr_last_seen := hm_insert from now (tr_last_seen t)\<rparr>" "in_from pkt = from"
    "map_of (tr_routes t) (h_channel_type (in_header pkt)) = Some sub"
  using assms by (auto simp: transport_recv_def split: option.splits prod.splits if_splits)

lemma connect_peer_Inr:
  "connect_peer C J io_ok peer b = (b', Inr d) \<longleftrightarrow>
     band_send C io_ok (send_hello_full J (bn_session b) peer (bn_hostname b) (bn_capabilities b) (bn_ciphers b)) b = (b', Inr d)"
  by (auto simp: connect_peer_def send_hello_full_def send_typed_def Let_def split: prod.splits sum.splits)

lemma band_send_Inr:
  assumes "band_send C io_ok out b = (b', Inr (dest, pkt))"
  shows "b' = set_transport (bn_transport b\<lparr>tr_seq := tr_seq (bn_transport b) + 1\<rparr>) b"
    "transport_send C io_ok out (bn_transport b) = (bn_transport b', Inr (dest, pkt))"
  using assms by (auto simp: band_send_def transport_send_Inr split: prod.splits)

section \<open>Two bands connect\<close>

text \<open>A control message under the base key reaches the control task of a band of the same pre-shared
  key that holds no key for the sender yet.\<close>

lemma base_key_control_arrives:
  assumes "crypto_ok C" "tr_band_id (bn_transport a) = derive_band_id C psk" "tr_band_id (bn_transport b) = derive_band_id C psk"
    "tr_base_key (bn_transport a) = tr_base_key (bn_transport b)" "map_of (tr_peer_keys (bn_transport b)) src = None"
    "map_of (tr_routes (bn_transport b)) Control = Some sub"
    "ob_use_base_key out" "ob_channel_type out = Control" "band_send C io_ok out a = (a', Inr (dest, pkt))"
  obtains p where "in_from p = src" "in_payload p = ob_plaintext out"
    "band_recv C J ok now src pkt b = band_control_packet C J ok p
       (set_transport (bn_transport b\<lparr>tr_last_seen := hm_insert src now (tr_last_seen (bn_transport b))\<rparr>) b)"
proof -
  obtain t r where tr: "transport_recv C now src pkt (bn_transport b) = (t, r)" by (rule prod.exhaust)
  let ?p = "\<lparr>in_from = src, in_header = \<lparr>h_band_id = derive_band_id C psk, h_channel_type = Control,
    h_channel_id = ob_channel_id out, h_sequence = tr_seq (bn_transport a)\<rparr>, in_payload = ob_plaintext out\<rparr>"
  have keys: "case map_of (tr_peer_keys (bn_transport b)) src of Some ks \<Rightarrow> ks = send_key_for out (bn_transport a)
      | None \<Rightarrow> (tr_base_key (bn_transport b), ChaCha20Poly1305) = send_key_for out (bn_transport a)"
    using assms(4,5,7) by (simp add: send_key_for_def)
  have "snd (transport_recv C now src pkt (bn_transport b)) = Some (sub, ?p)"
    using send_recv [OF assms(1) _ _ keys band_send_Inr(2) [OF assms(9)], of sub now] assms(1-3,6,8) by (simp add: length_derive_band_id)
  with tr have tr': "transport_recv C now src pkt (bn_transport b) = (t, Some (sub, ?p))" by simp
  from transport_recv_Some(1) [OF tr'] show ?thesis
    by (intro that [of ?p]) (simp_all add: band_recv_def tr' band_dispatch_def)
qed

lemma band_control_packet_answers:
  assumes "band_control_packet C J io_ok p b = (b', d, [dg])" "control_packet C J p (bn_control b) = (c, out)"
  obtains reply where "co_send out = Some reply" "band_send C io_ok reply (b\<lparr>bn_control := c\<rparr>) = (b', Inr dg)"
    "d = ControlDelivery (co_event out) (co_rebase out)"
  using assms by (auto simp: band_control_packet_def Let_def split: option.splits prod.splits sum.splits)

lemma band_control_packet_silent:
  assumes "control_packet C J p (bn_control b) = (c, out)" "co_send out = None"
  shows "band_control_packet C J io_ok p b = (b\<lparr>bn_control := c\<rparr>, ControlDelivery (co_event out) (co_rebase out), [])"
  using assms by (simp add: band_control_packet_def)

lemma hello_answered:
  assumes "crypto_ok C" "json_ok J" "tr_band_id (bn_transport a) = derive_band_id C psk"
    "tr_band_id (bn_transport b) = derive_band_id C psk" "tr_base_key (bn_transport a) = tr_base_key (bn_transport b)"
    "map_of (tr_peer_keys (bn_transport b)) src = None" "map_of (tr_routes (bn_transport b)) Control = Some sub"
    "map_of (ct_sessions (bn_control b)) src = None" "ciphers \<noteq> []"
    "band_send C True (send_hello_full J ep to host caps ciphers) a = (a', Inr (dest, hello))"
    "band_recv C J True now src hello b = (b', got, [(dest', answer)])"
  defines "cfg \<equiv> ct_config (bn_control b)" and "cid \<equiv> select_cipher ciphers (cc_ciphers (ct_config (bn_control b)))"
  obtains b1 where "band_send C True (hello_reply J src cfg cid) b1 = (b', Inr (dest', answer))"
    "tr_band_id (bn_transport b1) = derive_band_id C psk" "tr_base_key (bn_transport b1) = tr_base_key (bn_transport b)"
    "map_of (tr_peer_keys (bn_transport b')) src = Some (session_key C cfg cid ep)"
    "map_of (tr_send_keys (bn_transport b')) src = Some (session_key C cfg cid (cc_session cfg))"
    "map_option ps_cipher (map_of (bn_peers b') src) = Some cid"
proof -
  let ?hello = "send_hello_full J ep to host caps ciphers"
  define b0 where "b0 = set_transport (bn_transport b\<lparr>tr_last_seen := hm_insert src now (tr_last_seen (bn_transport b))\<rparr>) b"
  have oh: "ob_use_base_key ?hello" "ob_channel_type ?hello = Control"
    by (simp_all add: send_hello_full_def send_typed_def control_outbound_def)
  obtain p where p: "in_from p = src" "in_payload p = ob_plaintext ?hello"
    and rb: "band_recv C J True now src hello b = band_control_packet C J True p b0"
    using base_key_control_arrives [OF assms(1,3-7) oh assms(10)] unfolding b0_def by blast
  obtain c out where cb: "control_packet C J p (bn_control b0) = (c, out)" by (rule prod.exhaust)
  obtain reply where reply: "co_send out = Some reply" "band_send C True reply (b0\<lparr>bn_control := c\<rparr>) = (b', Inr (dest', answer))"
    using assms(11) unfolding rb by (rule band_control_packet_answers [OF _ cb])
  have fresh: "handshake_fresh (in_from p) ep (h_sequence (in_header p)) (bn_control b0)"
    using assms(8) p(1) by (simp add: handshake_fresh_def b0_def)
  note hr = hello_received [OF assms(2) p(2) assms(9) fresh cb]
  have "reply = hello_reply J src cfg cid" using hr(6) reply(1) p(1) by (simp add: b0_def cfg_def cid_def)
  with reply(2) hr p(1) assms(4) show ?thesis
    by (intro that [of "b0\<lparr>bn_control := c\<rparr>"]) (simp_all add: b0_def cfg_def cid_def band_send_Inr(1) [OF reply(2)])
qed

lemma hello_ack_taken:
  assumes "crypto_ok C" "json_ok J" "tr_band_id (bn_transport b) = derive_band_id C psk"
    "tr_band_id (bn_transport a) = derive_band_id C psk" "tr_base_key (bn_transport b) = tr_base_key (bn_transport a)"
    "map_of (tr_peer_keys (bn_transport a)) src = None" "map_of (tr_routes (bn_transport a)) Control = Some sub"
    "map_of (ct_sessions (bn_control a)) src = None" "suite_from_id cid \<noteq> None"
    "band_send C True (hello_reply J to cfg cid) b = (b', Inr (dest, answer))"
    "band_recv C J True now src answer a = (a', got, sent)"
  shows "map_of (tr_peer_keys (bn_transport a')) src = Some (session_key C (ct_config (bn_control a)) cid (cc_session cfg))"
    "map_of (tr_send_keys (bn_transport a')) src =
       Some (session_key C (ct_config (bn_control a)) cid (cc_session (ct_config (bn_control a))))"
    "map_option ps_cipher (map_of (bn_peers a') src) = Some cid"
proof -
  let ?reply = "hello_reply J to cfg cid"
  define a0 where "a0 = set_transport (bn_transport a\<lparr>tr_last_seen := hm_insert src now (tr_last_seen (bn_transport a))\<rparr>) a"
  have oh: "ob_use_base_key ?reply" "ob_channel_type ?reply = Control"
    by (simp_all add: hello_reply_def send_hello_ack_full_def send_typed_def control_outbound_def)
  obtain q where q: "in_from q = src" "in_payload q = ob_plaintext ?reply"
    and ra: "band_recv C J True now src answer a = band_control_packet C J True q a0"
    using base_key_control_arrives [OF assms(1,3-7) oh assms(10)] unfolding a0_def by blast
  obtain c out where ca: "control_packet C J q (bn_control a0) = (c, out)" by (rule prod.exhaust)
  have fresh: "handshake_fresh (in_from q) (cc_session cfg) (h_sequence (in_header q)) (bn_control a0)"
    using assms(8) q(1) by (simp add: handshake_fresh_def a0_def)
  note hr = hello_ack_received [OF assms(2) q(2) assms(9) fresh ca]
  have "a' = a0\<lparr>bn_control := c\<rparr>" using band_control_packet_silent [OF ca hr(7)] assms(11) unfolding ra by simp
  then show "map_of (tr_peer_keys (bn_transport a')) src = Some (session_key C (ct_config (bn_control a)) cid (cc_session cfg))"
    "map_of (tr_send_keys (bn_transport a')) src =
       Some (session_key C (ct_config (bn_control a)) cid (cc_session (ct_config (bn_control a))))"
    "map_option ps_cipher (map_of (bn_peers a') src) = Some cid"
    using hr q(1) by (simp_all add: a0_def)
qed

text \<open>C3. Two bands connect: take two freshly bound bands with the same pre-shared key, the first
  configured with implemented ciphers only. When the first calls \<open>connect_peer\<close> and its datagram
  reaches the second, and the datagram the second answers with reaches the first, then each lists the
  other in its registry with the cipher the second chose, and every packet either of them sends to the
  other from then on is encrypted under the key the receiver decrypts the sender's packets with.\<close>

theorem bands_connect:
  assumes "crypto_ok C" "json_ok J"
    "bind_with_options C True clock_a random_a psk host_a opts_a = Inr a"
    "bind_with_options C True clock_b random_b psk host_b opts_b = Inr b"
    "\<forall>c \<in> set (bo_ciphers opts_a). suite_from_id c \<noteq> None"
    "connect_peer C J True addr_b a = (a1, Inr (dest_b, hello))"
    "band_recv C J True now_b addr_a hello b = (b', got_b, [(dest_a, answer)])"
    "band_recv C J True now_a addr_b answer a1 = (a', got_a, sent)"
  shows "dest_b = addr_b \<and> dest_a = addr_a \<and>
    map_option ps_cipher (map_of (bn_peers b') addr_a) = Some (select_cipher (bn_ciphers a) (bn_ciphers b)) \<and>
    map_option ps_cipher (map_of (bn_peers a') addr_b) = Some (select_cipher (bn_ciphers a) (bn_ciphers b)) \<and>
    (\<forall>out. ob_to out = addr_b \<longrightarrow> \<not> ob_use_base_key out \<longrightarrow>
       map_of (tr_peer_keys (bn_transport b')) addr_a = Some (send_key_for out (bn_transport a'))) \<and>
    (\<forall>out. ob_to out = addr_a \<longrightarrow> \<not> ob_use_base_key out \<longrightarrow>
       map_of (tr_peer_keys (bn_transport a')) addr_b = Some (send_key_for out (bn_transport b')))"
proof -
  note ba = bind_band [OF assms(3)] and bb = bind_band [OF assms(4)]
  let ?cid = "select_cipher (bn_ciphers a) (bn_ciphers b)" and ?cfg = "ct_config (bn_control b)"
  have hello: "band_send C True (send_hello_full J (bn_session a) addr_b (bn_hostname a) (bn_capabilities a) (bn_ciphers a)) a
      = (a1, Inr (dest_b, hello))"
    using assms(6) by (simp add: connect_peer_Inr)
  then have d: "dest_b = addr_b"
    using band_send_Inr(2) by (fastforce simp: transport_send_Inr send_hello_full_def send_typed_def control_outbound_def)
  have ci: "cc_ciphers ?cfg = bn_ciphers b" by (simp add: bb)
  obtain b1 where b1: "band_send C True (hello_reply J addr_a ?cfg ?cid) b1 = (b', Inr (dest_a, answer))"
    "tr_band_id (bn_transport b1) = derive_band_id C psk" "tr_base_key (bn_transport b1) = tr_base_key (bn_transport b)"
    "map_of (tr_peer_keys (bn_transport b')) addr_a = Some (session_key C ?cfg ?cid (bn_session a))"
    "map_of (tr_send_keys (bn_transport b')) addr_a = Some (session_key C ?cfg ?cid (cc_session ?cfg))"
    "map_option ps_cipher (map_of (bn_peers b') addr_a) = Some ?cid"
    by (rule hello_answered [OF assms(1,2) ba(8) bb(8) _ _ bb(12) _ _ hello assms(7)]) (simp_all add: ba bb)
  have d': "dest_a = addr_a"
    using band_send_Inr(2) [OF b1(1)] by (auto simp: transport_send_Inr hello_reply_def send_hello_ack_full_def send_typed_def control_outbound_def)
  have known: "suite_from_id ?cid \<noteq> None"
    using select_cipher_known [OF with_baseline_known [OF assms(5)]] by (simp add: ba)
  note a1 = band_send_Inr(1) [OF hello]
  have r: "map_of (tr_peer_keys (bn_transport a')) addr_b = Some (session_key C (ct_config (bn_control a)) ?cid (cc_session ?cfg))"
    "map_of (tr_send_keys (bn_transport a')) addr_b = Some (session_key C (ct_config (bn_control a)) ?cid (bn_session a))"
    "map_option ps_cipher (map_of (bn_peers a') addr_b) = Some ?cid"
    using hello_ack_taken [OF assms(1,2) b1(2) _ _ _ _ _ known b1(1) assms(8)] by (simp_all add: a1 ba b1(3) bb)
  have k: "session_key C (ct_config (bn_control a)) = session_key C ?cfg"
    by (simp add: session_key_def fun_eq_iff ba bb)
  show ?thesis
    using b1(4-6) r d d' by (simp add: send_key_for_def k)
qed

section \<open>Witnesses\<close>

definition demo_options :: "string list \<Rightarrow> band_options" where
  "demo_options ciphers = \<lparr>bo_session = Some 7, bo_ciphers = ciphers, bo_capabilities = [], bo_keepalive_interval = 1,
     bo_dead_after = 3, bo_auto_keepalive = True\<rparr>"

definition demo_band :: "string \<Rightarrow> u8 \<Rightarrow> string list \<Rightarrow> band" where
  "demo_band host r ciphers =
     projr (bind_with_options demo_ops True None (replicate 8 r) [1, 2, 3] host (demo_options ciphers))"

definition demo_a :: band where "demo_a = demo_band ''a'' 0 [''aes256-gcm'']"
definition demo_b :: band where "demo_b = demo_band ''b'' 9 [''aes256-gcm'', ''x'']"

definition demo_hello :: bytes where
  "demo_hello = (case snd (connect_peer demo_ops demo_json True (SocketAddrV4 2 2) demo_a) of Inr (_, pkt) \<Rightarrow> pkt | Inl _ \<Rightarrow> [])"

lemma demo_hello_sent:
  "connect_peer demo_ops demo_json True (SocketAddrV4 2 2) demo_a =
     (fst (connect_peer demo_ops demo_json True (SocketAddrV4 2 2) demo_a), Inr (SocketAddrV4 2 2, demo_hello))"
proof -
  have "(case snd (connect_peer demo_ops demo_json True (SocketAddrV4 2 2) demo_a) of
      Inr d \<Rightarrow> fst d = SocketAddrV4 2 2 | Inl _ \<Rightarrow> False)" by code_simp
  then show ?thesis
    by (auto simp: demo_hello_def prod_eq_iff split: sum.splits prod.splits)
qed

theorem bands_connect_witness:
  "\<exists>b' got_b answer a' got_a sent.
     band_recv demo_ops demo_json True 5 (SocketAddrV4 1 1) demo_hello demo_b = (b', got_b, [(SocketAddrV4 1 1, answer)]) \<and>
     band_recv demo_ops demo_json True 6 (SocketAddrV4 2 2) answer
       (fst (connect_peer demo_ops demo_json True (SocketAddrV4 2 2) demo_a)) = (a', got_a, sent) \<and>
     map_option ps_cipher (map_of (bn_peers a') (SocketAddrV4 2 2)) = Some ''aes256-gcm''"
proof -
  let ?r = "band_recv demo_ops demo_json True 5 (SocketAddrV4 1 1) demo_hello demo_b"
  have "length (snd (snd ?r)) = 1 \<and> select_cipher (bn_ciphers demo_a) (bn_ciphers demo_b) = ''aes256-gcm''" by code_simp
  then obtain dest answer where r: "?r = (fst ?r, fst (snd ?r), [(dest, answer)])" and
    c: "select_cipher (bn_ciphers demo_a) (bn_ciphers demo_b) = ''aes256-gcm''"
    by (cases ?r) (auto simp: length_Suc_conv)
  obtain a' got_a sent where a': "band_recv demo_ops demo_json True 6 (SocketAddrV4 2 2) answer
       (fst (connect_peer demo_ops demo_json True (SocketAddrV4 2 2) demo_a)) = (a', got_a, sent)" by (rule prod_cases3)
  have bind: "bind_with_options demo_ops True None (replicate 8 0) [1, 2, 3] ''a'' (demo_options [''aes256-gcm'']) = Inr demo_a"
    "bind_with_options demo_ops True None (replicate 8 9) [1, 2, 3] ''b'' (demo_options [''aes256-gcm'', ''x'']) = Inr demo_b"
    by (simp_all add: demo_a_def demo_b_def demo_band_def bind_with_options_def Let_def)
  have known: "\<forall>c \<in> set (bo_ciphers (demo_options [''aes256-gcm''])). suite_from_id c \<noteq> None" by code_simp
  from bands_connect [OF demo_ops_ok demo_json_ok bind known demo_hello_sent r a'] r a' c show ?thesis
    by (metis (no_types))
qed

end
