(* ===== verification/Band_Inv.thy ===== *)
theory Band_Inv
  imports Band_Link
begin

text \<open>
  The band as a state machine: one step per datagram, send, or critical section of the keepalive task,
  in any order. The registry, the session table and the key tables stay consistent in every reachable
  state; the eviction is exact when the keepalive task runs undisturbed.
\<close>

section \<open>Consistency of registry and keys\<close>

definition peer_consistent :: "crypto_ops \<Rightarrow> control \<Rightarrow> socket_addr \<Rightarrow> peer_state \<Rightarrow> bool" where
  "peer_consistent C c a s \<longleftrightarrow>
     map_of (ct_sessions c) a = Some (ps_session_epoch s) \<and>
     map_of (tr_peer_keys (ct_transport c)) a \<in> {None, Some (session_key C (ct_config c) (ps_cipher s) (ps_session_epoch s))} \<and>
     map_of (tr_send_keys (ct_transport c)) a \<in> {None, Some (session_key C (ct_config c) (ps_cipher s) (cc_session (ct_config c)))}"

definition control_inv :: "crypto_ops \<Rightarrow> control_config \<Rightarrow> control \<Rightarrow> bool" where
  "control_inv C cfg c \<longleftrightarrow> ct_config c = cfg \<and> control_bounded c \<and>
     (\<forall>a. map_of (tr_peer_keys (ct_transport c)) a = None \<longleftrightarrow> map_of (tr_send_keys (ct_transport c)) a = None) \<and>
     (\<forall>a s. map_of (ct_peers c) a = Some s \<longrightarrow> peer_consistent C c a s)"

lemma control_invD:
  assumes "control_inv C cfg c"
  shows "control_bounded c" "ct_config c = cfg"
    "map_of (tr_peer_keys (ct_transport c)) a = None \<longleftrightarrow> map_of (tr_send_keys (ct_transport c)) a = None"
    "map_of (ct_peers c) a = Some s \<Longrightarrow> peer_consistent C c a s"
  using assms by (auto simp: control_inv_def)

text \<open>A step that at most forgets keeps the invariant.\<close>

lemma control_inv_forget:
  assumes "control_inv C cfg c" "control_bounded c'" "ct_config c' = ct_config c"
    "\<And>a. map_of (tr_peer_keys (ct_transport c')) a = None \<longleftrightarrow> map_of (tr_send_keys (ct_transport c')) a = None"
    "\<And>a s. map_of (ct_peers c') a = Some s \<Longrightarrow> map_of (ct_peers c) a = Some s \<and>
       map_of (ct_sessions c') a = map_of (ct_sessions c) a \<and>
       map_of (tr_peer_keys (ct_transport c')) a \<in> {None, map_of (tr_peer_keys (ct_transport c)) a} \<and>
       map_of (tr_send_keys (ct_transport c')) a \<in> {None, map_of (tr_send_keys (ct_transport c)) a}"
  shows "control_inv C cfg c'"
proof -
  have "peer_consistent C c' a s" if "map_of (ct_peers c') a = Some s" for a s
    using assms(5) [OF that] control_invD(4) [OF assms(1), of a s]
    by (auto simp: peer_consistent_def assms(3))
  then show ?thesis using assms(2-4) control_invD(2) [OF assms(1)] by (auto simp: control_inv_def)
qed

lemma admit_refused: "admit_handshake a ep seq c = (c', rebase, False) \<Longrightarrow> c' = c"
  by (auto simp: admit_handshake_def watermark_check_def Let_def split: option.splits if_splits)

lemma prune_maps_inv:
  assumes "control_inv C cfg c"
  shows "control_inv C cfg (prune_maps c)"
  using prune_maps_bounded(1) [OF control_invD(1) [OF assms]] control_invD(3) [OF assms]
  by (intro control_inv_forget [OF assms]) (simp_all add: prune_maps_lookup)

lemma map_of_make_peer_room: "wf_hm p \<Longrightarrow> map_of (make_peer_room a p) b = Some s \<Longrightarrow> map_of p b = Some s"
  by (auto simp: make_peer_room_def split: option.splits if_splits prod.splits)

lemma on_handshake_inv:
  assumes inv: "control_inv C cfg c" and b: "length (ct_watermark c) \<le> PEER_MAP_SOFT_CAP"
    and step: "on_handshake C J a seq ty payload c = (c', out)"
  shows "control_inv C cfg c'"
  using step
proof (cases rule: on_handshake_cases)
  case (drop h rebase)
  then show ?thesis using admit_refused inv by blast
next
  case (ok h c1 rebase)
  note m = admit_handshake_mark [OF ok(2)]
  have wf: "wf_hm (ct_peers c)" "control_bounded c" using inv by (simp_all add: control_inv_def control_bounded_def)
  have bnd: "control_bounded c'" by (rule on_handshake_bounded [OF wf(2) b step])
  have s: "map_of (ct_sessions c1) a = Some (hs_epoch h)" "\<And>x. x \<noteq> a \<Longrightarrow> map_of (ct_sessions c1) x = map_of (ct_sessions c) x"
    using m(1,3) by (auto simp: control_mark_def)
  have c': "c' = register_keys C a (hs_committed h) (hs_epoch h) c1\<lparr>ct_peers :=
      hm_insert a \<lparr>ps_hostname = hs_hostname h, ps_capabilities = hs_capabilities h,
        ps_cipher = hs_committed h, ps_session_epoch = hs_epoch h\<rparr> (make_peer_room a (ct_peers c))\<rparr>"
    using ok(4) m(4) by simp
  show ?thesis unfolding control_inv_def
  proof (intro conjI allI impI)
    show "ct_config c' = cfg" using m(4) control_invD(2) [OF inv] by (simp add: c')
    show "control_bounded c'" by (rule bnd)
    fix x
    show "map_of (tr_peer_keys (ct_transport c')) x = None \<longleftrightarrow> map_of (tr_send_keys (ct_transport c')) x = None"
      using control_invD(3) [OF inv, of x] m(4)
      by (simp add: c' register_keys_def register_peer_key_def register_send_key_def Let_def)
    fix p assume p: "map_of (ct_peers c') x = Some p"
    show "peer_consistent C c' x p"
    proof (cases "x = a")
      case True
      with p m(4) s(1) show ?thesis
        by (simp add: c' peer_consistent_def register_keys_def register_peer_key_def register_send_key_def session_key_def Let_def)
          (auto)
    next
      case False
      with p have "map_of (ct_peers c) x = Some p"
        using map_of_make_peer_room [OF wf(1)] by (simp add: c')
      from control_invD(4) [OF inv this] show ?thesis
        using False m(4) s(2)
        by (simp add: c' peer_consistent_def register_keys_def register_peer_key_def register_send_key_def Let_def)
    qed
  qed
qed (use inv in simp)

lemma on_other_inv:
  assumes inv: "control_inv C cfg c" and b: "length (ct_watermark c) \<le> PEER_MAP_SOFT_CAP"
    and step: "on_other a seq ty payload c = (c', ev)"
  shows "control_inv C cfg c'"
proof (rule control_inv_forget [OF inv])
  show "control_bounded c'" by (rule on_other_bounded [OF control_invD(1) [OF inv] b step])
  have c': "c' = c \<or> (\<exists>wm. c' = c\<lparr>ct_watermark := wm\<rparr>) \<or> (\<exists>wm. c' = c\<lparr>ct_peers := hm_remove a (ct_peers c),
      ct_sessions := hm_remove a (ct_sessions c), ct_watermark := wm, ct_transport := forget_peer a (ct_transport c)\<rparr>)"
    using step by (auto simp: on_other_def Let_def split: prod.splits bool.splits if_splits)
  then show "ct_config c' = ct_config c" by auto
  fix x
  show "map_of (tr_peer_keys (ct_transport c')) x = None \<longleftrightarrow> map_of (tr_send_keys (ct_transport c')) x = None"
    using c' control_invD(3) [OF inv, of x] by (auto simp: forget_peer_def split: if_splits)
  fix s assume "map_of (ct_peers c') x = Some s"
  with c' show "map_of (ct_peers c) x = Some s \<and> map_of (ct_sessions c') x = map_of (ct_sessions c) x \<and>
       map_of (tr_peer_keys (ct_transport c')) x \<in> {None, map_of (tr_peer_keys (ct_transport c)) x} \<and>
       map_of (tr_send_keys (ct_transport c')) x \<in> {None, map_of (tr_send_keys (ct_transport c)) x}"
    by (auto simp: forget_peer_def split: if_splits)
qed

lemma control_packet_inv:
  assumes "control_inv C cfg c" "control_packet C J p c = (c', out)"
  shows "control_inv C cfg c'"
proof -
  note p = prune_maps_inv [OF assms(1)] prune_maps_bounded(2) [OF control_invD(1) [OF assms(1)]]
  from assms(2) show ?thesis
    by (cases rule: control_packet_cases) (use p on_handshake_inv [OF p] on_other_inv [OF p] in blast)+
qed

section \<open>The state machine\<close>

inductive band_step :: "crypto_ops \<Rightarrow> json_ops \<Rightarrow> band \<Rightarrow> band \<Rightarrow> bool" for C J where
  datagram: "band_recv C J io_ok now from data b = (b', got, sent) \<Longrightarrow> band_step C J b b'"
| sending: "band_send C io_ok out b = (b', r) \<Longrightarrow> band_step C J b b'"
| restart: "band_step C J b (band_rebase a b)"
| snapshot: "band_step C J b (keepalive_snapshot b)"
| evict: "bn_dead b = [] \<Longrightarrow> band_step C J b (keepalive_evict now dead_after b)"
| forget: "band_step C J b (keepalive_forget b)"
| open_stream: "band_step C J b (band_stream sid tx b)"
| open_channel: "band_step C J b (band_channel peer cid task b)"
| open_board: "band_board bid tx b = (b', e) \<Longrightarrow> band_step C J b b'"
| open_drop_send: "drop_send C did tx name data b = (b', e) \<Longrightarrow> band_step C J b b'"
| open_drop_recv: "drop_recv_resume did tx held b = (b', e') \<Longrightarrow> band_step C J b b'"
| take: "take_control b = (b', c) \<Longrightarrow> band_step C J b b'"

inductive_cases band_stepE: "band_step C J b b'"

lemma control_inv_transport:
  assumes "control_inv C cfg c" "tr_peer_keys t = tr_peer_keys (ct_transport c)" "tr_send_keys t = tr_send_keys (ct_transport c)"
  shows "control_inv C cfg (c\<lparr>ct_transport := t\<rparr>)"
  using control_invD(1,3) [OF assms(1)] assms(2,3)
  by (intro control_inv_forget [OF assms(1)]) (simp_all add: control_bounded_def)

lemma band_send_inv:
  assumes "control_inv C cfg (bn_control b)" "band_send C io_ok out b = (b', r)"
  shows "control_inv C cfg (bn_control b')"
proof -
  obtain t where "b' = set_transport t b" "tr_peer_keys t = tr_peer_keys (bn_transport b)" "tr_send_keys t = tr_send_keys (bn_transport b)"
    using assms(2) by (auto simp: band_send_def transport_send_def sequence_next_def Let_def split: prod.splits sum.splits)
  then show ?thesis using control_inv_transport [OF assms(1)] by simp
qed

lemma band_dispatch_inv:
  assumes "control_inv C cfg (bn_control b)" "band_dispatch C J io_ok pkt b = (b', got, sent)"
  shows "control_inv C cfg (bn_control b')"
proof (cases "h_channel_type (in_header pkt)")
  case Control
  obtain c out where c: "control_packet C J pkt (bn_control b) = (c, out)" by (rule prod.exhaust)
  have inv: "control_inv C cfg (bn_control (b\<lparr>bn_control := c\<rparr>))" using control_packet_inv [OF assms(1) c] by simp
  show ?thesis
  proof (cases "co_send out")
    case None
    with assms(2) c Control inv show ?thesis by (simp add: band_dispatch_def band_control_packet_silent)
  next
    case (Some reply)
    obtain b1 r where r: "band_send C io_ok reply (b\<lparr>bn_control := c\<rparr>) = (b1, r)" by (rule prod.exhaust)
    have "b' = b1" using assms(2) Control Some c r by (auto simp: band_dispatch_def band_control_packet_def Let_def split: sum.splits)
    then show ?thesis using band_send_inv [OF inv r] by simp
  qed
qed (use assms in \<open>auto simp: band_dispatch_def Let_def split: prod.splits\<close>)

lemma band_recv_inv:
  assumes "control_inv C cfg (bn_control b)" "band_recv C J io_ok now from data b = (b', got, sent)"
  shows "control_inv C cfg (bn_control b')"
proof -
  obtain t r where t: "transport_recv C now from data (bn_transport b) = (t, r)" by (rule prod.exhaust)
  then have "tr_peer_keys t = tr_peer_keys (bn_transport b)" "tr_send_keys t = tr_send_keys (bn_transport b)"
    by (auto simp: transport_recv_def split: option.splits prod.splits if_splits)
  then have "control_inv C cfg (bn_control (set_transport t b))" using control_inv_transport [OF assms(1)] by simp
  with assms(2) t band_dispatch_inv [where b = "set_transport t b"] show ?thesis
    by (cases r) (auto simp: band_recv_def)
qed

lemma keepalive_evict_inv: "control_inv C cfg (bn_control b) \<Longrightarrow> control_inv C cfg (bn_control (keepalive_evict now dead_after b))"
proof -
  assume inv: "control_inv C cfg (bn_control b)"
  have wf: "wf_hm (bn_peers b)" using control_invD(1) [OF inv] by (simp add: control_bounded_def)
  have le: "length (filter P (bn_peers b)) \<le> PEER_MAP_SOFT_CAP" for P
    using control_invD(1) [OF inv] by (metis control_bounded_def le_trans length_filter_le)
  show ?thesis
    using control_invD(1,3) [OF inv] le wf
    by (intro control_inv_forget [OF inv])
      (simp_all add: keepalive_evict_def Let_def control_bounded_def map_of_filter_key split: if_splits)
qed

lemma keepalive_forget_inv: "control_inv C cfg (bn_control b) \<Longrightarrow> control_inv C cfg (bn_control (keepalive_forget b))"
proof (cases "bn_dead b")
  case (Cons a rest)
  assume inv: "control_inv C cfg (bn_control b)"
  with Cons show ?thesis
    using control_invD(1,3) [OF inv]
    by (intro control_inv_forget [OF inv]) (simp_all add: keepalive_forget_def control_bounded_def forget_peer_def)
qed (simp add: keepalive_forget_def)

lemma band_step_inv: "band_step C J b b' \<Longrightarrow> control_inv C cfg (bn_control b) \<Longrightarrow> control_inv C cfg (bn_control b')"
proof (induction rule: band_step.induct)
  case (datagram io_ok now src data b b' got sent)
  then show ?case using band_recv_inv by blast
next
  case (sending io_ok out b b' r)
  then show ?case using band_send_inv by blast
qed (auto simp: keepalive_evict_inv keepalive_forget_inv band_rebase_def keepalive_snapshot_def band_stream_def
    band_channel_def band_board_def drop_send_def drop_recv_resume_def take_control_def Let_def split: prod.splits)

lemma band_reachable_inv:
  assumes "(band_step C J)\<^sup>*\<^sup>* b b'" "control_inv C cfg (bn_control b)"
  shows "control_inv C cfg (bn_control b')"
  using assms by (induction rule: rtranclp_induct) (auto intro: band_step_inv)

lemma bind_control_inv:
  "bind_with_options C io_ok clock random psk host opts = Inr b \<Longrightarrow> control_inv C (ct_config (bn_control b)) (bn_control b)"
  by (simp add: control_inv_def control_bounded_def bind_band)

text \<open>C4. The registry is consistent with the keys in every reachable state: whatever datagrams arrive and
  whatever the band sends, opens or evicts, in any order and with the keepalive task interrupted
  anywhere, at most 1024 peers are registered, the replay tables hold at most one entry more, and a
  registered peer is recorded with the epoch of its current session; the keys held for it, if any, are
  the session keys of the recorded cipher, of the peer's epoch for receiving and of the band's own
  epoch for sending.\<close>

theorem band_registry_consistent:
  assumes "bind_with_options C True clock random psk host opts = Inr b" "(band_step C J)\<^sup>*\<^sup>* b b'"
  shows "length (bn_peers b') \<le> PEER_MAP_SOFT_CAP \<and> length (ct_watermark (bn_control b')) \<le> Suc PEER_MAP_SOFT_CAP \<and>
    length (ct_sessions (bn_control b')) \<le> Suc PEER_MAP_SOFT_CAP \<and>
    (\<forall>a s. map_of (bn_peers b') a = Some s \<longrightarrow>
       map_of (ct_sessions (bn_control b')) a = Some (ps_session_epoch s) \<and>
       (\<forall>k. map_of (tr_peer_keys (bn_transport b')) a = Some k \<longrightarrow>
          fst k = derive_session_key C psk (ps_cipher s) (ps_session_epoch s)) \<and>
       (\<forall>k. map_of (tr_send_keys (bn_transport b')) a = Some k \<longrightarrow>
          fst k = derive_session_key C psk (ps_cipher s) (bn_session b)))"
proof -
  note i = band_reachable_inv [OF assms(2) bind_control_inv [OF assms(1)]]
  have cb: "control_bounded (bn_control b')" by (rule control_invD(1) [OF i])
  have "dom (map_of (ct_sessions (bn_control b'))) \<subseteq> dom (map_of (ct_watermark (bn_control b')))"
    using cb by (auto simp: control_bounded_def domIff)
  then have "length (ct_sessions (bn_control b')) \<le> length (ct_watermark (bn_control b'))"
    using cb by (simp add: control_bounded_def length_hm_dom card_mono finite_dom_map_of)
  moreover have cfg: "ct_config (bn_control b') = ct_config (bn_control b)" by (rule control_invD(2) [OF i])
  have "map_of (ct_sessions (bn_control b')) a = Some (ps_session_epoch s) \<and>
       (\<forall>k. map_of (tr_peer_keys (bn_transport b')) a = Some k \<longrightarrow>
          fst k = derive_session_key C psk (ps_cipher s) (ps_session_epoch s)) \<and>
       (\<forall>k. map_of (tr_send_keys (bn_transport b')) a = Some k \<longrightarrow>
          fst k = derive_session_key C psk (ps_cipher s) (bn_session b))"
    if "map_of (bn_peers b') a = Some s" for a s
    using control_invD(4) [OF i that] by (auto simp: peer_consistent_def session_key_def cfg bind_band(1) [OF assms(1)])
  ultimately show ?thesis using cb by (auto simp: control_bounded_def)
qed

section \<open>Eviction\<close>

lemma band_send_frame:
  assumes "band_send C io_ok out b = (b', r)"
  shows "bn_peers b' = bn_peers b" "tr_peer_keys (bn_transport b') = tr_peer_keys (bn_transport b)"
    "tr_send_keys (bn_transport b') = tr_send_keys (bn_transport b)" "tr_last_seen (bn_transport b') = tr_last_seen (bn_transport b)"
    "tr_seq (bn_transport b') = tr_seq (bn_transport b) + 1" "r = Inr d \<Longrightarrow> fst d = ob_to out"
  using assms by (auto simp: band_send_def transport_send_def sequence_next_def Let_def split: prod.splits sum.splits if_splits)

lemma send_each_frame:
  assumes "send_each C outs b = (b', ds)"
  shows "bn_peers b' = bn_peers b" "tr_peer_keys (bn_transport b') = tr_peer_keys (bn_transport b)"
    "tr_send_keys (bn_transport b') = tr_send_keys (bn_transport b)" "tr_last_seen (bn_transport b') = tr_last_seen (bn_transport b)"
    "tr_seq (bn_transport b') = tr_seq (bn_transport b) + of_nat (length outs)" "fst ` set ds \<subseteq> (ob_to \<circ> snd) ` set outs"
proof -
  have "bn_peers b' = bn_peers b \<and> tr_peer_keys (bn_transport b') = tr_peer_keys (bn_transport b) \<and>
    tr_send_keys (bn_transport b') = tr_send_keys (bn_transport b) \<and> tr_last_seen (bn_transport b') = tr_last_seen (bn_transport b) \<and>
    tr_seq (bn_transport b') = tr_seq (bn_transport b) + of_nat (length outs) \<and> fst ` set ds \<subseteq> (ob_to \<circ> snd) ` set outs"
    using assms
  proof (induction outs arbitrary: b ds)
    case (Cons x outs)
    obtain io out where x: "x = (io, out)" by (rule prod.exhaust)
    obtain b1 r where s: "band_send C io out b = (b1, r)" by (rule prod.exhaust)
    obtain ds1 where t: "send_each C outs b1 = (b', ds1)" and ds: "ds = (case r of Inl _ \<Rightarrow> [] | Inr d \<Rightarrow> [d]) @ ds1"
      using Cons.prems s by (auto simp: x Let_def split: prod.splits)
    from band_send_frame(1-5) [OF s] band_send_frame(6) [OF s] Cons.IH [OF t] show ?case
      by (cases r) (auto simp: x ds)
  qed simp
  then show "bn_peers b' = bn_peers b" "tr_peer_keys (bn_transport b') = tr_peer_keys (bn_transport b)"
    "tr_send_keys (bn_transport b') = tr_send_keys (bn_transport b)" "tr_last_seen (bn_transport b') = tr_last_seen (bn_transport b)"
    "tr_seq (bn_transport b') = tr_seq (bn_transport b) + of_nat (length outs)" "fst ` set ds \<subseteq> (ob_to \<circ> snd) ` set outs"
    by blast+
qed

lemma keepalive_forget_all:
  assumes "bn_dead b = dead"
  defines "b' \<equiv> (keepalive_forget ^^ length dead) b"
  shows "bn_peers b' = bn_peers b" "bn_dead b' = []" "tr_seq (bn_transport b') = tr_seq (bn_transport b)"
    "map_of (tr_peer_keys (bn_transport b')) a = (if a \<in> set dead then None else map_of (tr_peer_keys (bn_transport b)) a)"
    "map_of (tr_send_keys (bn_transport b')) a = (if a \<in> set dead then None else map_of (tr_send_keys (bn_transport b)) a)"
  unfolding b'_def using assms(1)
  by (induction dead arbitrary: b) (auto simp: funpow_swap1 keepalive_forget_def forget_peer_def simp del: funpow.simps(2) simp add: funpow_Suc_right)

text \<open>C33. An undisturbed turn of the keepalive task evicts exactly the silent peers: afterwards the registry
  holds those peers, unchanged, from which an authenticated packet arrived less than \<open>dead_after\<close> ago;
  the keys of the others are gone and no other key is touched; as many sequence numbers were drawn as
  there are registered peers, and what was sent went to registered peers.\<close>

theorem keepalive_tick_exact:
  assumes "keepalive_tick C J io_ok now dead_after b = (b', sent)"
  shows "(\<forall>a. map_of (bn_peers b') a =
      (if peer_alive (tr_last_seen (bn_transport b)) now dead_after a then map_of (bn_peers b) a else None)) \<and>
    (\<forall>a. map_of (tr_peer_keys (bn_transport b')) a =
      (if map_of (bn_peers b) a \<noteq> None \<and> map_of (bn_peers b') a = None then None else map_of (tr_peer_keys (bn_transport b)) a)) \<and>
    (\<forall>a. map_of (tr_send_keys (bn_transport b')) a =
      (if map_of (bn_peers b) a \<noteq> None \<and> map_of (bn_peers b') a = None then None else map_of (tr_send_keys (bn_transport b)) a)) \<and>
    tr_seq (bn_transport b') = tr_seq (bn_transport b) + of_nat (length (bn_peers b)) \<and>
    fst ` set sent \<subseteq> dom (map_of (bn_peers b))"
proof -
  let ?alive = "peer_alive (tr_last_seen (bn_transport b)) now dead_after"
  obtain b1 ds where s: "keepalive_send C J io_ok b = (b1, ds)" by (rule prod.exhaust)
  note f = send_each_frame [OF s [unfolded keepalive_send_def]]
  define b2 where "b2 = keepalive_evict now dead_after (keepalive_snapshot b1)"
  have b2: "bn_peers b2 = filter (\<lambda>(a, _). ?alive a) (bn_peers b)"
    "bn_dead b2 = map fst (filter (\<lambda>(a, _). \<not> ?alive a) (bn_peers b))" "bn_transport b2 = bn_transport b1"
    by (simp_all add: b2_def keepalive_evict_def keepalive_snapshot_def Let_def f(1,4))
  have b': "b' = (keepalive_forget ^^ length (bn_dead b2)) b2" "sent = ds"
    using assms by (simp_all add: keepalive_tick_def s b2_def Let_def)
  note g = keepalive_forget_all [OF refl, of b2, folded b'(1)]
  have dead: "a \<in> set (bn_dead b2) \<longleftrightarrow> map_of (bn_peers b) a \<noteq> None \<and> \<not> ?alive a" for a
    by (force simp: b2(2) map_of_eq_None_iff image_iff)
  have peers: "map_of (bn_peers b') a = (if ?alive a then map_of (bn_peers b) a else None)" for a
    by (simp add: g(1) b2(1) map_of_filter_key)
  have evicted: "a \<in> set (bn_dead b2) \<longleftrightarrow> map_of (bn_peers b) a \<noteq> None \<and> map_of (bn_peers b') a = None" for a
    by (auto simp: dead peers)
  have to: "(ob_to \<circ> snd) ` set (map (\<lambda>(a, _). (io_ok a, control_outbound J a TYPE_KEEPALIVE (JObj []) False)) ps) = fst ` set ps"
    for ps :: "(socket_addr \<times> peer_state) list"
    by (induction ps) (auto simp: control_outbound_def)
  have "fst ` set sent \<subseteq> dom (map_of (bn_peers b))"
    using f(6) unfolding to b'(2) by (simp add: dom_map_of_conv_image_fst)
  moreover have "tr_seq (bn_transport b') = tr_seq (bn_transport b) + of_nat (length (bn_peers b))"
    using g(3) f(5) by (simp add: b2(3))
  moreover have "\<forall>a. map_of (tr_peer_keys (bn_transport b')) a =
      (if map_of (bn_peers b) a \<noteq> None \<and> map_of (bn_peers b') a = None then None else map_of (tr_peer_keys (bn_transport b)) a)"
    using g(4) f(2) by (simp only: evicted b2(3)) blast
  moreover have "\<forall>a. map_of (tr_send_keys (bn_transport b')) a =
      (if map_of (bn_peers b) a \<noteq> None \<and> map_of (bn_peers b') a = None then None else map_of (tr_send_keys (bn_transport b)) a)"
    using g(5) f(3) by (simp only: evicted b2(3)) blast
  ultimately show ?thesis using peers by blast
qed

lemma band_send_locals: "band_send C io_ok out b = (b', r) \<Longrightarrow> bn_seen b' = bn_seen b"
  by (auto simp: band_send_def split: prod.splits)

lemma control_packet_registers:
  assumes "control_packet C J p c = (c', out)" "co_event out = Some (EvHello a host caps ciphers)"
  shows "a = in_from p" "map_of (ct_peers c') a \<noteq> None" "tr_last_seen (ct_transport c') = tr_last_seen (ct_transport c)"
proof -
  from assms(1) have "a = in_from p \<and> map_of (ct_peers c') a \<noteq> None \<and> tr_last_seen (ct_transport c') = tr_last_seen (ct_transport c)"
  proof (cases rule: control_packet_cases)
    case (hs ty payload)
    then show ?thesis
    proof (cases rule: on_handshake_cases)
      case (ok h c1 rebase)
      have "hs_event h = EvHello a host caps ciphers" using ok(3) assms(2) by simp
      then have "a = in_from p"
        using ok(1) by (auto simp: parse_handshake_def Let_def split: if_splits)
      with ok(4) admit_handshake_mark(4) [OF ok(2)] show ?thesis
        by (simp add: register_keys_def register_peer_key_def register_send_key_def Let_def)
    qed (use assms(2) in \<open>simp_all add: no_output_def\<close>)
  next
    case (other ty payload ev)
    then have "on_other (in_from p) (h_sequence (in_header p)) ty payload (prune_maps c) = (c', Some (EvHello a host caps ciphers))"
      using assms(2) by simp
    then show ?thesis by (auto simp: on_other_def Let_def split: prod.splits bool.splits if_splits option.splits)
  qed (use assms(2) in \<open>simp add: no_output_def\<close>)
  then show "a = in_from p" "map_of (ct_peers c') a \<noteq> None" "tr_last_seen (ct_transport c') = tr_last_seen (ct_transport c)" by blast+
qed

lemma band_control_packet_registers:
  assumes "band_control_packet C J io_ok p b = (b', ControlDelivery (Some (EvHello a host caps ciphers)) r, sent)"
  shows "a = in_from p" "map_of (bn_peers b') a \<noteq> None" "bn_seen b' = bn_seen b"
    "tr_last_seen (bn_transport b') = tr_last_seen (bn_transport b)"
proof -
  obtain c out where c: "control_packet C J p (bn_control b) = (c, out)" by (rule prod.exhaust)
  then have ev: "co_event out = Some (EvHello a host caps ciphers)"
    using assms by (auto simp: band_control_packet_def Let_def split: option.splits prod.splits sum.splits)
  note k = control_packet_registers [OF c ev]
  have "bn_peers b' = ct_peers c \<and> bn_seen b' = bn_seen b \<and> tr_last_seen (bn_transport b') = tr_last_seen (ct_transport c)"
  proof (cases "co_send out")
    case None
    then show ?thesis using assms band_control_packet_silent [OF c None] by auto
  next
    case (Some reply)
    obtain b1 x where x: "band_send C io_ok reply (b\<lparr>bn_control := c\<rparr>) = (b1, x)" by (rule prod.exhaust)
    have "b' = b1" using assms Some c x by (auto simp: band_control_packet_def Let_def split: sum.splits)
    then show ?thesis using band_send_frame(1,4) [OF x] band_send_locals [OF x] by simp
  qed
  with k show "a = in_from p" "map_of (bn_peers b') a \<noteq> None" "bn_seen b' = bn_seen b"
    "tr_last_seen (bn_transport b') = tr_last_seen (bn_transport b)" by simp_all
qed

text \<open>A peer that joins between two critical sections of the keepalive task is thrown out again: when a
  HELLO from an address without a liveness stamp is accepted after the task took its snapshot of the
  stamps, the peer is registered with a fresh stamp, and yet the eviction that follows removes it and
  puts its keys up for removal, however recent the packet and long the timeout.\<close>

theorem keepalive_evicts_newcomer:
  assumes "map_of (tr_last_seen (bn_transport b)) src = None"
    "band_recv C J io_ok now src data (keepalive_snapshot b) = (b', ControlDelivery (Some (EvHello src host caps ciphers)) r, sent)"
  shows "map_of (bn_peers b') src \<noteq> None \<and> map_of (tr_last_seen (bn_transport b')) src = Some now \<and>
    map_of (bn_peers (keepalive_evict now dead_after b')) src = None \<and> src \<in> set (bn_dead (keepalive_evict now dead_after b'))"
proof -
  let ?b = "keepalive_snapshot b"
  obtain t x where t: "transport_recv C now src data (bn_transport ?b) = (t, x)" by (rule prod.exhaust)
  from assms(2) t obtain sub pkt where x: "x = Some (sub, pkt)" by (cases x) (auto simp: band_recv_def)
  note tr = transport_recv_Some [OF t [unfolded x]]
  have "band_control_packet C J io_ok pkt (set_transport t ?b) = (b', ControlDelivery (Some (EvHello src host caps ciphers)) r, sent)"
    using assms(2) t x by (auto simp: band_recv_def band_dispatch_def Let_def split: channel_type.splits prod.splits)
  note k = band_control_packet_registers [OF this]
  have "bn_seen b' = tr_last_seen (bn_transport b)" using k(3) by (simp add: keepalive_snapshot_def)
  then have "\<not> peer_alive (bn_seen b') now dead_after src" using assms(1) by (simp add: peer_alive_def)
  moreover have "\<exists>s. (src, s) \<in> set (bn_peers b')" using k(2) map_of_SomeD by fast
  ultimately show ?thesis
    using k(2,4) tr(1) by (auto simp: keepalive_evict_def Let_def map_of_filter_key image_iff)
qed

section \<open>Witnesses\<close>

lemma demo_b_bound:
  "bind_with_options demo_ops True None (replicate 8 9) [1, 2, 3] ''b'' (demo_options [''aes256-gcm'', ''x'']) = Inr demo_b"
  by (simp add: demo_b_def demo_band_def bind_with_options_def Let_def)

theorem band_registry_consistent_witness:
  "length (bn_peers (fst (band_recv demo_ops demo_json True 5 (SocketAddrV4 1 1) demo_hello demo_b))) \<le> PEER_MAP_SOFT_CAP"
proof -
  obtain b' got sent where r: "band_recv demo_ops demo_json True 5 (SocketAddrV4 1 1) demo_hello demo_b = (b', got, sent)"
    by (rule prod_cases3)
  have "(band_step demo_ops demo_json)\<^sup>*\<^sup>* demo_b b'" by (rule r_into_rtranclp) (rule band_step.datagram [OF r])
  from band_registry_consistent [OF demo_b_bound this] show ?thesis by (simp add: r)
qed

text \<open>A band with one peer, seen at time 5.\<close>

definition demo_one_peer :: band where
  "demo_one_peer = set_transport (bn_transport demo_b\<lparr>tr_last_seen := [(SocketAddrV4 1 1, 5)]\<rparr>)
     (set_peers [(SocketAddrV4 1 1, \<lparr>ps_hostname = ''a'', ps_capabilities = [], ps_cipher = BASELINE_CIPHER, ps_session_epoch = 7\<rparr>)] demo_b)"

theorem keepalive_tick_exact_witness:
  "map_of (bn_peers (fst (keepalive_tick demo_ops demo_json (\<lambda>_. True) 7 3 demo_one_peer))) (SocketAddrV4 1 1) \<noteq> None \<and>
   map_of (bn_peers (fst (keepalive_tick demo_ops demo_json (\<lambda>_. True) 8 3 demo_one_peer))) (SocketAddrV4 1 1) = None"
proof -
  have "map_of (bn_peers (fst (keepalive_tick demo_ops demo_json (\<lambda>_. True) t 3 demo_one_peer))) a =
      (if peer_alive (tr_last_seen (bn_transport demo_one_peer)) t 3 a then map_of (bn_peers demo_one_peer) a else None)" for t a
    using keepalive_tick_exact [OF surjective_pairing, of demo_ops demo_json "\<lambda>_. True" t 3 demo_one_peer] by blast
  then show ?thesis by (simp add: demo_one_peer_def peer_alive_def)
qed

theorem keepalive_evicts_newcomer_witness:
  "map_of (bn_peers (keepalive_evict 5 15000 (fst (band_recv demo_ops demo_json True 5 (SocketAddrV4 1 1) demo_hello
     (keepalive_snapshot demo_b))))) (SocketAddrV4 1 1) = None"
proof -
  let ?r = "band_recv demo_ops demo_json True 5 (SocketAddrV4 1 1) demo_hello (keepalive_snapshot demo_b)"
  have "(case fst (snd ?r) of ControlDelivery (Some (EvHello a _ _ _)) _ \<Rightarrow> a = SocketAddrV4 1 1 | _ \<Rightarrow> False)" by code_simp
  then obtain host caps ciphers x where
    "?r = (fst ?r, ControlDelivery (Some (EvHello (SocketAddrV4 1 1) host caps ciphers)) x, snd (snd ?r))"
    by (cases ?r) (auto split: band_delivery.splits option.splits control_event.splits)
  then have "?thesis" if "map_of (tr_last_seen (bn_transport demo_b)) (SocketAddrV4 1 1) = None"
    using keepalive_evicts_newcomer [OF that] by blast
  then show ?thesis by (simp add: bind_band(13) [OF demo_b_bound])
qed

end
