(* ===== verification/Board_Net.thy ===== *)
theory Board_Net
  imports Board
begin

text \<open>
  Boards on a network that loses, repeats and reorders: every member writes locally, any update ever
  issued may be merged by any member at any time, and a member may merge the snapshot of another.
  Members that have taken in the same updates hold the same board; and two members whose digests
  differ agree after exchanging snapshots, which travel as JSON in fragments.
\<close>

section \<open>The network\<close>

record board_node =
  nd_core :: board_core
  nd_seen :: "set_payload list"

record board_net =
  bn_nodes :: "board_node list"
  bn_issued :: "set_payload list"

datatype board_act =
    ActSet nat string json
  | ActDelete nat string
  | ActMerge nat nat
  | ActSync nat nat

definition net_start :: "string list \<Rightarrow> board_net" where
  "net_start actors = \<lparr>bn_nodes = map (\<lambda>a. \<lparr>nd_core = board_new a, nd_seen = []\<rparr>) actors, bn_issued = []\<rparr>"

definition node_write :: "nat \<Rightarrow> board_core \<times> set_payload \<Rightarrow> board_net \<Rightarrow> board_net" where
  "node_write i w n = n\<lparr>bn_nodes := (bn_nodes n)[i := \<lparr>nd_core = fst w, nd_seen = snd w # nd_seen (bn_nodes n ! i)\<rparr>],
     bn_issued := bn_issued n @ [snd w]\<rparr>"

definition node_learn :: "nat \<Rightarrow> board_core \<Rightarrow> set_payload list \<Rightarrow> board_net \<Rightarrow> board_net" where
  "node_learn i c ps n =
     n\<lparr>bn_nodes := (bn_nodes n)[i := \<lparr>nd_core = c, nd_seen = ps @ nd_seen (bn_nodes n ! i)\<rparr>]\<rparr>"

text \<open>An action on a member or an update that does not exist does nothing.\<close>

fun net_act :: "board_act \<Rightarrow> board_net \<Rightarrow> board_net" where
  "net_act (ActSet i k v) n =
     (if i < length (bn_nodes n) then node_write i (board_set k v (nd_core (bn_nodes n ! i))) n else n)"
| "net_act (ActDelete i k) n =
     (if i < length (bn_nodes n) then node_write i (board_delete k (nd_core (bn_nodes n ! i))) n else n)"
| "net_act (ActMerge i m) n =
     (if i < length (bn_nodes n) \<and> m < length (bn_issued n)
      then node_learn i (fst (merge_entry (bn_issued n ! m) (nd_core (bn_nodes n ! i)))) [bn_issued n ! m] n else n)"
| "net_act (ActSync i j) n =
     (if i < length (bn_nodes n) \<and> j < length (bn_nodes n)
      then node_learn i (fst (merge_entries (board_snapshot (nd_core (bn_nodes n ! j))) (nd_core (bn_nodes n ! i))))
             (nd_seen (bn_nodes n ! j)) n
      else n)"

section \<open>Its invariant\<close>

text \<open>After at most \<open>t\<close> actions: every member stands for what it has seen, all of it issued; a writer's
  clock bounds its own updates; two updates with one timestamp are the same update.\<close>

definition net_node_ok :: "nat \<Rightarrow> set_payload set \<Rightarrow> board_node \<Rightarrow> bool" where
  "net_node_ok t P nd \<longleftrightarrow> brd.stands_for (nd_core nd) (set (nd_seen nd)) \<and> set (nd_seen nd) \<subseteq> P \<and>
     unat (bc_lamport (nd_core nd)) \<le> t \<and>
     (\<forall>p \<in> P. snd (sp_ts p) = bc_actor (nd_core nd) \<longrightarrow> fst (sp_ts p) \<le> bc_lamport (nd_core nd))"

definition net_ok :: "string list \<Rightarrow> nat \<Rightarrow> board_net \<Rightarrow> bool" where
  "net_ok actors t n \<longleftrightarrow> map (bc_actor \<circ> nd_core) (bn_nodes n) = actors \<and>
     (\<forall>nd \<in> set (bn_nodes n). net_node_ok t (set (bn_issued n)) nd) \<and>
     (\<forall>p \<in> set (bn_issued n). unat (fst (sp_ts p)) \<le> t) \<and>
     (\<forall>p \<in> set (bn_issued n). \<forall>q \<in> set (bn_issued n). sp_ts p = sp_ts q \<longrightarrow> p = q)"

lemma stands_for_inv: "brd.stands_for c S \<Longrightarrow> board_inv c"
  by (simp add: brd.stands_for_def)

lemma net_ok_mono: "net_ok actors t n \<Longrightarrow> t \<le> u \<Longrightarrow> net_ok actors u n"
  by (fastforce simp: net_ok_def net_node_ok_def)

lemma net_ok_start: "net_ok actors 0 (net_start actors)"
  using brd.stands_for_empty [OF board_inv_new]
  by (auto simp: net_ok_def net_start_def net_node_ok_def board_view_def) (auto simp: board_new_def comp_def)

lemma list_update_all:
  assumes "P x" "\<And>j. j < length xs \<Longrightarrow> j \<noteq> i \<Longrightarrow> P (xs ! j)"
  shows "\<forall>y \<in> set (xs[i := x]). P y"
proof
  fix y assume "y \<in> set (xs[i := x])"
  then obtain j where "j < length xs" "y = xs[i := x] ! j" by (auto simp: in_set_conv_nth)
  with assms show "P y" by (cases "j = i") auto
qed

lemma net_ok_write:
  assumes ok: "net_ok actors t n" and i: "i < length (bn_nodes n)" and t: "Suc t < 2 ^ 64" and d: "distinct actors"
    and w: "fst w = board_merge (snd w) (nd_core (bn_nodes n ! i))"
      "sp_ts (snd w) = (bc_lamport (nd_core (bn_nodes n ! i)) + 1, bc_actor (nd_core (bn_nodes n ! i)))"
  shows "net_ok actors (Suc t) (node_write i w n)"
proof -
  let ?nd = "bn_nodes n ! i" and ?p = "snd w" and ?P = "set (bn_issued n)"
  let ?c = "nd_core ?nd"
  have a: "map (bc_actor \<circ> nd_core) (bn_nodes n) = actors" using ok by (simp add: net_ok_def)
  have nd: "net_node_ok t ?P ?nd" using ok i by (simp add: net_ok_def)
  then have l: "unat (bc_lamport ?c) \<le> t" by (simp add: net_node_ok_def)
  have "unat (- 1 :: u64) = 2 ^ 64 - 1" by (simp add: unsigned_minus_1_eq_mask mask_eq_exp_minus_1)
  with l t have "bc_lamport ?c \<noteq> - 1" by auto
  then have up: "bc_lamport ?c < bc_lamport ?c + 1" and ul: "unat (bc_lamport ?c + 1) \<le> Suc t"
    using l word_less_plus_one [of "bc_lamport ?c"] by (simp_all add: unat_plus_one)
  have own: "fst (sp_ts p) \<le> bc_lamport ?c" if "p \<in> ?P" "snd (sp_ts p) = bc_actor ?c" for p
    using nd that by (simp add: net_node_ok_def)
  have fresh: "sp_ts p \<noteq> sp_ts ?p" if "p \<in> ?P" for p
    using own [OF that] up w(2) by auto
  have "brd.stands_for (fst w) (set (?p # nd_seen ?nd))"
    using nd brd.stands_for_merge [of ?c "set (nd_seen ?nd)" ?p] w(1) by (simp add: net_node_ok_def)
  moreover have "bc_lamport (fst w) = bc_lamport ?c + 1" "bc_actor (fst w) = bc_actor ?c"
    using up w by (simp_all add: max_def)
  ultimately have new: "net_node_ok (Suc t) (insert ?p ?P) \<lparr>nd_core = fst w, nd_seen = ?p # nd_seen ?nd\<rparr>"
    using nd ul order.trans [OF own less_imp_le [OF up]] w(2) by (auto simp: net_node_ok_def)
  have old: "net_node_ok (Suc t) (insert ?p ?P) (bn_nodes n ! j)" if "j < length (bn_nodes n)" "j \<noteq> i" for j
  proof -
    have "bc_actor (nd_core (bn_nodes n ! j)) \<noteq> bc_actor ?c"
      using d a i that nth_eq_iff_index_eq [of actors j i] by (metis (no_types, lifting) comp_apply length_map nth_map)
    moreover have "net_node_ok t ?P (bn_nodes n ! j)" using ok that by (simp add: net_ok_def)
    ultimately show ?thesis using w(2) by (auto simp: net_node_ok_def)
  qed
  have "\<forall>nd \<in> set ((bn_nodes n)[i := \<lparr>nd_core = fst w, nd_seen = ?p # nd_seen ?nd\<rparr>]).
      net_node_ok (Suc t) (insert ?p ?P) nd"
    by (rule list_update_all) (use new old in simp_all)
  moreover have "map (bc_actor \<circ> nd_core) ((bn_nodes n)[i := \<lparr>nd_core = fst w, nd_seen = ?p # nd_seen ?nd\<rparr>]) = actors"
    using a i w(1) by (auto simp: map_update list_update_same_conv)
  moreover have "\<forall>p \<in> insert ?p ?P. unat (fst (sp_ts p)) \<le> Suc t"
    using ok ul w(2) by (auto simp: net_ok_def)
  moreover have "\<forall>p \<in> insert ?p ?P. \<forall>q \<in> insert ?p ?P. sp_ts p = sp_ts q \<longrightarrow> p = q"
    using ok fresh by (auto simp: net_ok_def) (metis fresh)+
  ultimately show ?thesis by (simp add: net_ok_def node_write_def)
qed

lemma net_ok_learn:
  assumes ok: "net_ok actors t n" and i: "i < length (bn_nodes n)"
    and c: "brd.stands_for c (set (ps @ nd_seen (bn_nodes n ! i)))" "set ps \<subseteq> set (bn_issued n)"
      "bc_actor c = bc_actor (nd_core (bn_nodes n ! i))"
      "bc_lamport (nd_core (bn_nodes n ! i)) \<le> bc_lamport c" "unat (bc_lamport c) \<le> t"
  shows "net_ok actors t (node_learn i c ps n)"
proof -
  let ?nd = "bn_nodes n ! i" and ?P = "set (bn_issued n)"
  have nd: "net_node_ok t ?P ?nd" using ok i by (simp add: net_ok_def)
  then have "net_node_ok t ?P \<lparr>nd_core = c, nd_seen = ps @ nd_seen ?nd\<rparr>"
    using c by (auto simp: net_node_ok_def intro: order.trans [OF _ c(4)])
  then have "\<forall>nd \<in> set ((bn_nodes n)[i := \<lparr>nd_core = c, nd_seen = ps @ nd_seen ?nd\<rparr>]). net_node_ok t ?P nd"
    by (rule list_update_all) (use ok in \<open>simp add: net_ok_def\<close>)
  moreover have "map (bc_actor \<circ> nd_core) ((bn_nodes n)[i := \<lparr>nd_core = c, nd_seen = ps @ nd_seen ?nd\<rparr>]) = actors"
    using ok i c(3) by (auto simp: net_ok_def map_update list_update_same_conv)
  ultimately show ?thesis using ok by (simp add: net_ok_def node_learn_def)
qed

lemma snapshot_covers:
  "board_view c k = Some e \<Longrightarrow> \<exists>p \<in> set (board_snapshot c). sp_key p = k \<and> payload_entry p = e"
  by (force simp: board_view_def board_snapshot_def dest: map_of_SomeD)

text \<open>An update is determined by its key and its entry, so a snapshot holds issued updates only.\<close>

lemma payload_eqI: "sp_key p = sp_key q \<Longrightarrow> payload_entry p = payload_entry q \<Longrightarrow> p = q"
  by (cases p; cases q) (auto simp: payload_entry_def prod_eq_iff)

lemma snapshot_seen:
  assumes "brd.stands_for c S" "p \<in> set (board_snapshot c)"
  shows "p \<in> S"
proof -
  from assms(2) obtain k e where ke: "(k, e) \<in> set (bc_entries c)" "p = to_payload k e"
    by (auto simp: board_snapshot_def)
  have "wf_bt (bc_entries c)" using assms(1) stands_for_inv board_inv_def by blast
  with ke(1) have "board_view c k = Some e" by (simp add: board_view_def wf_bt_distinct)
  then obtain q where "q \<in> S" "sp_key q = k" "payload_entry q = e"
    using assms(1) by (auto simp: brd.stands_for_def)
  with ke(2) payload_eqI [of p q] show ?thesis by simp
qed

lemma merges_lamport:
  "bc_actor (fold board_merge ps c) = bc_actor c"
  "bc_lamport c \<le> bc_lamport (fold board_merge ps c)"
  "unat (bc_lamport c) \<le> t \<Longrightarrow> (\<And>p. p \<in> set ps \<Longrightarrow> unat (fst (sp_ts p)) \<le> t) \<Longrightarrow>
     unat (bc_lamport (fold board_merge ps c)) \<le> t"
proof -
  show "bc_actor (fold board_merge ps c) = bc_actor c" by (induction ps arbitrary: c) auto
  have le: "bc_lamport c \<le> bc_lamport (board_merge p c)" for p c by simp
  show "bc_lamport c \<le> bc_lamport (fold board_merge ps c)"
    by (induction ps arbitrary: c) (auto intro: order.trans [OF le])
  show "unat (bc_lamport c) \<le> t \<Longrightarrow> (\<And>p. p \<in> set ps \<Longrightarrow> unat (fst (sp_ts p)) \<le> t) \<Longrightarrow>
     unat (bc_lamport (fold board_merge ps c)) \<le> t"
    by (induction ps arbitrary: c) (simp_all add: max_def)
qed

lemma net_ok_act:
  assumes ok: "net_ok actors t n" and t: "Suc t < 2 ^ 64" and d: "distinct actors"
  shows "net_ok actors (Suc t) (net_act a n)"
proof -
  have keep: "net_ok actors (Suc t) n" by (rule net_ok_mono [OF ok]) simp
  have nd: "brd.stands_for (nd_core (bn_nodes n ! i)) (set (nd_seen (bn_nodes n ! i)))"
    "set (nd_seen (bn_nodes n ! i)) \<subseteq> set (bn_issued n)" "unat (bc_lamport (nd_core (bn_nodes n ! i))) \<le> t"
    if "i < length (bn_nodes n)" for i
    using ok that by (simp_all add: net_ok_def net_node_ok_def)
  have iss: "unat (fst (sp_ts p)) \<le> t" if "p \<in> set (bn_issued n)" for p
    using ok that by (simp add: net_ok_def)
  have inv: "board_inv (nd_core (bn_nodes n ! i))" "bc_lamport (nd_core (bn_nodes n ! i)) \<noteq> - 1"
    if "i < length (bn_nodes n)" for i
  proof -
    have "unat (- 1 :: u64) = 2 ^ 64 - 1" by (simp add: unsigned_minus_1_eq_mask mask_eq_exp_minus_1)
    with nd(3) [OF that] t show "bc_lamport (nd_core (bn_nodes n ! i)) \<noteq> - 1" by auto
  qed (rule stands_for_inv [OF nd(1) [OF that]])
  show ?thesis
  proof (cases a)
    case (ActSet i k v)
    obtain c p where w: "board_set k v (nd_core (bn_nodes n ! i)) = (c, p)" by (rule prod.exhaust)
    have "net_ok actors (Suc t) (node_write i (c, p) n)" if "i < length (bn_nodes n)"
      by (rule net_ok_write [OF ok that t d]) (use board_set_merge [OF inv [OF that] w] in simp_all)
    with ActSet keep w show ?thesis by simp
  next
    case (ActDelete i k)
    obtain c p where w: "board_delete k (nd_core (bn_nodes n ! i)) = (c, p)" by (rule prod.exhaust)
    have "net_ok actors (Suc t) (node_write i (c, p) n)" if "i < length (bn_nodes n)"
      by (rule net_ok_write [OF ok that t d]) (use board_delete_merge [OF inv [OF that] w] in simp_all)
    with ActDelete keep w show ?thesis by simp
  next
    case (ActMerge i m)
    let ?p = "bn_issued n ! m" and ?c = "nd_core (bn_nodes n ! i)"
    have "net_ok actors t (node_learn i (board_merge ?p ?c) [?p] n)"
      if im: "i < length (bn_nodes n)" "m < length (bn_issued n)"
      using net_ok_learn [OF ok im(1), of "fold board_merge [?p] ?c" "[?p]"] brd.stands_for_merge [OF nd(1) [OF im(1)], of ?p]
        merges_lamport [where ps = "[?p]" and c = ?c] nd(3) [OF im(1)] iss im(2) by simp
    with ActMerge keep show ?thesis by (auto simp: board_merge_def intro: net_ok_mono)
  next
    case (ActSync i j)
    let ?c = "nd_core (bn_nodes n ! i)" and ?s = "board_snapshot (nd_core (bn_nodes n ! j))"
    have "net_ok actors t (node_learn i (fold board_merge ?s ?c) (nd_seen (bn_nodes n ! j)) n)"
      if ij: "i < length (bn_nodes n)" "j < length (bn_nodes n)"
    proof (rule net_ok_learn [OF ok ij(1)])
      have "brd.stands_for (fold board_merge ?s ?c) (set (nd_seen (bn_nodes n ! i)) \<union> set (nd_seen (bn_nodes n ! j)))"
        by (rule brd.stands_for_join [OF nd(1) [OF ij(1)] nd(1) [OF ij(2)]])
          (auto intro: snapshot_seen [OF nd(1) [OF ij(2)]] snapshot_covers)
      then show "brd.stands_for (fold board_merge ?s ?c) (set (nd_seen (bn_nodes n ! j) @ nd_seen (bn_nodes n ! i)))"
        by (simp add: Un_commute)
      show "unat (bc_lamport (fold board_merge ?s ?c)) \<le> t"
        using merges_lamport(3) [OF nd(3) [OF ij(1)]] iss nd(2) [OF ij(2)] snapshot_seen [OF nd(1) [OF ij(2)]]
        by blast
    qed (use nd(2) [OF ij(2)] merges_lamport in auto)
    with ActSync keep show ?thesis by (auto simp: merge_entries_fold intro: net_ok_mono)
  qed
qed

lemma net_ok_run:
  "net_ok actors t n \<Longrightarrow> t + length as < 2 ^ 64 \<Longrightarrow> distinct actors \<Longrightarrow> net_ok actors (t + length as) (fold net_act as n)"
proof (induction as arbitrary: t n)
  case (Cons a as)
  from Cons.IH [OF net_ok_act [OF Cons.prems(1) _ Cons.prems(3), of a]] Cons.prems show ?case by simp
qed simp

section \<open>Convergence\<close>

text \<open>C20. Boards converge: after any schedule of fewer than 2^64 local writes, deletes, merges of issued
  updates (in any order, any number of times, or never) and snapshot exchanges among members with
  distinct names, two members that have taken in the same set of updates hold exactly the same
  entries, tombstones included, hence the same live items and the same digest.\<close>

theorem board_converges:
  assumes "distinct actors" "length as < 2 ^ 64" "n = fold net_act as (net_start actors)"
    "i < length (bn_nodes n)" "j < length (bn_nodes n)"
    "set (nd_seen (bn_nodes n ! i)) = set (nd_seen (bn_nodes n ! j))"
  shows "bc_entries (nd_core (bn_nodes n ! i)) = bc_entries (nd_core (bn_nodes n ! j)) \<and>
    board_items (nd_core (bn_nodes n ! i)) = board_items (nd_core (bn_nodes n ! j)) \<and>
    board_digest C (nd_core (bn_nodes n ! i)) = board_digest C (nd_core (bn_nodes n ! j))"
proof -
  have ok: "net_ok actors (length as) n"
    using net_ok_run [OF net_ok_start _ assms(1), of as] assms(2,3) by simp
  have s: "brd.stands_for (nd_core (bn_nodes n ! i)) (set (nd_seen (bn_nodes n ! j)))"
    "brd.stands_for (nd_core (bn_nodes n ! j)) (set (nd_seen (bn_nodes n ! j)))"
    "set (nd_seen (bn_nodes n ! j)) \<subseteq> set (bn_issued n)"
  proof -
    have "net_node_ok (length as) (set (bn_issued n)) (bn_nodes n ! k)" if "k < length (bn_nodes n)" for k
      using ok that by (simp add: net_ok_def)
    from this [OF assms(4)] this [OF assms(5)] assms(6)
    show "brd.stands_for (nd_core (bn_nodes n ! i)) (set (nd_seen (bn_nodes n ! j)))"
      "brd.stands_for (nd_core (bn_nodes n ! j)) (set (nd_seen (bn_nodes n ! j)))"
      "set (nd_seen (bn_nodes n ! j)) \<subseteq> set (bn_issued n)"
      unfolding net_node_ok_def by simp_all
  qed
  have "sp_ts p = sp_ts q" if "entry_ts (payload_entry p) = entry_ts (payload_entry q)" for p q
    using that by (simp add: entry_ts_def payload_entry_def prod_eq_iff)
  then have "brd.consistent (set (nd_seen (bn_nodes n ! j)))"
    using ok s(3) unfolding brd.consistent_def net_ok_def by blast
  from brd.stands_for_agree [OF s(1,2) this]
  have "bc_entries (nd_core (bn_nodes n ! i)) = bc_entries (nd_core (bn_nodes n ! j))"
    by (rule board_eqI [OF stands_for_inv [OF s(1)] stands_for_inv [OF s(2)]])
  then show ?thesis by (simp add: board_items_def board_digest_def digest_input_def)
qed

text \<open>Two members write the same key, one deletes it; they exchange in different orders.\<close>

definition demo_board_acts :: "board_act list" where
  "demo_board_acts = [ActSet 0 ''k'' (JPos 1), ActSet 1 ''k'' (JPos 2), ActSet 1 ''l'' (JPos 3),
     ActMerge 0 1, ActDelete 0 ''k'', ActMerge 1 3, ActMerge 1 0, ActSync 0 1, ActMerge 1 1, ActSync 1 0]"

theorem board_converges_witness:
  "board_items (nd_core (bn_nodes (fold net_act demo_board_acts (net_start [''a'', ''b''])) ! 0)) = [(''l'', JPos 3)] \<and>
   bc_entries (nd_core (bn_nodes (fold net_act demo_board_acts (net_start [''a'', ''b''])) ! 0)) =
   bc_entries (nd_core (bn_nodes (fold net_act demo_board_acts (net_start [''a'', ''b''])) ! 1))"
proof
  let ?n = "fold net_act demo_board_acts (net_start [''a'', ''b''])"
  show "board_items (nd_core (bn_nodes ?n ! 0)) = [(''l'', JPos 3)]" by code_simp
  have "length (bn_nodes ?n) = 2" "distinct [''a'', ''b'']" "length demo_board_acts = 10"
    "set (nd_seen (bn_nodes ?n ! 0)) = set (nd_seen (bn_nodes ?n ! 1))" by code_simp+
  then show "bc_entries (nd_core (bn_nodes ?n ! 0)) = bc_entries (nd_core (bn_nodes ?n ! 1))"
    using board_converges [of "[''a'', ''b'']" demo_board_acts ?n 0 1] by simp
qed

end
