(* ===== verification/Board_Sync.thy ===== *)
theory Board_Sync
  imports Board_Net
begin

text \<open>
  Anti-entropy end to end: the snapshot of one board, as JSON in fragments, taken in by the task of
  another; and the exchange of two snapshots, after which a digest probe finds nothing to repair.
\<close>

section \<open>The messages survive the wire\<close>

text \<open>The type invariant of \<open>serde_json::Value\<close>: an object is a map.\<close>

definition is_value :: "json \<Rightarrow> bool" where
  "is_value j \<longleftrightarrow> value_of j = j"

lemma value_of_set_payload:
  "value_of (of_set_payload p) = JObj [(''deleted'', JBool (sp_deleted p)), (''key'', JStr (sp_key p)),
     (''ts'', JArr [JPos (fst (sp_ts p)), JStr (snd (sp_ts p))]), (''value'', value_of (sp_value p))]"
  by (simp add: of_set_payload_def)

lemma json_set_payload_of:
  "is_value (sp_value p) \<Longrightarrow> json_set_payload (value_of (of_set_payload p)) = Some p"
  by (simp add: value_of_set_payload json_set_payload_def json_struct_def json_field_def json_default_def is_value_def)

lemma json_snapshot_of:
  assumes "\<And>p. p \<in> set ps \<Longrightarrow> is_value (sp_value p)"
  shows "json_snapshot (value_of (of_snapshot ps)) = Some ps"
proof -
  have "json_seq json_set_payload (map (value_of \<circ> of_set_payload) ps) = Some ps"
    by (rule json_seq_map) (simp add: json_set_payload_of assms)
  then show ?thesis
    by (simp add: of_snapshot_def json_snapshot_def json_struct_def json_default_def)
qed

lemma json_digest_of: "json_digest_payload (value_of (of_digest_payload d)) = Some d"
  by (cases "dp_count d"; cases "dp_hash d")
    (simp_all add: of_digest_payload_def json_digest_payload_def json_struct_def json_default_def)

section \<open>Taking in a snapshot\<close>

fun board_run ::
  "crypto_ops \<Rightarrow> json_ops \<Rightarrow> board_event list \<Rightarrow> board_endpoint \<Rightarrow>
     (board_endpoint \<times> board_change list \<times> outbound list) option" where
  "board_run C J [] b = Some (b, [], [])"
| "board_run C J (e # es) b = Option.bind (board_step C J e b) (\<lambda>(b, chs, outs).
     map_option (\<lambda>(b, chs', outs'). (b, chs @ chs', outs @ outs')) (board_run C J es b))"

definition peer_reassembler :: "socket_addr \<Rightarrow> board_endpoint \<Rightarrow> reassembler" where
  "peer_reassembler a b = (case map_of (bd_reassemblers b) a of Some r \<Rightarrow> r | None \<Rightarrow> for_chunk_size MAX_CHUNK_PAYLOAD)"

definition above_mark :: "socket_addr \<Rightarrow> u64 \<Rightarrow> board_endpoint \<Rightarrow> bool" where
  "above_mark a q b \<longleftrightarrow> (case map_of (bd_watermark b) a of None \<Rightarrow> True | Some p \<Rightarrow> p < q)"

lemma board_step_chunk:
  assumes "above_mark (in_from p) (h_sequence (in_header p)) b" "in_payload p = 0x01 # rest"
    "feed now (in_payload p) (peer_reassembler (in_from p) b) = (r, out)"
  obtains b1 where "bd_core b1 = bd_core b" "bd_id b1 = bd_id b" "peer_reassembler (in_from p) b1 = r"
    "map_of (bd_watermark b1) (in_from p) = Some (h_sequence (in_header p))"
    "board_step C J (BoardPacket now fid p) b =
      (case out of None \<Rightarrow> Some (b1, [], []) | Some payload \<Rightarrow>
         (case Option.bind (js_parse J payload) json_envelope of
            None \<Rightarrow> Some (b1, [], [])
          | Some (ty, body) \<Rightarrow> map_option (\<lambda>(c, chs, outs). (b1\<lparr>bd_core := c\<rparr>, chs, outs))
              (board_message C J fid (bd_id b1) (in_from p) ty body (bd_core b1))))"
proof
  let ?b = "b\<lparr>bd_watermark := hm_insert (in_from p) (h_sequence (in_header p)) (bd_watermark b),
    bd_reassemblers := hm_insert (in_from p) r (bd_reassemblers b)\<rparr>"
  have "watermark_check (in_from p) (h_sequence (in_header p)) (bd_watermark b)
      = (hm_insert (in_from p) (h_sequence (in_header p)) (bd_watermark b), True)"
    using assms(1) by (auto simp: above_mark_def watermark_check_def split: option.splits)
  then show "board_step C J (BoardPacket now fid p) b =
      (case out of None \<Rightarrow> Some (?b, [], []) | Some payload \<Rightarrow>
         (case Option.bind (js_parse J payload) json_envelope of
            None \<Rightarrow> Some (?b, [], [])
          | Some (ty, body) \<Rightarrow> map_option (\<lambda>(c, chs, outs). (?b\<lparr>bd_core := c\<rparr>, chs, outs))
              (board_message C J fid (bd_id ?b) (in_from p) ty body (bd_core ?b))))"
    using assms(2,3) by (simp add: board_unwrap_def peer_reassembler_def split: option.splits)
qed (simp_all add: peer_reassembler_def)

text \<open>Chunks that do not complete a message change nothing but the mark and the reassembler.\<close>

lemma board_run_chunks:
  assumes "length ts = length ps" "\<And>p. p \<in> set ps \<Longrightarrow> in_from p = src \<and> (\<exists>rest. in_payload p = 0x01 # rest)"
    "sorted_wrt (<) (map (h_sequence \<circ> in_header) ps)" "\<And>p. p \<in> set ps \<Longrightarrow> above_mark src (h_sequence (in_header p)) b"
    "feeds (zip ts (map in_payload ps)) (peer_reassembler src b) = (r, replicate (length ps) None)"
  obtains b1 where "bd_core b1 = bd_core b" "bd_id b1 = bd_id b" "peer_reassembler src b1 = r"
    "ps \<noteq> [] \<Longrightarrow> map_of (bd_watermark b1) src = Some (h_sequence (in_header (last ps)))" "ps = [] \<Longrightarrow> b1 = b"
    "\<And>es. board_run C J (map2 (\<lambda>t p. BoardPacket t fid p) ts ps @ es) b = board_run C J es b1"
  using assms
proof (induction ps arbitrary: ts b thesis)
  case (Cons p ps)
  obtain t ts' where ts: "ts = t # ts'" using Cons.prems(2) by (cases ts) auto
  have p: "in_from p = src" and above: "above_mark src (h_sequence (in_header p)) b" using Cons.prems(3,5) by auto
  obtain rest where rest: "in_payload p = 0x01 # rest" using Cons.prems(3) [of p] by auto
  obtain r1 out where f: "feed t (in_payload p) (peer_reassembler src b) = (r1, out)" by (rule prod.exhaust)
  obtain r2 outs where g: "feeds (zip ts' (map in_payload ps)) r1 = (r2, outs)" by (rule prod.exhaust)
  have out: "out = None" "outs = replicate (length ps) None" "r2 = r"
    using Cons.prems(6) f g by (simp_all add: ts)
  obtain b1 where b1: "bd_core b1 = bd_core b" "bd_id b1 = bd_id b" "peer_reassembler src b1 = r1"
    "map_of (bd_watermark b1) src = Some (h_sequence (in_header p))"
    "board_step C J (BoardPacket t fid p) b = Some (b1, [], [])"
    by (rule board_step_chunk [of p b rest t r1 out, unfolded p, OF above rest f]) (use out(1) in auto)
  have up: "above_mark src (h_sequence (in_header q)) b1" if "q \<in> set ps" for q
    using Cons.prems(4) that b1(4) by (simp add: above_mark_def)
  obtain b2 where b2: "bd_core b2 = bd_core b1" "bd_id b2 = bd_id b1" "peer_reassembler src b2 = r"
    "ps \<noteq> [] \<Longrightarrow> map_of (bd_watermark b2) src = Some (h_sequence (in_header (last ps)))" "ps = [] \<Longrightarrow> b2 = b1"
    "\<And>es. board_run C J (map2 (\<lambda>t p. BoardPacket t fid p) ts' ps @ es) b1 = board_run C J es b2"
    by (rule Cons.IH [where ts = ts' and b = b1]) (use Cons.prems(2-4) up g out(2,3) b1(3) in \<open>auto simp: ts\<close>)
  show ?case
  proof (rule Cons.prems(1) [of b2])
    show "board_run C J (map2 (\<lambda>t p. BoardPacket t fid p) ts (p # ps) @ es) b = board_run C J es b2" for es
      using b1(5) b2(6) [of es] by (simp add: ts option.map_id case_prod_beta del: board_step.simps)
    show "map_of (bd_watermark b2) src = Some (h_sequence (in_header (last (p # ps))))"
      using b1(4) b2(4,5) by (cases "ps = []") auto
  qed (use b1 b2 in auto)
qed simp

text \<open>The chunks of one fragmented message, in order.\<close>

lemma feeds_whole_message:
  assumes "fragment payload MAX_CHUNK_PAYLOAD fid = Some pkts" "length fid = 16" "length ts = length pkts"
    "\<And>t. t \<in> set ts \<Longrightarrow> t - hd ts \<le> DEFAULT_REASSEMBLY_TIMEOUT"
  shows "snd (feeds (zip ts pkts) (for_chunk_size MAX_CHUNK_PAYLOAD)) = replicate (length pkts - 1) None @ [Some payload]"
proof -
  let ?s = "zip ts [0..<length pkts]"
  have "0 < MAX_CHUNK_PAYLOAD" by (simp add: MAX_CHUNK_PAYLOAD_def MAX_CHANNEL_DATA_def FRAG_HEADER_LEN_def)
  then have "pieces MAX_CHUNK_PAYLOAD payload \<noteq> []" by (simp add: pieces_def chunks_eq_Nil)
  then have "0 < length pkts" using assms(1) by (auto simp: fragment_eq split: if_splits)
  then obtain m where m: "length pkts = Suc m" by (auto simp: gr0_conv_Suc)
  obtain us u where ts: "ts = us @ [u]" "length us = m"
    using assms(3) m by (cases ts rule: rev_cases) auto
  have split: "?s = zip us [0..<m] @ [(u, m)]" by (simp add: m ts)
  have eq: "map (\<lambda>(t, i). (t, pkts ! i)) ?s = zip ts pkts"
    using assms(3) by (intro nth_equalityI) auto
  have idx: "snd ` set ?s = {..<length pkts}"
    using assms(3) by (metis atLeast_upt length_map map_nth map_snd_zip set_map)
  have "\<forall>(u, j) \<in> set ?s. u - fst (hd ?s) \<le> DEFAULT_REASSEMBLY_TIMEOUT"
  proof -
    have "ts \<noteq> []" "[0..<length pkts] \<noteq> []" using ts m by auto
    then have "fst (hd ?s) = hd ts" by (cases ts; cases "[0..<length pkts]") simp_all
    then show ?thesis using assms(4) by (auto dest: set_zip_leftD)
  qed
  moreover have "m \<notin> snd ` set (zip us [0..<m])" by (auto dest: set_zip_rightD)
  ultimately show ?thesis
    using feeds_fragments [OF assms(1,2) _ _ _ _ split _ idx, where earlier = "[]" and r = "for_chunk_size MAX_CHUNK_PAYLOAD"]
    unfolding eq by (simp add: MAX_CHUNK_PAYLOAD_def MAX_CHANNEL_DATA_def FRAG_HEADER_LEN_def m ts)
qed

lemma length_feeds: "length (snd (feeds xs r)) = length xs"
  by (induction xs r rule: feeds.induct) (auto simp: Let_def split: prod.splits)

lemma feeds_snoc_out:
  assumes "snd (feeds (xs @ [x]) r) = outs @ [out]"
  shows "snd (feeds xs r) = outs" "snd (feed (fst x) (snd x) (fst (feeds xs r))) = out"
  using assms by (cases x; simp add: feeds_append Let_def case_prod_beta)+

lemma fragment_first_byte:
  "fragment payload n fid = Some pkts \<Longrightarrow> pkt \<in> set pkts \<Longrightarrow> \<exists>rest. pkt = 0x01 # rest"
  by (auto simp: fragment_eq pack_chunk_def VERSION_def split: if_splits)

text \<open>A message in fragments, delivered in order, is treated as the whole message would be.\<close>

lemma board_run_fragments:
  assumes cs: "fragment m MAX_CHUNK_PAYLOAD fid = Some (map in_payload ps)" and fid: "length fid = 16"
    and pkts: "\<And>p. p \<in> set ps \<Longrightarrow> in_from p = src" "sorted_wrt (<) (map (h_sequence \<circ> in_header) ps)"
      "\<And>p. p \<in> set ps \<Longrightarrow> above_mark src (h_sequence (in_header p)) b"
    and time: "length ts = length ps" "\<And>t. t \<in> set ts \<Longrightarrow> t - hd ts \<le> DEFAULT_REASSEMBLY_TIMEOUT"
    and new: "map_of (bd_reassemblers b) src = None"
  obtains b1 where "bd_core b1 = bd_core b"
    "board_run C J (map2 (\<lambda>t p. BoardPacket t rnd p) ts ps) b =
       (case Option.bind (js_parse J m) json_envelope of
          None \<Rightarrow> Some (b1, [], [])
        | Some (ty, body) \<Rightarrow> map_option (\<lambda>(c, chs, outs). (b1\<lparr>bd_core := c\<rparr>, chs, outs))
            (board_message C J rnd (bd_id b1) src ty body (bd_core b1)))"
proof -
  let ?r = "for_chunk_size MAX_CHUNK_PAYLOAD"
  have out: "snd (feeds (zip ts (map in_payload ps)) ?r) = replicate (length ps - 1) None @ [Some m]"
    using feeds_whole_message [OF cs fid] time by simp
  have r: "peer_reassembler src b = ?r" using new by (simp add: peer_reassembler_def)
  have "ps \<noteq> []" using out by auto
  then obtain qs q us u where ps: "ps = qs @ [q]" and ts: "ts = us @ [u]" "length us = length qs"
    using time(1) by (cases ps rule: rev_cases; cases ts rule: rev_cases) auto
  from out have "snd (feeds (zip us (map in_payload qs) @ [(u, in_payload q)]) ?r) = replicate (length qs) None @ [Some m]"
    by (simp add: ps ts)
  note outs = feeds_snoc_out [OF this]
  have first: "\<exists>rest. in_payload p = 0x01 # rest" if "p \<in> set ps" for p
    using fragment_first_byte [OF cs] that by auto
  obtain b1 where b1: "bd_core b1 = bd_core b"
    "peer_reassembler src b1 = fst (feeds (zip us (map in_payload qs)) ?r)"
    "qs \<noteq> [] \<Longrightarrow> map_of (bd_watermark b1) src = Some (h_sequence (in_header (last qs)))" "qs = [] \<Longrightarrow> b1 = b"
    "\<And>es. board_run C J (map2 (\<lambda>t p. BoardPacket t rnd p) us qs @ es) b = board_run C J es b1"
    by (rule board_run_chunks [of us qs src b "fst (feeds (zip us (map in_payload qs)) ?r)" C J rnd])
      (use ts(2) pkts first outs(1) ps r in \<open>auto simp: sorted_wrt_append prod_eq_iff\<close>)
  have q: "in_from q = src" using pkts(1) ps by simp
  have above: "above_mark (in_from q) (h_sequence (in_header q)) b1"
    using b1(3,4) pkts(2,3) ps q by (cases "qs = []") (auto simp: above_mark_def sorted_wrt_append)
  obtain rest where rest: "in_payload q = 0x01 # rest" using first ps by auto
  have f: "feed u (in_payload q) (peer_reassembler (in_from q) b1)
      = (fst (feed u (in_payload q) (peer_reassembler (in_from q) b1)), Some m)"
    using outs(2) b1(2) q by (simp add: prod_eq_iff)
  have last: "board_run C J (map2 (\<lambda>t p. BoardPacket t rnd p) ts ps) b = board_step C J (BoardPacket u rnd q) b1"
    using b1(5) [of "[BoardPacket u rnd q]"] ts
    by (simp add: ps case_prod_beta option.map_id Option.bind_rzero del: board_step.simps)
  show ?thesis
  proof (rule board_step_chunk [OF above rest f, of C J rnd], goal_cases)
    case (1 b2)
    then show ?thesis by (intro that [of b2]) (simp_all only: last q b1(1) option.case)
  qed
qed

text \<open>Anti-entropy repairs: the packets with which one board answers a sync request (its snapshot as
  JSON, in fragments) carry, when they arrive in order with rising sequences and within the
  reassembly timeout, exactly the merge of all entries of the sender into the receiver's board, and
  the receiver answers none of them.\<close>

theorem board_snapshot_transfer:
  assumes J: "json_ok J" and fid: "length fid = 16"
    and send: "send_snapshot J fid dest a = Some outs"
    and vals: "\<And>k e. (k, e) \<in> set (bc_entries (bd_core a)) \<Longrightarrow> is_value (e_value e)"
    and wf: "wf_json (of_envelope (BOARD_SNAPSHOT, value_of (of_snapshot (board_snapshot (bd_core a)))))"
    and pkts: "map in_payload ps = map ob_plaintext outs" "\<And>p. p \<in> set ps \<Longrightarrow> in_from p = src"
      "sorted_wrt (<) (map (h_sequence \<circ> in_header) ps)"
      "\<And>p. p \<in> set ps \<Longrightarrow> above_mark src (h_sequence (in_header p)) b"
    and time: "length ts = length ps" "\<And>t. t \<in> set ts \<Longrightarrow> t - hd ts \<le> DEFAULT_REASSEMBLY_TIMEOUT"
    and new: "map_of (bd_reassemblers b) src = None"
  shows "\<exists>b' chs. board_run C J (map2 (\<lambda>t p. BoardPacket t rnd p) ts ps) b = Some (b', chs, []) \<and>
    bd_core b' = fst (merge_entries (board_snapshot (bd_core a)) (bd_core b))"
proof -
  let ?env = "of_envelope (BOARD_SNAPSHOT, value_of (of_snapshot (board_snapshot (bd_core a))))"
  have cs: "fragment (js_print J ?env) MAX_CHUNK_PAYLOAD fid = Some (map in_payload ps)"
    using send pkts(1) by (auto simp: send_snapshot_def snapshot_outbounds_def board_raw_def comp_def)
  have msg: "Option.bind (js_parse J (js_print J ?env)) json_envelope
      = Some (BOARD_SNAPSHOT, value_of (of_snapshot (board_snapshot (bd_core a))))"
    using json_ok_parse [OF J wf] by simp
  have snap: "json_snapshot (value_of (of_snapshot (board_snapshot (bd_core a)))) = Some (board_snapshot (bd_core a))"
    by (rule json_snapshot_of) (auto simp: board_snapshot_def to_payload_def vals)
  obtain c chs where c: "merge_entries (board_snapshot (bd_core a)) (bd_core b) = (c, chs)" by (rule prod.exhaust)
  have bm: "board_message C J rnd i src BOARD_SNAPSHOT (value_of (of_snapshot (board_snapshot (bd_core a)))) (bd_core b)
      = Some (c, chs, [])" for i
    using snap c by (simp add: board_message_def BOARD_SET_def BOARD_DIGEST_def BOARD_SYNC_REQ_def BOARD_SNAPSHOT_def)
  show ?thesis
    by (rule board_run_fragments [OF cs fid pkts(2-4) time new, of C J rnd]) (auto simp: msg bm c)
qed

section \<open>Exchanging snapshots\<close>

lemma stands_for_snapshot: "board_inv c \<Longrightarrow> brd.stands_for c (set (board_snapshot c))"
proof -
  assume c: "board_inv c"
  then have "distinct (map fst (bc_entries c))" by (simp add: board_inv_def wf_bt_distinct)
  then have "\<exists>e. board_view c (sp_key p) = Some e \<and> entry_ts (payload_entry p) \<le> entry_ts e"
    if "p \<in> set (board_snapshot c)" for p
    using that by (auto simp: board_snapshot_def board_view_def)
  then show ?thesis using c snapshot_covers unfolding brd.stands_for_def by blast
qed

text \<open>C21. The exchange settles: when entries of equal key and timestamp in two boards are equal, then after
  one takes in the other's snapshot and answers with its own, both hold the same entries, and the
  digest probe of either gets no sync request from the other.\<close>

theorem board_sync_settles:
  assumes inv: "board_inv a" "board_inv b" and J: "json_ok J"
    and same: "\<And>k e f. board_view a k = Some e \<Longrightarrow> board_view b k = Some f \<Longrightarrow> entry_ts e = entry_ts f \<Longrightarrow> e = f"
    and b': "b' = fst (merge_entries (board_snapshot a) b)" and a': "a' = fst (merge_entries (board_snapshot b') a)"
  shows "bc_entries a' = bc_entries b' \<and>
    board_message C J fid i src BOARD_DIGEST
      (value_of (of_digest_payload \<lparr>dp_count = Some (fst (board_digest C a')), dp_hash = Some (snd (board_digest C a'))\<rparr>)) b'
      = Some (b', [], [])"
proof -
  let ?A = "set (board_snapshot a)" and ?B = "set (board_snapshot b)"
  note sa = stands_for_snapshot [OF inv(1)] and sb = stands_for_snapshot [OF inv(2)]
  have sb': "brd.stands_for b' (?B \<union> ?A)"
    unfolding b' merge_entries_fold by (rule brd.stands_for_join [OF sb sa _ snapshot_covers])
  have "brd.stands_for a' (?A \<union> (?B \<union> ?A))"
    unfolding a' merge_entries_fold by (rule brd.stands_for_join [OF sa sb' snapshot_seen [OF sb'] snapshot_covers])
  then have sa': "brd.stands_for a' (?B \<union> ?A)" by (simp add: Un_ac)
  have at: "board_view c (sp_key p) = Some (payload_entry p)" if "p \<in> set (board_snapshot c)" "board_inv c" for p c
    using that wf_bt_distinct [of "bc_entries c"] by (auto simp: board_snapshot_def board_view_def board_inv_def)
  have "brd.consistent (?B \<union> ?A)"
    unfolding brd.consistent_def using at [OF _ inv(1)] at [OF _ inv(2)] same
    by (metis Un_iff option.inject)
  from board_eqI [OF stands_for_inv [OF sa'] stands_for_inv [OF sb'] brd.stands_for_agree [OF sa' sb' this]]
  have eq: "bc_entries a' = bc_entries b'" .
  then have "board_digest C a' = board_digest C b'" by (simp add: board_digest_def digest_input_def)
  with eq show ?thesis
    by (simp add: board_message_def json_digest_of BOARD_SET_def BOARD_DIGEST_def split: prod.split)
qed

section \<open>Limits of the protocol\<close>

text \<open>The digest does not separate all boards: the bytes hashed are not self-delimiting, and two
  boards with different entries can have the same digest under every hash function, in which case
  the probe of one gets no sync request from the other.\<close>

theorem board_digest_ambiguous:
  "\<exists>a b. board_inv a \<and> board_inv b \<and> bc_entries a \<noteq> bc_entries b \<and> (\<forall>C. board_digest C a = board_digest C b)"
proof -
  let ?e = "\<lparr>e_value = JNull, e_lamport = 1, e_actor = ''xy'', e_deleted = False\<rparr>"
  let ?f = "\<lparr>e_value = JNull, e_lamport = 0x178, e_actor = ''y'', e_deleted = False\<rparr>"
  let ?a = "\<lparr>bc_actor = ''xy'', bc_entries = [(''k'', ?e)], bc_lamport = 1\<rparr>"
  let ?b = "\<lparr>bc_actor = ''y'', bc_entries = [([CHR ''k'', CHR 0x00], ?f)], bc_lamport = 0x178\<rparr>"
  have "digest_input ?a = digest_input ?b" by code_simp
  then have "board_digest C ?a = board_digest C ?b" for C by (simp add: board_digest_def)
  moreover have "board_inv ?a" "board_inv ?b" by (simp_all add: board_inv_def wf_bt_def)
  moreover have "bc_entries ?a \<noteq> bc_entries ?b" by simp
  ultimately show ?thesis by blast
qed

text \<open>The clock wraps: after merging an update stamped with the greatest 64-bit clock, the next local
  write is stamped 0 and is refused by every other board that has the merged update.\<close>

theorem board_clock_wraps:
  assumes "sp_ts p = (- 1, actor)" "sp_key p = k" "board_inv c" "board_inv d"
    "board_set k v (board_merge p c) = (c', q)"
  shows "fst (sp_ts q) = 0 \<and> snd (merge_entry q (board_merge p d)) = False"
proof -
  have "fst (sp_ts q) = 0" "sp_key q = k" and q: "sp_ts q = (0, bc_actor c)"
    using assms(1,5) by (auto simp: board_set_def Let_def to_payload_def max_def)
  moreover have "\<exists>e. board_view (board_merge p d) k = Some e \<and> entry_ts (payload_entry p) \<le> entry_ts e"
    using brd.stands_for_merge [OF stands_for_snapshot [OF assms(4)], of p] assms(2)
    by (auto simp: brd.stands_for_def)
  then obtain e where e: "board_view (board_merge p d) k = Some e" "entry_ts (payload_entry p) \<le> entry_ts e" by blast
  moreover have "entry_ts (payload_entry q) < entry_ts (payload_entry p)"
  proof -
    have "(0 :: u64) < - 1" by (simp add: word_less_nat_alt unsigned_minus_1_eq_mask mask_eq_exp_minus_1)
    with q assms(1) show ?thesis by (simp add: entry_ts_def payload_entry_def)
  qed
  ultimately show ?thesis
    by (auto simp: merge_entry_changed board_view_def dest: order.strict_trans2)
qed

section \<open>Witnesses\<close>

definition demo_board :: board_endpoint where
  "demo_board = fst (endpoint_set demo_json ''k'' (JPos 7) (board_endpoint_new 5 ''a''))"

definition demo_snapshot_text :: bytes where
  "demo_snapshot_text = demo_print (of_envelope (BOARD_SNAPSHOT, value_of (of_snapshot (board_snapshot (bd_core demo_board)))))"

definition demo_snapshot_packet :: inbound where
  "demo_snapshot_packet = \<lparr>in_from = SocketAddrV4 1 5000,
     in_header = \<lparr>h_band_id = replicate 16 7, h_channel_type = Board, h_channel_id = 5, h_sequence = 3\<rparr>,
     in_payload = pack_chunk (replicate 16 9) 0 1 demo_snapshot_text\<rparr>"

theorem board_snapshot_transfer_witness:
  "\<exists>b' chs. board_run demo_ops demo_json [BoardPacket 10 [] demo_snapshot_packet] (board_endpoint_new 5 ''b'')
      = Some (b', chs, []) \<and> board_get ''k'' (bd_core b') = Some (JPos 7)"
proof -
  let ?src = "SocketAddrV4 1 5000"
  let ?out = "board_raw ?src 5 (pack_chunk (replicate 16 9) 0 1 demo_snapshot_text)"
  have l: "length demo_snapshot_text < 200" by code_simp
  have "demo_snapshot_text \<noteq> []" by code_simp
  with l have "pieces MAX_CHUNK_PAYLOAD demo_snapshot_text = [demo_snapshot_text]"
    by (simp add: pieces_def chunks_step MAX_CHUNK_PAYLOAD_def MAX_CHANNEL_DATA_def FRAG_HEADER_LEN_def)
  with l have frag: "fragment demo_snapshot_text MAX_CHUNK_PAYLOAD (replicate 16 9)
      = Some [pack_chunk (replicate 16 9) 0 1 demo_snapshot_text]"
    by (simp add: fragment_eq MAX_CHUNK_PAYLOAD_def MAX_CHANNEL_DATA_def FRAG_HEADER_LEN_def)
  have id: "bd_id demo_board = 5" by code_simp
  have "send_snapshot demo_json (replicate 16 9) ?src demo_board = Some [?out]"
    using frag unfolding send_snapshot_def snapshot_outbounds_def id demo_snapshot_text_def demo_json_def by simp
  moreover have "wf_json (of_envelope (BOARD_SNAPSHOT, value_of (of_snapshot (board_snapshot (bd_core demo_board)))))"
    "fst (merge_entries (board_snapshot (bd_core demo_board)) (bd_core (board_endpoint_new 5 ''b'')))
      = \<lparr>bc_actor = ''b'', bc_entries = bc_entries (bd_core demo_board), bc_lamport = 1\<rparr>"
    "board_get ''k'' \<lparr>bc_actor = ''b'', bc_entries = bc_entries (bd_core demo_board), bc_lamport = 1\<rparr> = Some (JPos 7)"
    "bc_entries (bd_core demo_board) = [(''k'', \<lparr>e_value = JPos 7, e_lamport = 1, e_actor = ''a'', e_deleted = False\<rparr>)]"
    by code_simp+
  ultimately show ?thesis
    using board_snapshot_transfer [OF demo_json_ok, of "replicate 16 9" ?src demo_board "[?out]"
        "[demo_snapshot_packet]" ?src "board_endpoint_new 5 ''b''" "[10]" demo_ops "[]"]
    by (auto simp: demo_snapshot_packet_def board_raw_def is_value_def above_mark_def board_endpoint_new_def)
qed

definition demo_left :: board_core where
  "demo_left = fst (board_set ''k'' (JPos 1) (board_new ''a''))"

definition demo_right :: board_core where
  "demo_right = fst (board_set ''l'' (JPos 3) (fst (board_set ''k'' (JPos 2) (board_new ''b''))))"

theorem board_sync_settles_witness:
  "bc_entries (fst (merge_entries (board_snapshot (fst (merge_entries (board_snapshot demo_left) demo_right))) demo_left)) =
     bc_entries (fst (merge_entries (board_snapshot demo_left) demo_right)) \<and>
   board_get ''k'' (fst (merge_entries (board_snapshot demo_left) demo_right)) = Some (JPos 2)"
proof
  have "board_view demo_left k = (if k = ''k'' then Some \<lparr>e_value = JPos 1, e_lamport = 1, e_actor = ''a'', e_deleted = False\<rparr> else None)"
    "board_view demo_right k = Some f \<Longrightarrow> e_actor f = ''b''" for k f
    by (auto simp: demo_left_def demo_right_def board_view_def board_set_def board_new_def Let_def split: if_splits)
  then have same: "e = f" if "board_view demo_left k = Some e" "board_view demo_right k = Some f" "entry_ts e = entry_ts f" for k e f
    using that by (auto simp: entry_ts_def split: if_splits)
  have inv: "board_inv demo_left" "board_inv demo_right" by code_simp+
  show "bc_entries (fst (merge_entries (board_snapshot (fst (merge_entries (board_snapshot demo_left) demo_right))) demo_left)) =
     bc_entries (fst (merge_entries (board_snapshot demo_left) demo_right))"
    by (rule board_sync_settles [OF inv demo_json_ok same refl refl, THEN conjunct1])
qed code_simp

definition demo_last_update :: set_payload where
  "demo_last_update = \<lparr>sp_key = ''k'', sp_value = JPos 1, sp_ts = (- 1, ''m''), sp_deleted = False\<rparr>"

theorem board_clock_wraps_witness:
  "snd (merge_entry (snd (board_set ''k'' (JPos 2) (board_merge demo_last_update (board_new ''a''))))
     (board_merge demo_last_update (board_new ''b''))) = False"
  by (rule board_clock_wraps [OF _ _ board_inv_new board_inv_new surjective_pairing, THEN conjunct2])
    (simp_all add: demo_last_update_def)

end
