(* ===== verification/Drop_Transfer.thy ===== *)
theory Drop_Transfer
  imports Drop_Channel
begin

text \<open>
  What the Drop channel guarantees: the requested ranges are exactly the missing chunks; a receiver
  fed by a sender, whatever is lost, repeated or reordered, completes only with the file itself; and
  with every request answered the transfer completes. Three limits of the code are stated as well.
\<close>

section \<open>The requested ranges\<close>

lemma range_width [simp]: "ucast MAX_RANGE_CHUNKS = (64 :: u32)"
  by (simp add: MAX_RANGE_CHUNKS_def)

definition range_list :: "u32 \<times> u32 \<Rightarrow> nat list" where
  "range_list r = [unat (fst r)..<unat (snd r)]"

definition range_ok :: "u32 \<times> u32 \<Rightarrow> bool" where
  "range_ok r \<longleftrightarrow> fst r < snd r \<and> unat (snd r) \<le> unat (fst r) + 64"

lemma unat_plus_64: "unat (s :: u32) + 64 < 2 ^ 32 \<Longrightarrow> unat (s + 64) = unat s + 64"
  by (simp add: unat_word_ariths)

lemma upt_append: "i \<le> j \<Longrightarrow> j \<le> k \<Longrightarrow> [i..<j] @ [j..<k] = [i..<k]"
  by (metis le_add_diff_inverse upt_add_eq_append)

lemma split_run_Some:
  assumes "unat (i :: u32) + 64 \<le> 2 ^ 32"
  shows "\<exists>rs. split_run s i = Some rs \<and> concat (map range_list rs) = [unat s..<unat i] \<and> (\<forall>r \<in> set rs. range_ok r)"
proof (induction "unat i - unat s" arbitrary: s rule: less_induct)
  case less
  show ?case
  proof (cases "s < i")
    case True
    then have lt: "unat s < unat i" by (simp add: word_less_nat_alt)
    then have s: "unat (s + 64) = unat s + 64" using assms by (intro unat_plus_64) simp
    moreover have "unat i - (unat s + 64) < unat i - unat s" using lt by arith
    ultimately obtain rs where rs: "split_run (s + 64) i = Some rs"
      "concat (map range_list rs) = [unat s + 64..<unat i]" "\<forall>r \<in> set rs. range_ok r"
      using less [of "s + 64"] by auto
    have m: "unat (min (s + 64) i) = min (unat s + 64) (unat i)"
      using s by (simp add: min_def word_le_nat_alt)
    have "split_run s i = Some ((s, min (s + 64) i) # rs)"
      using True rs(1) by (simp add: split_run.simps [of s i])
    moreover have "[unat s..<min (unat s + 64) (unat i)] @ [unat s + 64..<unat i] = [unat s..<unat i]"
      using lt by (cases "unat s + 64 \<le> unat i") (simp_all add: upt_append min_def)
    ultimately show ?thesis
      using rs lt m by (auto simp: range_list_def range_ok_def word_less_nat_alt)
  next
    case False
    then have "unat i \<le> unat s" by (simp add: word_less_nat_alt not_less)
    with False show ?thesis by (simp add: split_run.simps [of s i])
  qed
qed

lemma missing_from_Some:
  assumes "unat tot + 64 \<le> 2 ^ 32" "n \<le> unat tot" "case run of None \<Rightarrow> True | Some a \<Rightarrow> unat a \<le> n"
  shows "\<exists>rs. missing_from have_chunks tot run [n..<Suc (unat tot)] = Some rs \<and>
    concat (map range_list rs) = (case run of None \<Rightarrow> [] | Some a \<Rightarrow> [unat a..<n]) @
      filter (\<lambda>i. map_of have_chunks (of_nat i) = None) [n..<unat tot] \<and> (\<forall>r \<in> set rs. range_ok r)"
  using assms(2,3)
proof (induction "unat tot - n" arbitrary: n run)
  case 0
  then have n: "n = unat tot" by simp
  show ?case
  proof (cases run)
    case (Some a)
    with split_run_Some [OF assms(1), of a] n show ?thesis by auto
  qed (simp add: n)
next
  case (Suc m)
  then have n: "n < unat tot" by simp
  have upt: "[n..<Suc (unat tot)] = n # [Suc n..<Suc (unat tot)]" "[n..<unat tot] = n # [Suc n..<unat tot]"
    using n by (simp_all add: upt_conv_Cons del: upt_Suc)
  have lt: "(of_nat n :: u32) < tot" "unat (of_nat n :: u32) = n"
    using n by (simp_all add: unat_of_nat_index)
  have m: "m = unat tot - Suc n" "Suc n \<le> unat tot" using Suc.hyps(2) n by auto
  have one: "[n..<Suc n] = [n]" "\<And>a. a \<le> n \<Longrightarrow> [a..<Suc n] = [a..<n] @ [n]" by simp_all
  show ?case
  proof (cases "map_of have_chunks (of_nat n) = None")
    case True
    let ?run = "case run of None \<Rightarrow> Some (of_nat n) | Some a \<Rightarrow> Some a"
    have "case ?run of None \<Rightarrow> True | Some a \<Rightarrow> unat a \<le> Suc n"
      using Suc.prems(2) lt(2) by (auto split: option.splits)
    from Suc.hyps(1) [OF m this] True lt Suc.prems(2) show ?thesis
      by (cases run) (auto simp: upt one simp del: upt_Suc)
  next
    case False
    have "unat (of_nat n :: u32) + 64 \<le> 2 ^ 32" using assms(1) lt(2) n by simp
    note split = split_run_Some [OF this]
    obtain rs where rs: "missing_from have_chunks tot None [Suc n..<Suc (unat tot)] = Some rs"
      "concat (map range_list rs) = filter (\<lambda>i. map_of have_chunks (of_nat i) = None) [Suc n..<unat tot]"
      "\<forall>r \<in> set rs. range_ok r"
      using Suc.hyps(1) [OF m, of None] by auto
    show ?thesis
    proof (cases run)
      case (Some a)
      from split [of a] obtain ss where "split_run a (of_nat n) = Some ss"
        "concat (map range_list ss) = [unat a..<n]" "\<forall>r \<in> set ss. range_ok r"
        by (auto simp: lt)
      with Some rs False lt show ?thesis
        by (intro exI [of _ "ss @ rs"]) (auto simp: upt simp del: upt_Suc)
    qed (use rs False lt in \<open>auto simp: upt simp del: upt_Suc\<close>)
  qed
qed

lemma missing_ranges_Some:
  assumes "unat (total_chunks r) + 64 \<le> 2 ^ 32"
  obtains rs where "missing_ranges r = Some rs" "\<forall>x \<in> set rs. range_ok x"
    "concat (map range_list rs) = filter (\<lambda>i. map_of (dr_have r) (of_nat i) = None) [0..<unat (total_chunks r)]"
  using missing_from_Some [OF assms, of 0 None "dr_have r"] by (auto simp: missing_ranges_def)

text \<open>C16. The receiver asks for exactly what it lacks: unless the offer announces more than 2^32 - 64
  chunks, the ranges it computes list, in ascending order and each once, exactly the chunks it does
  not hold, in nonempty pieces of at most 64.\<close>

theorem missing_ranges_exact:
  assumes "unat (total_chunks r) + 64 \<le> 2 ^ 32"
  shows "\<exists>rs. missing_ranges r = Some rs \<and>
    concat (map (\<lambda>(s, e). [unat s..<unat e]) rs) =
      filter (\<lambda>i. map_of (dr_have r) (of_nat i) = None) [0..<unat (total_chunks r)] \<and>
    (\<forall>(s, e) \<in> set rs. s < e \<and> unat e - unat s \<le> 64)"
proof -
  have eq: "(\<lambda>(s :: u32, e :: u32). [unat s..<unat e]) = range_list" by (auto simp: range_list_def)
  show ?thesis
    by (rule missing_ranges_Some [OF assms]) (fastforce simp: range_ok_def eq)
qed

section \<open>The file and its frames\<close>

definition file_chunk :: "bytes \<Rightarrow> nat \<Rightarrow> bytes" where
  "file_chunk data i = take CHUNK_SIZE (drop (i * CHUNK_SIZE) data)"

text \<open>A sender of a file that the 32-bit chunk counter can number with room to spare.\<close>

definition sends_file :: "crypto_ops \<Rightarrow> bytes \<Rightarrow> drop_sender_core \<Rightarrow> bool" where
  "sends_file C data s \<longleftrightarrow> ds_data s = data \<and> ds_sha256 s = sha256_hex C data \<and> 0 < ds_total_chunks s \<and>
     unat (ds_total_chunks s) + 64 \<le> 2 ^ 32 \<and> length data \<le> unat (ds_total_chunks s) * CHUNK_SIZE"

lemma sends_file_new:
  assumes "length data \<le> (2 ^ 32 - 64) * CHUNK_SIZE"
  shows "sends_file C data (drop_sender_new C name data)"
proof -
  let ?n = "div_ceil (length data) CHUNK_SIZE"
  have c: "CHUNK_SIZE = 1024" by (simp add: CHUNK_SIZE_def)
  have "?n \<le> 2 ^ 32 - 64" "length data \<le> ?n * CHUNK_SIZE"
    using assms unfolding div_ceil_def c by linarith+
  moreover from this(1) have "unat (of_nat (max 1 ?n) :: u32) = max 1 ?n"
    by (simp add: unat_of_nat)
  ultimately show ?thesis
    by (auto simp: sends_file_def drop_sender_new_def word_less_nat_alt intro: order.trans)
qed

lemma chunk_frame_eq: "chunk_frame s i = DROP_CHUNK # to_be 4 (of_nat i :: u32) @ file_chunk (ds_data s) i"
  by (auto simp: chunk_frame_def file_chunk_def Let_def slice_of_def min_def take_drop add.commute)

lemma concat_file_chunks: "concat (map (file_chunk data) [0..<n]) = take (n * CHUNK_SIZE) data"
proof (induction n)
  case (Suc n)
  have "take (Suc n * CHUNK_SIZE) data = take (n * CHUNK_SIZE) data @ file_chunk data n"
    by (metis add.commute file_chunk_def mult_Suc take_add)
  with Suc show ?case by simp
qed simp

text \<open>The messages survive the wire.\<close>

lemma json_offer_of [simp]: "json_offer (of_offer p) = Some p"
  by (simp add: json_offer_def of_offer_def json_struct_def json_field_def)

lemma word_of_int_uint_u32: "(word_of_int (uint (w :: u32)) :: u64) = ucast w"
  by simp

lemma json_i64_of_u32 [simp]: "json_i64 (of_i64 (uint (w :: u32))) = Some (uint w)"
  using unsigned_less [of w, where 'a = int]
  by (simp add: of_i64_def word_of_int_uint_u32 word_less_def)

lemma json_request_of [simp]:
  "json_request (of_request [(uint (s :: u32), uint (e :: u32))]) = Some [(uint s, uint e)]"
  by (simp add: json_request_def of_request_def json_struct_def json_default_def)

lemma json_done_of [simp]: "json_done (of_done h) = Some h"
  by (simp add: json_done_def of_done_def json_struct_def json_default_def)

lemma wf_drop_json [simp]:
  "wf_json (of_offer p)" "wf_json (of_request [(uint (s :: u32), uint (e :: u32))])" "wf_json (of_done h)"
  by (simp_all add: wf_json_def of_offer_def of_request_def of_done_def of_i64_def)

lemma serve_requested:
  assumes "sends_file C data s" "range_ok (a, b)" "b \<le> ds_total_chunks s"
  shows "serve_range s (uint a) (uint b) = map (chunk_frame s) [unat a..<unat b]"
proof -
  have w: "(word_of_int (max (uint w) 0) :: u64) = ucast w" for w :: u32
    by (simp add: max_def word_of_int_uint_u32)
  have "unat b \<le> unat (ds_total_chunks s)" "unat b \<le> unat a + 64"
    using assms(2,3) by (simp_all add: range_ok_def word_le_nat_alt)
  moreover have "unat (ucast a + 64 :: u64) = unat a + 64"
    using unsigned_less [of a, where 'a = nat] by (simp add: unat_word_ariths)
  ultimately have "unat (min (min (ucast b) (ucast (ds_total_chunks s))) (ucast a + 64 :: u64)) = unat b"
    by (simp add: min_def word_le_nat_alt)
  then show ?thesis by (simp add: serve_range_def w MAX_RANGE_CHUNKS_def)
qed

section \<open>A receiver of the file\<close>

text \<open>The receiver holds chunks of the file only, and has reported nothing else.\<close>

definition holds_part :: "drop_sender_core \<Rightarrow> (u32, bytes) hashmap \<Rightarrow> bool" where
  "holds_part s m \<longleftrightarrow> wf_hm m \<and>
     (\<forall>i c. map_of m i = Some c \<longrightarrow> i < ds_total_chunks s \<and> c = file_chunk (ds_data s) (unat i))"

definition recv_inv :: "drop_sender_core \<Rightarrow> drop_receiver_core \<Rightarrow> bool" where
  "recv_inv s r \<longleftrightarrow> holds_part s (dr_have r) \<and> dr_offer r \<in> {None, Some (drop_offer s)} \<and>
     dr_verified r \<in> {None, Some True} \<and> dr_completion r \<in> {None, Some (ds_data s, True)}"

lemma holds_partD:
  "holds_part s m \<Longrightarrow> map_of m i = Some c \<Longrightarrow> i < ds_total_chunks s \<and> c = file_chunk (ds_data s) (unat i)"
  by (simp add: holds_part_def)

lemma total_chunks_offer: "dr_offer r = Some (drop_offer s) \<Longrightarrow> total_chunks r = ds_total_chunks s"
  by (simp add: total_chunks_def drop_offer_def)

lemma holds_part_insert:
  "holds_part s m \<Longrightarrow> i < unat (ds_total_chunks s) \<Longrightarrow>
     holds_part s (hm_insert (of_nat i) (file_chunk (ds_data s) i) m)"
  by (auto simp: holds_part_def unat_of_nat_index)

lemma holds_part_count:
  assumes "holds_part s m"
  shows "length m \<le> unat (ds_total_chunks s)"
    "length m = unat (ds_total_chunks s) \<longleftrightarrow> (\<forall>i < unat (ds_total_chunks s). map_of m (of_nat i) \<noteq> None)"
proof -
  let ?D = "unat ` dom (map_of m)" and ?N = "{..<unat (ds_total_chunks s)}"
  have sub: "?D \<subseteq> ?N" using assms by (auto simp: holds_part_def word_less_nat_alt)
  have card: "length m = card ?D"
    using assms by (simp add: holds_part_def length_hm_dom card_image inj_on_def unsigned_word_eqI)
  have mem: "i \<in> ?D \<longleftrightarrow> map_of m (of_nat i) \<noteq> None" if "i < unat (ds_total_chunks s)" for i
  proof
    assume "i \<in> ?D"
    then show "map_of m (of_nat i) \<noteq> None" by (auto simp: dom_def)
  next
    assume "map_of m (of_nat i) \<noteq> None"
    then have "of_nat i \<in> dom (map_of m)" by (simp add: dom_def)
    then have "unat (of_nat i :: u32) \<in> ?D" by (rule imageI)
    then show "i \<in> ?D" using that by (simp add: unat_of_nat_index)
  qed
  show "length m \<le> unat (ds_total_chunks s)"
    unfolding card using card_mono [OF finite_lessThan sub] by (simp only: card_lessThan)
  have "card ?D = card ?N \<longleftrightarrow> ?D = ?N"
  proof
    assume "card ?D = card ?N"
    then show "?D = ?N" by (rule card_subset_eq [OF finite_lessThan sub])
  qed simp
  then have "length m = unat (ds_total_chunks s) \<longleftrightarrow> ?D = ?N" by (simp only: card card_lessThan)
  also have "\<dots> \<longleftrightarrow> ?N \<subseteq> ?D" using sub by (metis order.antisym)
  also have "\<dots> \<longleftrightarrow> (\<forall>i < unat (ds_total_chunks s). i \<in> ?D)" by (simp only: subset_iff lessThan_iff)
  finally show "length m = unat (ds_total_chunks s) \<longleftrightarrow> (\<forall>i < unat (ds_total_chunks s). map_of m (of_nat i) \<noteq> None)"
    by (simp only: mem cong: imp_cong)
qed

lemma full_iff:
  assumes "holds_part s m"
  shows "of_nat (length m) = ds_total_chunks s \<longleftrightarrow> (\<forall>i < unat (ds_total_chunks s). map_of m (of_nat i) \<noteq> None)"
proof -
  have "unat (of_nat (length m) :: u32) = length m"
    using holds_part_count(1) [OF assms] unsigned_less [of "ds_total_chunks s", where 'a = nat]
    by (simp add: unat_of_nat)
  then show ?thesis
    using holds_part_count(2) [OF assms] by (metis unsigned_word_eqI)
qed

lemma collect_full:
  assumes "holds_part s m" "\<forall>i \<in> set ns. i < unat (ds_total_chunks s) \<and> map_of m (of_nat i) \<noteq> None"
  shows "collect_chunks m ns = Some (concat (map (file_chunk (ds_data s)) ns))"
  using assms(2)
proof (induction ns)
  case (Cons n ns)
  then obtain c where c: "map_of m (of_nat n) = Some c" by auto
  with holds_partD [OF assms(1) c] Cons unat_of_nat_index [of n "ds_total_chunks s"] show ?case by simp
qed simp

lemma receiver_finish_full:
  assumes "sends_file C data s" "holds_part s (dr_have r)" "dr_offer r = Some (drop_offer s)"
    "\<forall>i < unat (ds_total_chunks s). map_of (dr_have r) (of_nat i) \<noteq> None"
  shows "receiver_finish C J r = Some (r\<lparr>dr_verified := Some True, dr_completion := Some (data, True)\<rparr>,
    [json_frame J DROP_DONE (of_done (sha256_hex C data))])"
proof -
  have s: "ds_data s = data" "ds_sha256 s = sha256_hex C data" "length data \<le> unat (ds_total_chunks s) * CHUNK_SIZE"
    using assms(1) by (simp_all add: sends_file_def)
  have "unat (ds_total_chunks s) * CHUNK_SIZE < 2 ^ 63"
    using unsigned_less [of "ds_total_chunks s", where 'a = nat] by (simp add: CHUNK_SIZE_def)
  then have "unat (of_size (drop_offer s)) = length data" "\<not> length data > ISIZE_MAX"
    using s by (simp_all add: drop_offer_def unat_of_nat ISIZE_MAX_def)
  moreover have "collect_chunks (dr_have r) [0..<unat (ds_total_chunks s)] = Some data"
    using collect_full [OF assms(2), of "[0..<unat (ds_total_chunks s)]"] assms(4) s
    by (simp add: concat_file_chunks)
  moreover have "of_sha256 (drop_offer s) = sha256_hex C data" using s by (simp add: drop_offer_def)
  ultimately show ?thesis
    using assms(3) total_chunks_offer [OF assms(3)] by (simp add: receiver_finish_def Let_def)
qed

lemma request_missing_total:
  assumes "dr_offer r \<noteq> None \<Longrightarrow> unat (total_chunks r) + 64 \<le> 2 ^ 32"
  obtains out rs where "request_missing J r = Some (r\<lparr>dr_outstanding := out\<rparr>, rs)"
proof (cases "dr_offer r = None \<or> dr_sender_addr r = None \<or> dr_verified r \<noteq> None")
  case True
  then have "request_missing J r = Some (r\<lparr>dr_outstanding := dr_outstanding r\<rparr>, [])"
    by (simp add: request_missing_def)
  then show ?thesis by (rule that)
next
  case False
  then obtain ms where ms: "missing_ranges r = Some ms" using assms by (blast elim: missing_ranges_Some)
  show ?thesis
  proof (cases ms)
    case Nil
    with False ms have "request_missing J r = Some (r\<lparr>dr_outstanding := dr_outstanding r\<rparr>, [])"
      by (simp add: request_missing_def)
    then show ?thesis by (rule that)
  next
    case (Cons x xs)
    with False ms show ?thesis by (cases x) (auto intro!: that simp: request_missing_def)
  qed
qed

text \<open>A chunk of the file: it is stored if new, and then the transfer finishes, goes on or waits.\<close>

definition with_chunk :: "instant \<Rightarrow> bytes \<Rightarrow> nat \<Rightarrow> drop_receiver_core \<Rightarrow> drop_receiver_core" where
  "with_chunk now data i r =
     (if map_of (dr_have r) (of_nat i) = None
      then r\<lparr>dr_have := hm_insert (of_nat i) (file_chunk data i) (dr_have r), dr_last_progress := Some now\<rparr> else r)"

lemma with_chunk_fields [simp]:
  "dr_offer (with_chunk now data i r) = dr_offer r" "dr_sender_addr (with_chunk now data i r) = dr_sender_addr r"
  "dr_verified (with_chunk now data i r) = dr_verified r" "dr_outstanding (with_chunk now data i r) = dr_outstanding r"
  "dr_completion (with_chunk now data i r) = dr_completion r" "total_chunks (with_chunk now data i r) = total_chunks r"
  by (simp_all add: with_chunk_def total_chunks_def)

lemma with_chunk_have:
  assumes "holds_part s (dr_have r)" "i < unat (ds_total_chunks s)"
  shows "holds_part s (dr_have (with_chunk now (ds_data s) i r))"
    "map_of (dr_have (with_chunk now (ds_data s) i r)) k =
       (if k = of_nat i then Some (file_chunk (ds_data s) i) else map_of (dr_have r) k)"
proof -
  show "holds_part s (dr_have (with_chunk now (ds_data s) i r))"
    using holds_part_insert [OF assms] assms(1) by (simp add: with_chunk_def)
  have "c = file_chunk (ds_data s) i" if "map_of (dr_have r) (of_nat i) = Some c" for c
    using holds_partD [OF assms(1) that] assms(2) by (simp add: unat_of_nat_index)
  then show "map_of (dr_have (with_chunk now (ds_data s) i r)) k =
       (if k = of_nat i then Some (file_chunk (ds_data s) i) else map_of (dr_have r) k)"
    by (cases "map_of (dr_have r) (of_nat i)") (auto simp: with_chunk_def)
qed

lemma receiver_chunk_frame:
  assumes "dr_offer r = Some (drop_offer s)" "holds_part s (dr_have r)" "i < unat (ds_total_chunks s)"
    "r' = with_chunk now (ds_data s) i r"
  shows "receiver_handle_frame C J now from (chunk_frame s i) r =
    (if \<forall>j < unat (ds_total_chunks s). map_of (dr_have r') (of_nat j) \<noteq> None then receiver_finish C J r'
     else if (case dr_outstanding r of None \<Rightarrow> False
              | Some (a, b) \<Rightarrow> \<forall>j \<in> {unat a..<unat b}. map_of (dr_have r') (of_nat j) \<noteq> None)
          then request_missing J r' else Some (r', []))"
proof -
  have i: "\<not> ds_total_chunks s \<le> of_nat i"
    using assms(3) by (simp add: not_le)
  have h: "holds_part s (dr_have r')" using with_chunk_have(1) [OF assms(2,3)] assms(4) by simp
  have all: "list_all P [unat a..<unat b] \<longleftrightarrow> (\<forall>j \<in> {unat a..<unat b}. P j)" for P and a b :: u32
    by (simp add: list_all_iff)
  have "receiver_handle_frame C J now from (chunk_frame s i) r =
    receiver_chunk C J now (to_be 4 (of_nat i :: u32) @ file_chunk (ds_data s) i) r"
    by (simp add: receiver_handle_frame_def chunk_frame_eq DROP_CHUNK_def DROP_OFFER_def)
  also have "\<dots> = (if of_nat (length (dr_have r')) = ds_total_chunks s then receiver_finish C J r'
     else if (case dr_outstanding r of None \<Rightarrow> False
              | Some (a, b) \<Rightarrow> list_all (\<lambda>j. map_of (dr_have r') (of_nat j) \<noteq> None) [unat a..<unat b])
          then request_missing J r' else Some (r', []))"
  proof -
    let ?b = "to_be 4 (of_nat i :: u32) @ file_chunk (ds_data s) i"
    have b: "from_be (take 4 ?b) = (of_nat i :: u32)" "drop 4 ?b = file_chunk (ds_data s) i"
      "(dr_offer r = None \<or> length ?b < 4) = False"
      using assms(1) by simp_all
    have r': "(if map_of (dr_have r) (of_nat i) = None
        then r\<lparr>dr_have := hm_insert (of_nat i) (file_chunk (ds_data s) i) (dr_have r), dr_last_progress := Some now\<rparr> else r) = r'"
      "dr_outstanding r' = dr_outstanding r"
      by (simp_all add: assms(4) with_chunk_def)
    show ?thesis
      unfolding receiver_chunk_def Let_def b total_chunks_offer [OF assms(1)] r' by (simp only: i if_False)
  qed
  finally show ?thesis unfolding full_iff [OF h] all .
qed

lemma recv_inv_chunk:
  assumes s: "sends_file C data s" and r: "recv_inv s r" and i: "i < unat (ds_total_chunks s)"
  shows "\<exists>r' out. receiver_handle_frame C J now from (chunk_frame s i) r = Some (r', out) \<and> recv_inv s r'"
proof (cases "dr_offer r")
  case None
  then show ?thesis
    using r by (simp add: receiver_handle_frame_def chunk_frame_eq DROP_CHUNK_def DROP_OFFER_def receiver_chunk_def)
next
  case (Some p)
  let ?r = "with_chunk now (ds_data s) i r"
  have offer: "dr_offer r = Some (drop_offer s)" and part: "holds_part s (dr_have r)"
    using r Some by (simp_all add: recv_inv_def)
  have r': "recv_inv s ?r" using r with_chunk_have(1) [OF part i] by (simp add: recv_inv_def)
  have d: "ds_data s = data" "unat (ds_total_chunks s) + 64 \<le> 2 ^ 32" using s by (simp_all add: sends_file_def)
  obtain out rs where req: "request_missing J ?r = Some (?r\<lparr>dr_outstanding := out\<rparr>, rs)"
    by (rule request_missing_total [of ?r J]) (use d(2) offer in \<open>simp add: total_chunks_offer\<close>)
  have fin: "\<forall>j < unat (ds_total_chunks s). map_of (dr_have ?r) (of_nat j) \<noteq> None \<Longrightarrow>
    receiver_finish C J ?r = Some (?r\<lparr>dr_verified := Some True, dr_completion := Some (data, True)\<rparr>,
      [json_frame J DROP_DONE (of_done (sha256_hex C data))])"
    using receiver_finish_full [OF s with_chunk_have(1) [OF part i]] offer by simp
  have "recv_inv s (?r\<lparr>dr_outstanding := out\<rparr>)"
    "recv_inv s (?r\<lparr>dr_verified := Some True, dr_completion := Some (data, True)\<rparr>)"
    using r' d(1) by (simp_all add: recv_inv_def)
  with r' fin req show ?thesis
    unfolding receiver_chunk_frame [OF offer part i refl] by auto
qed

lemma recv_inv_request:
  assumes "sends_file C data s" "recv_inv s r"
  shows "\<exists>r' out. request_missing J r = Some (r', out) \<and> recv_inv s r'"
proof (rule request_missing_total [of r J])
  show "unat (total_chunks r) + 64 \<le> 2 ^ 32" if "dr_offer r \<noteq> None"
    using assms that by (auto simp: recv_inv_def sends_file_def total_chunks_offer)
qed (use assms(2) in \<open>auto simp: recv_inv_def\<close>)

lemma recv_inv_tick:
  assumes "sends_file C data s" "recv_inv s r"
  shows "\<exists>r' out. receiver_tick J now r = Some (r', out) \<and> recv_inv s r'"
  using recv_inv_request [OF assms(1), of "r\<lparr>dr_last_progress := Some now\<rparr>"] assms(2)
  by (simp add: receiver_tick_def recv_inv_def)

lemma receiver_offer_frame:
  assumes "json_ok J" "dr_offer r \<in> {None, Some (drop_offer s)}"
  shows "receiver_handle_frame C J now from (offer_frame J s) r =
    request_missing J (r\<lparr>dr_offer := Some (drop_offer s), dr_sender_addr := Some from, dr_last_progress := Some now\<rparr>)"
  using assms by (auto simp: receiver_handle_frame_def offer_frame_def json_frame_def json_ok_parse receiver_offer_def)

lemma recv_inv_offer:
  assumes "json_ok J" "sends_file C data s" "recv_inv s r"
  shows "\<exists>r' out. receiver_handle_frame C J now from (offer_frame J s) r = Some (r', out) \<and> recv_inv s r'"
proof -
  have "dr_offer r \<in> {None, Some (drop_offer s)}" using assms(3) by (simp add: recv_inv_def)
  moreover have "recv_inv s (r\<lparr>dr_offer := Some (drop_offer s), dr_sender_addr := Some from, dr_last_progress := Some now\<rparr>)"
    using assms(3) by (simp add: recv_inv_def)
  ultimately show ?thesis
    using receiver_offer_frame [OF assms(1)] recv_inv_request [OF assms(2)] by simp
qed

section \<open>Only the file\<close>

text \<open>The receiver's core under a schedule of frames and ticks, reporting completions as the task does.\<close>

fun receiver_run ::
  "crypto_ops \<Rightarrow> json_ops \<Rightarrow> (instant \<times> (socket_addr \<times> bytes) option) list \<Rightarrow> drop_receiver_core \<Rightarrow>
     (drop_receiver_core \<times> (bytes \<times> bool) list) option" where
  "receiver_run C J [] r = Some (r, [])"
| "receiver_run C J ((now, ev) # evs) r =
     (case (case ev of Some (from, frame) \<Rightarrow> receiver_handle_frame C J now from frame r | None \<Rightarrow> receiver_tick J now r) of
        None \<Rightarrow> None
      | Some (r, _) \<Rightarrow>
          (let (r, fin) = take_completion r in
           map_option (\<lambda>(r, dones). (r, (case fin of None \<Rightarrow> [] | Some d \<Rightarrow> [d]) @ dones)) (receiver_run C J evs r)))"

definition sender_frames :: "json_ops \<Rightarrow> drop_sender_core \<Rightarrow> bytes set" where
  "sender_frames J s = insert (offer_frame J s) (chunk_frame s ` {..<unat (ds_total_chunks s)})"

lemma recv_inv_take:
  "recv_inv s r \<Longrightarrow> recv_inv s (fst (take_completion r)) \<and> snd (take_completion r) \<in> {None, Some (ds_data s, True)}"
  by (auto simp: recv_inv_def take_completion_def)

lemma receiver_run_inv:
  assumes "json_ok J" "sends_file C data s" "recv_inv s r"
    "\<And>now from frame. (now, Some (from, frame)) \<in> set evs \<Longrightarrow> frame \<in> sender_frames J s"
  shows "\<exists>r' dones. receiver_run C J evs r = Some (r', dones) \<and> recv_inv s r' \<and> set dones \<subseteq> {(data, True)}"
  using assms(3,4)
proof (induction evs arbitrary: r)
  case (Cons x evs)
  obtain now ev where x: "x = (now, ev)" by (cases x)
  have "\<exists>r' out. (case ev of Some (from, frame) \<Rightarrow> receiver_handle_frame C J now from frame r
      | None \<Rightarrow> receiver_tick J now r) = Some (r', out) \<and> recv_inv s r'"
  proof (cases ev)
    case None
    then show ?thesis using recv_inv_tick [OF assms(2) Cons.prems(1)] by simp
  next
    case (Some ff)
    then obtain src frame where ff: "ff = (src, frame)" "frame \<in> sender_frames J s"
      using Cons.prems(2) [of now] x by (cases ff) auto
    then show ?thesis
      using recv_inv_offer [OF assms(1,2) Cons.prems(1)] recv_inv_chunk [OF assms(2) Cons.prems(1)]
      by (auto simp: sender_frames_def Some)
  qed
  then obtain r1 out where step: "(case ev of Some (from, frame) \<Rightarrow> receiver_handle_frame C J now from frame r
      | None \<Rightarrow> receiver_tick J now r) = Some (r1, out)" and r1: "recv_inv s r1" by blast
  obtain r2 fin where t: "take_completion r1 = (r2, fin)" by (rule prod.exhaust)
  have r2: "recv_inv s r2" "fin \<in> {None, Some (data, True)}"
    using recv_inv_take [OF r1] t assms(2) by (auto simp: sends_file_def)
  have "frame \<in> sender_frames J s" if "(now, Some (src, frame)) \<in> set evs" for now src frame
    using Cons.prems(2) [of now src frame] that by simp
  then have "\<exists>r' dones. receiver_run C J evs r2 = Some (r', dones) \<and> recv_inv s r' \<and> set dones \<subseteq> {(data, True)}"
    by (intro Cons.IH [OF r2(1)])
  then obtain r' dones
    where "receiver_run C J evs r2 = Some (r', dones)" "recv_inv s r'" "set dones \<subseteq> {(data, True)}" by blast
  with r2(2) show ?case by (auto simp: x step t)
qed simp

lemma recv_inv_new: "holds_part s m \<Longrightarrow> recv_inv s (drop_receiver_new m)"
  by (simp add: recv_inv_def drop_receiver_new_def)

text \<open>C7. A drop completes with the file or not at all: a receiver that starts with any chunks of the file
  (persisted ones, or none) and is fed frames of the sender of that file, in any order, with any loss
  and repetition, and any ticks, never fails, and whatever it reports as complete is the whole file
  with a positive verdict.\<close>

theorem drop_receives_file:
  assumes "json_ok J" "length data \<le> (2 ^ 32 - 64) * CHUNK_SIZE" "s = drop_sender_new C name data"
    "holds_part s m" "\<And>now from frame. (now, Some (from, frame)) \<in> set evs \<Longrightarrow> frame \<in> sender_frames J s"
  shows "\<exists>r dones. receiver_run C J evs (drop_receiver_new m) = Some (r, dones) \<and> set dones \<subseteq> {(data, True)}"
  using receiver_run_inv [OF assms(1) sends_file_new [OF assms(2)] recv_inv_new] assms(3-5) by blast

section \<open>Completion\<close>

text \<open>A lossless exchange in rounds: the receiver takes in the frames on their way, the sender answers what
  it sent back, and so on. The number bounds the rounds.\<close>

fun deliver_all ::
  "crypto_ops \<Rightarrow> json_ops \<Rightarrow> instant \<Rightarrow> socket_addr \<Rightarrow> bytes list \<Rightarrow> drop_receiver_core \<Rightarrow>
     (drop_receiver_core \<times> bytes list) option" where
  "deliver_all C J now from [] r = Some (r, [])"
| "deliver_all C J now from (f # fs) r =
     (case receiver_handle_frame C J now from f r of
        None \<Rightarrow> None
      | Some (r, out) \<Rightarrow> map_option (\<lambda>(r, outs). (r, out @ outs)) (deliver_all C J now from fs r))"

fun serve_all ::
  "json_ops \<Rightarrow> socket_addr \<Rightarrow> bytes list \<Rightarrow> drop_sender_core \<Rightarrow> drop_sender_core \<times> bytes list" where
  "serve_all J from [] s = (s, [])"
| "serve_all J from (f # fs) s =
     (let (s, out, _) = sender_handle_frame J from f s; (s, outs) = serve_all J from fs s in (s, out @ outs))"

fun drop_exchange ::
  "crypto_ops \<Rightarrow> json_ops \<Rightarrow> instant \<Rightarrow> socket_addr \<Rightarrow> socket_addr \<Rightarrow> nat \<Rightarrow> bytes list \<Rightarrow>
     drop_sender_core \<times> drop_receiver_core \<Rightarrow> (drop_sender_core \<times> drop_receiver_core) option" where
  "drop_exchange C J now sa ra 0 fs sr = (if fs = [] then Some sr else None)"
| "drop_exchange C J now sa ra (Suc n) fs sr =
     (if fs = [] then Some sr
      else case deliver_all C J now sa fs (snd sr) of
             None \<Rightarrow> None
           | Some (r, back) \<Rightarrow> (let (s, fs) = serve_all J ra back (fst sr) in drop_exchange C J now sa ra n fs (s, r)))"

text \<open>The receiver waits for the window it asked for, of which it holds nothing.\<close>

definition missing_count :: "drop_sender_core \<Rightarrow> drop_receiver_core \<Rightarrow> nat" where
  "missing_count s r = unat (ds_total_chunks s) - length (dr_have r)"

definition waits_for :: "drop_sender_core \<Rightarrow> nat \<Rightarrow> nat \<Rightarrow> drop_receiver_core \<Rightarrow> bool" where
  "waits_for s a b r \<longleftrightarrow> holds_part s (dr_have r) \<and> dr_offer r = Some (drop_offer s) \<and> dr_sender_addr r \<noteq> None \<and>
     dr_verified r = None \<and> a \<le> b \<and> b \<le> unat (ds_total_chunks s) \<and>
     (\<exists>x y. dr_outstanding r = Some (x, y) \<and> unat x \<le> a \<and> unat y = b \<and>
        (\<forall>j \<in> {unat x..<a}. map_of (dr_have r) (of_nat j) \<noteq> None)) \<and>
     (\<forall>j \<in> {a..<b}. map_of (dr_have r) (of_nat j) = None)"

lemma request_next:
  assumes s: "sends_file C data s" and r: "holds_part s (dr_have r)" "dr_offer r = Some (drop_offer s)"
      "dr_sender_addr r \<noteq> None" "dr_verified r = None"
    and lack: "\<exists>i < unat (ds_total_chunks s). map_of (dr_have r) (of_nat i) = None"
  obtains x y where "range_ok (x, y)" "y \<le> ds_total_chunks s" "waits_for s (unat x) (unat y) (r\<lparr>dr_outstanding := Some (x, y)\<rparr>)"
    "request_missing J r = Some (r\<lparr>dr_outstanding := Some (x, y)\<rparr>, [json_frame J DROP_REQUEST (of_request [(uint x, uint y)])])"
proof -
  have "unat (total_chunks r) + 64 \<le> 2 ^ 32" using s total_chunks_offer [OF r(2)] by (simp add: sends_file_def)
  then obtain rs where rs: "missing_ranges r = Some rs" "\<forall>x \<in> set rs. range_ok x"
    "concat (map range_list rs) = filter (\<lambda>i. map_of (dr_have r) (of_nat i) = None) [0..<unat (ds_total_chunks s)]"
    using missing_ranges_Some [of r] total_chunks_offer [OF r(2)] by metis
  have "set (concat (map range_list rs)) \<noteq> {}" unfolding rs(3) using lack by auto
  then have "rs \<noteq> []" by auto
  then obtain x y rs' where xy: "rs = (x, y) # rs'" by (cases rs) auto
  have ok: "range_ok (x, y)" using rs(2) xy by simp
  have "set (range_list (x, y)) \<subseteq> set (concat (map range_list rs))" by (simp add: xy)
  then have miss: "\<forall>j \<in> {unat x..<unat y}. j < unat (ds_total_chunks s) \<and> map_of (dr_have r) (of_nat j) = None"
    unfolding rs(3) by (auto simp: range_list_def)
  have "unat y - 1 \<in> {unat x..<unat y}" using ok by (auto simp: range_ok_def word_less_nat_alt)
  with miss have y: "unat y \<le> unat (ds_total_chunks s)" by fastforce
  show ?thesis
  proof (rule that [of x y])
    show "waits_for s (unat x) (unat y) (r\<lparr>dr_outstanding := Some (x, y)\<rparr>)"
      using r y miss ok by (auto simp: waits_for_def range_ok_def word_less_nat_alt)
    show "request_missing J r = Some (r\<lparr>dr_outstanding := Some (x, y)\<rparr>, [json_frame J DROP_REQUEST (of_request [(uint x, uint y)])])"
      using r rs(1) xy by (simp add: request_missing_def)
  qed (use ok y in \<open>simp_all add: word_le_nat_alt\<close>)
qed

text \<open>What comes back after a window: the verdict, or the request for a next window.\<close>

definition window_result ::
  "crypto_ops \<Rightarrow> json_ops \<Rightarrow> bytes \<Rightarrow> drop_sender_core \<Rightarrow> nat \<Rightarrow> drop_receiver_core \<times> bytes list \<Rightarrow> bool" where
  "window_result C J data s n rb \<longleftrightarrow>
     (snd rb = [json_frame J DROP_DONE (of_done (sha256_hex C data))] \<and> dr_verified (fst rb) = Some True \<and>
        dr_completion (fst rb) = Some (data, True)) \<or>
     (\<exists>x y. snd rb = [json_frame J DROP_REQUEST (of_request [(uint x, uint y)])] \<and> range_ok (x, y) \<and>
        y \<le> ds_total_chunks s \<and> waits_for s (unat x) (unat y) (fst rb) \<and> missing_count s (fst rb) < n)"

lemma waits_forD:
  assumes "waits_for s a b r" "a < b"
  shows "holds_part s (dr_have r)" "dr_offer r = Some (drop_offer s)" "dr_sender_addr r \<noteq> None" "dr_verified r = None"
    "b \<le> unat (ds_total_chunks s)" "a < unat (ds_total_chunks s)" "map_of (dr_have r) (of_nat a) = None"
  using assms by (auto simp: waits_for_def)

lemma missing_count_with_chunk:
  assumes "waits_for s a b r" "a < b"
  shows "missing_count s (with_chunk now (ds_data s) a r) < missing_count s r"
proof -
  note w = waits_forD [OF assms]
  have "length (dr_have (with_chunk now (ds_data s) a r)) = Suc (length (dr_have r))"
    using w(7) by (simp add: with_chunk_def length_hm_insert)
  then show ?thesis
    using holds_part_count(1) [OF with_chunk_have(1) [OF w(1,6), of now]] by (simp add: missing_count_def)
qed

text \<open>A chunk of the window that is not its last is stored.\<close>

lemma window_more:
  assumes w: "waits_for s a b r" and b: "Suc a < b" and r': "r' = with_chunk now (ds_data s) a r"
  shows "receiver_handle_frame C J now sa (chunk_frame s a) r = Some (r', [])" "waits_for s (Suc a) b r'"
proof -
  have "a < b" using b by simp
  note wd = waits_forD [OF w this]
  note have1 = with_chunk_have [OF wd(1,6), of now, folded r']
  obtain x y where xy: "dr_outstanding r = Some (x, y)" "unat x \<le> a" "unat y = b"
    "\<forall>j \<in> {unat x..<a}. map_of (dr_have r) (of_nat j) \<noteq> None"
    using w by (auto simp: waits_for_def)
  have idx: "(of_nat j :: u32) \<noteq> of_nat a" if "j \<noteq> a" "j < unat (ds_total_chunks s)" for j
    using that wd(6) unat_of_nat_index [of j "ds_total_chunks s"] unat_of_nat_index [of a "ds_total_chunks s"] by metis
  have free: "map_of (dr_have r') (of_nat j) = None" if "Suc a \<le> j" "j < b" for j
    using that w wd(5) idx [of j] have1(2) by (simp add: waits_for_def)
  have "\<not> (\<forall>j < unat (ds_total_chunks s). map_of (dr_have r') (of_nat j) \<noteq> None)"
    "\<not> (\<forall>j \<in> {unat x..<unat y}. map_of (dr_have r') (of_nat j) \<noteq> None)"
    using free [OF order.refl b] b wd(5) xy(2,3) by (force simp del: of_nat_Suc)+
  then show "receiver_handle_frame C J now sa (chunk_frame s a) r = Some (r', [])"
    by (subst receiver_chunk_frame [OF wd(2,1,6) r']) (simp only: xy(1) option.case prod.case if_False)
  have "map_of (dr_have r') (of_nat j) \<noteq> None" if "unat x \<le> j" "j < Suc a" for j
    using that xy(4) have1(2) by (cases "j = a") auto
  then show "waits_for s (Suc a) b r'"
    using b wd have1(1) free xy(1-3) r' by (auto simp: waits_for_def)
qed

text \<open>The last chunk of the window brings the verdict or the next request.\<close>

lemma window_last:
  assumes s: "sends_file C data s" and w: "waits_for s a (Suc a) r"
  shows "\<exists>rb. receiver_handle_frame C J now sa (chunk_frame s a) r = Some rb \<and> window_result C J data s (missing_count s r) rb"
proof -
  let ?r = "with_chunk now (ds_data s) a r"
  note wd = waits_forD [OF w lessI] and less = missing_count_with_chunk [OF w lessI, of now]
  note have1 = with_chunk_have [OF wd(1,6), of now]
  obtain x y where xy: "dr_outstanding r = Some (x, y)" "unat x \<le> a" "unat y = Suc a"
    "\<forall>j \<in> {unat x..<a}. map_of (dr_have r) (of_nat j) \<noteq> None"
    using w by (auto simp: waits_for_def)
  show ?thesis
  proof (cases "\<forall>j < unat (ds_total_chunks s). map_of (dr_have ?r) (of_nat j) \<noteq> None")
    case True
    have "receiver_finish C J ?r = Some (?r\<lparr>dr_verified := Some True, dr_completion := Some (data, True)\<rparr>,
        [json_frame J DROP_DONE (of_done (sha256_hex C data))])"
      using receiver_finish_full [OF s have1(1) _ True] wd(2) by simp
    then show ?thesis
      using True receiver_chunk_frame [OF wd(2,1,6) refl, of C J now sa] by (simp add: window_result_def)
  next
    case False
    have all: "\<forall>j \<in> {unat x..<unat y}. map_of (dr_have ?r) (of_nat j) \<noteq> None"
    proof
      fix j assume "j \<in> {unat x..<unat y}"
      then have "j = a \<or> j \<in> {unat x..<a}" using xy(3) by auto
      then show "map_of (dr_have ?r) (of_nat j) \<noteq> None" using xy(4) by (auto simp: have1(2))
    qed
    obtain x' y' where "range_ok (x', y')" "y' \<le> ds_total_chunks s"
      "waits_for s (unat x') (unat y') (?r\<lparr>dr_outstanding := Some (x', y')\<rparr>)"
      "request_missing J ?r = Some (?r\<lparr>dr_outstanding := Some (x', y')\<rparr>,
         [json_frame J DROP_REQUEST (of_request [(uint x', uint y')])])"
      using request_next [OF s have1(1), of J] wd False by auto
    moreover have "receiver_handle_frame C J now sa (chunk_frame s a) r = request_missing J ?r"
      by (subst receiver_chunk_frame [OF wd(2,1,6) refl])
        (simp only: False xy(1) option.case prod.case if_False if_P [OF all])
    ultimately show ?thesis
      using less by (auto simp: window_result_def missing_count_def)
  qed
qed

lemma deliver_window:
  assumes s: "sends_file C data s" and w: "waits_for s a b r" "a < b"
  shows "\<exists>rb. deliver_all C J now sa (map (chunk_frame s) [a..<b]) r = Some rb \<and> window_result C J data s (missing_count s r) rb"
  using w
proof (induction "b - a" arbitrary: a r)
  case (Suc n)
  have upt: "[a..<b] = a # [Suc a..<b]" using Suc.prems(2) by (simp add: upt_conv_Cons)
  show ?case
  proof (cases "Suc a = b")
    case True
    with window_last [OF s, of a r J now sa] Suc.prems(1) upt show ?thesis by auto
  next
    case False
    then have b: "Suc a < b" using Suc.prems(2) by simp
    note more = window_more [OF Suc.prems(1) b refl, where now = now]
    let ?r = "with_chunk now (ds_data s) a r"
    have "n = b - Suc a" using Suc.hyps(2) by simp
    from Suc.hyps(1) [OF this more(2) b]
    obtain rb where "deliver_all C J now sa (map (chunk_frame s) [Suc a..<b]) ?r = Some rb"
      "window_result C J data s (missing_count s ?r) rb" by auto
    then show ?thesis
      using more(1) upt missing_count_with_chunk [OF Suc.prems, of now]
      by (cases rb) (auto simp: window_result_def intro: order.strict_trans)
  qed
qed simp

lemma sender_answers:
  assumes "json_ok J"
  shows "sender_handle_frame J ra (json_frame J DROP_REQUEST (of_request [(uint (x :: u32), uint (y :: u32))])) s
      = (s, serve_range s (uint x) (uint y), None)"
    "sender_handle_frame J ra (json_frame J DROP_DONE (of_done h)) s
      = (s\<lparr>ds_completed := hm_insert ra (h = ds_sha256 s) (ds_completed s)\<rparr>, [], Some (h = ds_sha256 s))"
  using assms by (simp_all add: sender_handle_frame_def json_frame_def json_ok_parse DROP_REQUEST_def DROP_DONE_def Let_def)

definition transferred :: "bytes \<Rightarrow> socket_addr \<Rightarrow> (drop_sender_core \<times> drop_receiver_core) option \<Rightarrow> bool" where
  "transferred data ra out \<longleftrightarrow> (\<exists>s r. out = Some (s, r) \<and> dr_completion r = Some (data, True) \<and>
     dr_verified r = Some True \<and> map_of (ds_completed s) ra = Some True)"

lemma exchange_window:
  assumes J: "json_ok J" and s: "sends_file C data s" and w: "waits_for s a b r" "a < b" "missing_count s r \<le> n"
  shows "transferred data ra (drop_exchange C J now sa ra n (map (chunk_frame s) [a..<b]) (s, r))"
  using w
proof (induction "missing_count s r" arbitrary: a b r n rule: less_induct)
  case less
  have "0 < missing_count s r" using missing_count_with_chunk [OF less.prems(1,2), of now] by simp
  then obtain m where n: "n = Suc m" using less.prems(3) by (cases n) auto
  obtain r' resp where d: "deliver_all C J now sa (map (chunk_frame s) [a..<b]) r = Some (r', resp)"
    and res: "window_result C J data s (missing_count s r) (r', resp)"
    using deliver_window [OF s less.prems(1,2), of J now sa] by auto
  have ne: "map (chunk_frame s) [a..<b] \<noteq> []" using less.prems(2) by simp
  from res consider
      (fin) "resp = [json_frame J DROP_DONE (of_done (sha256_hex C data))]" "dr_verified r' = Some True" "dr_completion r' = Some (data, True)"
    | (req) x y where "resp = [json_frame J DROP_REQUEST (of_request [(uint x, uint y)])]" "range_ok (x, y)"
        "y \<le> ds_total_chunks s" "waits_for s (unat x) (unat y) r'" "missing_count s r' < missing_count s r"
    by (auto simp: window_result_def)
  then show ?case
  proof cases
    case fin
    moreover have "drop_exchange C J now sa ra m [] sr = Some sr" for sr by (cases m) auto
    ultimately show ?thesis
      using d ne s by (simp add: n sender_answers [OF J] transferred_def sends_file_def)
  next
    case req
    then have "unat x < unat y" by (simp add: range_ok_def word_less_nat_alt)
    with less.hyps [OF req(5,4)] req(5) less.prems(3) n
    have "transferred data ra (drop_exchange C J now sa ra m (map (chunk_frame s) [unat x..<unat y]) (s, r'))" by simp
    with d ne req show ?thesis
      by (simp add: n sender_answers [OF J] serve_requested [OF s])
  qed
qed

text \<open>C6. A transfer completes: from an offer to a receiver that lacks at least one chunk (it may resume with
  any others), when every frame arrives and every request is answered, the exchange ends, within one
  round per chunk and one for the offer, with the whole file and a positive verdict at both ends.\<close>

theorem drop_completes:
  assumes "json_ok J" "length data \<le> (2 ^ 32 - 64) * CHUNK_SIZE" "s = drop_sender_new C name data"
    "holds_part s m" "i < unat (ds_total_chunks s)" "map_of m (of_nat i) = None"
  shows "\<exists>s' r'. drop_exchange C J now sa ra (Suc (unat (ds_total_chunks s))) [offer_frame J s] (s, drop_receiver_new m)
      = Some (s', r') \<and> dr_completion r' = Some (data, True) \<and> dr_verified r' = Some True \<and>
    map_of (ds_completed s') ra = Some True"
proof -
  let ?r = "drop_receiver_new m\<lparr>dr_offer := Some (drop_offer s), dr_sender_addr := Some sa, dr_last_progress := Some now\<rparr>"
  have s: "sends_file C data s" using sends_file_new [OF assms(2)] assms(3) by simp
  obtain x y where xy: "range_ok (x, y)" "y \<le> ds_total_chunks s" "waits_for s (unat x) (unat y) (?r\<lparr>dr_outstanding := Some (x, y)\<rparr>)"
    "request_missing J ?r = Some (?r\<lparr>dr_outstanding := Some (x, y)\<rparr>, [json_frame J DROP_REQUEST (of_request [(uint x, uint y)])])"
    by (rule request_next [OF s, of ?r J]) (use assms(4-6) in \<open>auto simp: drop_receiver_new_def\<close>)
  have "unat x < unat y" using xy(1) by (simp add: range_ok_def word_less_nat_alt)
  from exchange_window [OF assms(1) s xy(3) this, of "unat (ds_total_chunks s)" ra now sa]
  have "transferred data ra (drop_exchange C J now sa ra (unat (ds_total_chunks s))
      (map (chunk_frame s) [unat x..<unat y]) (s, ?r\<lparr>dr_outstanding := Some (x, y)\<rparr>))"
    by (simp add: missing_count_def)
  moreover have "receiver_handle_frame C J now sa (offer_frame J s) (drop_receiver_new m) = request_missing J ?r"
    by (rule receiver_offer_frame [OF assms(1)]) (simp add: drop_receiver_new_def)
  ultimately show ?thesis
    using xy(4) by (auto simp: sender_answers [OF assms(1)] serve_requested [OF s xy(1,2)] transferred_def)
qed

section \<open>Limits\<close>

lemma split_run_wraps:
  assumes "split_run s i = Some rs"
  shows "i = - 1 \<longrightarrow> \<not> 64 dvd unat s"
proof (rule split_run.raw_induct [OF _ assms, where P = "\<lambda>s i _. i = - 1 \<longrightarrow> \<not> 64 dvd unat s"], intro impI notI)
  fix f and s i :: u32 and rs
  assume IH: "\<And>s i rs. f s i = Some rs \<Longrightarrow> i = - 1 \<longrightarrow> \<not> 64 dvd unat s"
    and eq: "(if s < i then Option.bind (f (s + ucast MAX_RANGE_CHUNKS) i)
        (\<lambda>rest. Some ((s, min (s + ucast MAX_RANGE_CHUNKS) i) # rest)) else Some []) = Some rs"
    and "i = - 1" and d: "64 dvd unat s"
  have i: "unat i = 2 ^ 32 - 1" using \<open>i = - 1\<close> by (simp add: unsigned_minus_1_eq_mask mask_eq_exp_minus_1)
  have "\<not> 64 dvd (2 ^ 32 - 1 :: nat)" by simp
  then have "unat s \<noteq> unat i" using d i by metis
  moreover have "unat s \<le> unat i" using unsigned_less [of s, where 'a = nat] i by simp
  ultimately have "s < i" by (simp add: word_less_nat_alt)
  then obtain rest where "f (s + 64) i = Some rest" using eq by (auto simp: bind_eq_Some_conv)
  with IH \<open>i = - 1\<close> have "\<not> 64 dvd unat (s + 64)" by blast
  moreover have "64 dvd unat (s + 64)" using d by (simp add: unat_word_ariths dvd_mod)
  ultimately show False by simp
qed

lemma missing_from_diverges:
  assumes "split_run a tot = None" "n \<le> unat tot"
  shows "missing_from [] tot (Some a) [n..<Suc (unat tot)] = None"
  using assms(2)
proof (induction "unat tot - n" arbitrary: n)
  case 0
  then have "n = unat tot" by simp
  with assms(1) show ?case by simp
next
  case (Suc m)
  have upt: "[n..<Suc (unat tot)] = n # [Suc n..<Suc (unat tot)]"
    using Suc.prems by (simp add: upt_conv_Cons del: upt_Suc)
  have "m = unat tot - Suc n" "n < unat tot" using Suc.hyps(2) by auto
  with Suc.hyps(1) [of "Suc n"] show ?case by (simp add: upt del: upt_Suc)
qed

text \<open>C30. An offer of 2^32 - 1 chunks stops the receiver for good: the loop that splits the missing run into
  ranges steps its 32-bit counter over the end of the type and starts again, so that the treatment of
  such an offer never returns, whoever sends it and whatever else it says.\<close>

theorem drop_offer_diverges:
  assumes "json_ok J" "of_total_chunks offer = 0xFFFFFFFF"
  shows "receiver_handle_frame C J now from (json_frame J DROP_OFFER (of_offer offer)) (drop_receiver_new []) = None"
proof -
  let ?r = "drop_receiver_new []\<lparr>dr_offer := Some offer, dr_sender_addr := Some from, dr_last_progress := Some now\<rparr>"
  have tot: "total_chunks ?r = - 1" using assms(2) by (simp add: total_chunks_def)
  have big: "0 < unat (- 1 :: u32)" by (simp add: unsigned_minus_1_eq_mask mask_eq_exp_minus_1)
  have "split_run 0 (- 1) = None"
    using split_run_wraps [of 0 "- 1"] by (cases "split_run 0 (- 1)") auto
  from missing_from_diverges [OF this, of "Suc 0"] big
  have "missing_from [] (- 1) None [0..<Suc (unat (- 1 :: u32))] = None"
    by (simp add: upt_conv_Cons word_less_nat_alt del: upt_Suc)
  then have "missing_ranges ?r = None"
    unfolding missing_ranges_def tot by (simp add: drop_receiver_new_def)
  then show ?thesis
    using assms(1)
    by (simp add: receiver_handle_frame_def json_frame_def json_ok_parse receiver_offer_def request_missing_def drop_receiver_new_def)
qed

lemma offer_step:
  assumes "json_ok J" "unat (ucast (of_total_chunks offer) :: u32) + 64 \<le> 2 ^ 32"
    "case dr_offer r of None \<Rightarrow> True | Some prev \<Rightarrow> of_sha256 prev = of_sha256 offer \<and> of_size prev = of_size offer"
  shows "\<exists>x fs. receiver_handle_frame C J now from (json_frame J DROP_OFFER (of_offer offer)) r =
    Some (r\<lparr>dr_offer := Some offer, dr_sender_addr := Some from, dr_last_progress := Some now, dr_outstanding := x\<rparr>, fs)"
proof -
  let ?r = "r\<lparr>dr_offer := Some offer, dr_sender_addr := Some from, dr_last_progress := Some now\<rparr>"
  have "receiver_handle_frame C J now from (json_frame J DROP_OFFER (of_offer offer)) r = request_missing J ?r"
    using assms(1,3)
    by (cases "dr_offer r") (simp_all add: receiver_handle_frame_def json_frame_def json_ok_parse receiver_offer_def)
  moreover obtain x fs where "request_missing J ?r = Some (?r\<lparr>dr_outstanding := x\<rparr>, fs)"
    by (rule request_missing_total [of ?r J]) (use assms(2) in \<open>simp add: total_chunks_def\<close>)
  ultimately show ?thesis by auto
qed

lemma chunk_step:
  assumes "dr_offer r = Some offer" "i < total_chunks r" "map_of (dr_have r) i = None" "unat (total_chunks r) + 64 \<le> 2 ^ 32"
    "of_nat (Suc (length (dr_have r))) \<noteq> total_chunks r"
  shows "\<exists>x fs. receiver_handle_frame C J now from (DROP_CHUNK # to_be 4 i @ c) r =
    Some (r\<lparr>dr_have := hm_insert i c (dr_have r), dr_last_progress := Some now, dr_outstanding := x\<rparr>, fs)"
proof -
  let ?r = "r\<lparr>dr_have := hm_insert i c (dr_have r), dr_last_progress := Some now\<rparr>"
  obtain x fs where req: "request_missing J ?r = Some (?r\<lparr>dr_outstanding := x\<rparr>, fs)"
    by (rule request_missing_total [of ?r J]) (use assms(4) in \<open>simp add: total_chunks_def\<close>)
  have keep: "\<exists>x. ?r = ?r\<lparr>dr_outstanding := x\<rparr>" by (rule exI [of _ "dr_outstanding r"]) simp
  have "total_chunks ?r = total_chunks r" by (simp add: total_chunks_def)
  with assms req keep show ?thesis
    by (auto simp: receiver_handle_frame_def receiver_chunk_def DROP_CHUNK_def DROP_OFFER_def length_hm_insert Let_def not_le
        simp del: of_nat_Suc)
qed

text \<open>Chunks that do not complete the count are stored, and nothing fails.\<close>

abbreviation chunk_event :: "socket_addr \<Rightarrow> instant \<times> u32 \<times> bytes \<Rightarrow> instant \<times> (socket_addr \<times> bytes) option" where
  "chunk_event a x \<equiv> (case x of (t, j, c) \<Rightarrow> (t, Some (a, DROP_CHUNK # to_be 4 j @ c)))"

lemma chunks_run:
  assumes "dr_offer r = Some offer" "total_chunks r = n" "unat n + 64 \<le> 2 ^ 32" "wf_hm (dr_have r)"
    "distinct (map (\<lambda>x. fst (snd x)) xs)" "\<forall>(_, j, _) \<in> set xs. j < n \<and> map_of (dr_have r) j = None"
    "length (dr_have r) + length xs < unat n"
  shows "\<exists>r' dones. receiver_run C J (map (chunk_event a) xs) r = Some (r', dones) \<and> dr_offer r' = Some offer \<and>
    wf_hm (dr_have r') \<and> length (dr_have r') = length (dr_have r) + length xs \<and>
    dom (map_of (dr_have r')) = dom (map_of (dr_have r)) \<union> (\<lambda>x. fst (snd x)) ` set xs"
  using assms
proof (induction xs arbitrary: r)
  case (Cons x xs)
  obtain t j c where x: "x = (t, j, c)" by (cases x)
  have j: "j < total_chunks r" "map_of (dr_have r) j = None" using Cons.prems(2,6) by (simp_all add: x)
  have "unat (of_nat (Suc (length (dr_have r))) :: u32) = Suc (length (dr_have r))"
    using Cons.prems(3,7) by (simp add: unat_of_nat del: of_nat_Suc)
  then have "of_nat (Suc (length (dr_have r))) \<noteq> total_chunks r"
    using Cons.prems(2,7) by auto
  from chunk_step [OF Cons.prems(1) j _ this, of C J t a c] Cons.prems(2,3) obtain out fs where
    h: "receiver_handle_frame C J t a (DROP_CHUNK # to_be 4 j @ c) r =
      Some (r\<lparr>dr_have := hm_insert j c (dr_have r), dr_last_progress := Some t, dr_outstanding := out\<rparr>, fs)" by auto
  define r1 where "r1 = r\<lparr>dr_have := hm_insert j c (dr_have r), dr_last_progress := Some t, dr_outstanding := out, dr_completion := None\<rparr>"
  have r1: "dr_offer r1 = Some offer" "total_chunks r1 = n" "wf_hm (dr_have r1)" "length (dr_have r1) = Suc (length (dr_have r))"
    "dom (map_of (dr_have r1)) = insert j (dom (map_of (dr_have r)))"
    using Cons.prems j(2) by (simp_all add: r1_def total_chunks_def length_hm_insert update_conv')
  have rest: "\<forall>(_, j, _) \<in> set xs. j < n \<and> map_of (dr_have r1) j = None"
    using Cons.prems(5,6) by (force simp: x r1_def update_conv')
  have "distinct (map (\<lambda>x. fst (snd x)) xs)" "length (dr_have r1) + length xs < unat n"
    using Cons.prems(5,7) r1(4) by simp_all
  from Cons.IH [OF r1(1,2) Cons.prems(3) r1(3) this(1) rest this(2)] obtain r' dones where
    "receiver_run C J (map (chunk_event a) xs) r1 = Some (r', dones)" "dr_offer r' = Some offer" "wf_hm (dr_have r')"
    "length (dr_have r') = length (dr_have r1) + length xs"
    "dom (map_of (dr_have r')) = dom (map_of (dr_have r1)) \<union> (\<lambda>x. fst (snd x)) ` set xs" by blast
  then show ?case using r1(4,5) by (simp add: x h take_completion_def r1_def [symmetric])
qed simp

text \<open>As many chunks as the offer names, one of them beyond its range: an index in range is missing.\<close>

lemma index_missing:
  assumes "wf_hm m" "length m = unat n" "map_of m k \<noteq> None" "n \<le> (k :: u32)"
  shows "\<exists>j < n. map_of m j = None"
proof (rule ccontr)
  assume "\<not> ?thesis"
  then have "insert k {j. j < n} \<subseteq> dom (map_of m)" using assms(3) by auto
  then have "card (insert k {j. j < n}) \<le> unat n"
    using card_mono [OF finite_dom_map_of] assms(1,2) by (metis length_hm_dom)
  moreover have "card {j. j < n} = unat n"
  proof -
    have "unat ` {j. j < n} = {..<unat n}"
    proof
      show "{..<unat n} \<subseteq> unat ` {j. j < n}"
      proof
        fix i assume "i \<in> {..<unat n}"
        then have "i = unat (of_nat i :: u32)" "(of_nat i :: u32) < n"
          using unat_of_nat_index [of i n] by (simp_all add: word_less_nat_alt)
        then show "i \<in> unat ` {j. j < n}" by blast
      qed
    qed (auto simp: word_less_nat_alt)
    then show ?thesis by (metis card_image card_lessThan inj_on_def unsigned_word_eqI)
  qed
  ultimately show False using assms(4) by simp
qed

lemma collect_missing: "j \<in> set ns \<Longrightarrow> map_of m (of_nat j) = None \<Longrightarrow> collect_chunks m ns = None"
  by (induction ns) (auto split: option.split)

lemma last_chunk_panics:
  assumes "dr_offer r = Some offer" "total_chunks r = n" "wf_hm (dr_have r)" "i < n" "map_of (dr_have r) i = None"
    "Suc (length (dr_have r)) = unat n" "map_of (dr_have r) k \<noteq> None" "n \<le> k"
  shows "collect_chunks (hm_insert i c (dr_have r)) [0..<unat n] = None \<and>
    receiver_handle_frame C J t a (DROP_CHUNK # to_be 4 i @ c) r = None"
proof -
  let ?m = "hm_insert i c (dr_have r)"
  have len: "length ?m = unat n" using assms(3,5,6) by (simp add: length_hm_insert)
  have "wf_hm ?m" "map_of ?m k \<noteq> None" using assms(3,7) by (simp_all add: update_conv')
  from index_missing [OF this(1) len this(2) assms(8)] obtain j where "j < n" "map_of ?m j = None" by blast
  then have none: "collect_chunks ?m [0..<unat n] = None"
    by (intro collect_missing [of "unat j"]) (simp_all add: word_less_nat_alt)
  moreover have "(of_nat (length ?m) :: u32) = n" unfolding len by simp
  ultimately show ?thesis
    using assms(1,2,4,5)
    by (auto simp: receiver_handle_frame_def receiver_chunk_def receiver_finish_def total_chunks_def
        DROP_CHUNK_def DROP_OFFER_def Let_def not_le)
qed

text \<open>C31. A repeated offer of the same file with fewer chunks makes the receiver panic: let a receiver hold a chunk
  whose index is beyond the \<open>n\<close> chunks the new offer names. The offer keeps what is held. When chunks in range that
  were missing then arrive, everything goes on until as many chunks are held as the offer names; the chunk that
  reaches this count starts the assembly, which panics, because the chunk beyond the range was counted and an
  index in range is still missing.\<close>

theorem drop_shrunk_offer_panics:
  assumes "json_ok J" "wf_hm (dr_have r)" "dr_offer r = Some prev"
    and offer: "of_sha256 prev = of_sha256 offer" "of_size prev = of_size offer" "n = ucast (of_total_chunks offer)"
      "unat n + 64 \<le> 2 ^ 32"
    and beyond: "map_of (dr_have r) k \<noteq> None" "n \<le> k"
    and new: "distinct (map (\<lambda>x. fst (snd x)) (xs @ [(t', i, c)]))"
      "\<forall>(_, j, _) \<in> set (xs @ [(t', i, c)]). j < n \<and> map_of (dr_have r) j = None"
    and count: "length (dr_have r) + length (xs @ [(t', i, c)]) = unat n"
  shows "\<exists>r' dones. receiver_run C J ((t, Some (a, json_frame J DROP_OFFER (of_offer offer))) # map (chunk_event a) xs) r
        = Some (r', dones) \<and>
     collect_chunks (hm_insert i c (dr_have r')) [0..<unat n] = None \<and>
     receiver_handle_frame C J t' a (DROP_CHUNK # to_be 4 i @ c) r' = None"
proof -
  have n: "unat (ucast (of_total_chunks offer) :: u32) + 64 \<le> 2 ^ 32" using offer(3,4) by simp
  have "case dr_offer r of None \<Rightarrow> True | Some prev \<Rightarrow> of_sha256 prev = of_sha256 offer \<and> of_size prev = of_size offer"
    using assms(3) offer(1,2) by simp
  from offer_step [OF assms(1) n this] obtain out fs where
    o: "receiver_handle_frame C J t a (json_frame J DROP_OFFER (of_offer offer)) r =
      Some (r\<lparr>dr_offer := Some offer, dr_sender_addr := Some a, dr_last_progress := Some t, dr_outstanding := out\<rparr>, fs)" by blast
  define r1 where "r1 = r\<lparr>dr_offer := Some offer, dr_sender_addr := Some a, dr_last_progress := Some t, dr_outstanding := out,
    dr_completion := None\<rparr>"
  have r1: "dr_offer r1 = Some offer" "total_chunks r1 = n" "dr_have r1 = dr_have r"
    using offer(3) by (simp_all add: r1_def total_chunks_def)
  have xs: "distinct (map (\<lambda>x. fst (snd x)) xs)" "\<forall>(_, j, _) \<in> set xs. j < n \<and> map_of (dr_have r1) j = None"
    "length (dr_have r1) + length xs < unat n" "wf_hm (dr_have r1)"
    using new count r1(3) assms(2) by simp_all
  obtain r' dones where r': "receiver_run C J (map (chunk_event a) xs) r1 = Some (r', dones)" "dr_offer r' = Some offer"
    "wf_hm (dr_have r')" "length (dr_have r') = length (dr_have r) + length xs"
    "dom (map_of (dr_have r')) = dom (map_of (dr_have r)) \<union> (\<lambda>x. fst (snd x)) ` set xs"
    using chunks_run [OF r1(1,2) offer(4) xs(4,1,2,3)] r1(3) by metis
  have i: "i < n" "i \<notin> dom (map_of (dr_have r'))" using new unfolding r'(5) by auto
  have "total_chunks r' = n" "Suc (length (dr_have r')) = unat n" "map_of (dr_have r') i = None"
    using r'(2,4) offer(3) count i(2) by (simp_all add: total_chunks_def domIff)
  moreover have "map_of (dr_have r') k \<noteq> None" using beyond(1) r'(5) by auto
  ultimately have "collect_chunks (hm_insert i c (dr_have r')) [0..<unat n] = None \<and>
      receiver_handle_frame C J t' a (DROP_CHUNK # to_be 4 i @ c) r' = None"
    by (intro last_chunk_panics [OF r'(2) _ r'(3) i(1) _ _ _ beyond(2)])
  moreover have "receiver_run C J ((t, Some (a, json_frame J DROP_OFFER (of_offer offer))) # map (chunk_event a) xs) r
      = Some (r', (case dr_completion r of None \<Rightarrow> [] | Some d \<Rightarrow> [d]) @ dones)"
    using r'(1) by (simp add: o take_completion_def r1_def)
  ultimately show ?thesis by blast
qed

text \<open>A receiver that resumes with every chunk of the file never completes: the offer makes it ask for
  nothing, so no chunk ever comes to trigger the verification, and ticks do not either.\<close>

theorem drop_full_resume_stalls:
  assumes "json_ok J" "length data \<le> (2 ^ 32 - 64) * CHUNK_SIZE" "s = drop_sender_new C name data"
    "holds_part s m" "\<forall>i < unat (ds_total_chunks s). map_of m (of_nat i) \<noteq> None"
  shows "\<exists>r. drop_exchange C J now sa ra (Suc n) [offer_frame J s] (s, drop_receiver_new m) = Some (s, r) \<and>
    dr_completion r = None \<and> dr_verified r = None \<and>
    (\<forall>later. \<exists>r'. receiver_tick J later r = Some (r', []) \<and> dr_completion r' = None)"
proof -
  have s: "sends_file C data s" using sends_file_new [OF assms(2)] assms(3) by simp
  have none: "request_missing J r = Some (r, [])" if r: "dr_offer r = Some (drop_offer s)" "dr_have r = m" for r
  proof -
    have "unat (total_chunks r) + 64 \<le> 2 ^ 32" using s total_chunks_offer [OF r(1)] by (simp add: sends_file_def)
    then obtain rs where rs: "missing_ranges r = Some rs" "\<forall>x \<in> set rs. range_ok x"
      "concat (map range_list rs) = filter (\<lambda>i. map_of (dr_have r) (of_nat i) = None) [0..<unat (total_chunks r)]"
      by (rule missing_ranges_Some)
    have "concat (map range_list rs) = []"
      unfolding rs(3) using assms(5) r(2) total_chunks_offer [OF r(1)] by (simp add: filter_empty_conv)
    with rs(2) have "rs = []" by (cases rs) (auto simp: range_list_def range_ok_def word_less_nat_alt)
    with rs(1) show ?thesis by (simp add: request_missing_def)
  qed
  let ?r = "drop_receiver_new m\<lparr>dr_offer := Some (drop_offer s), dr_sender_addr := Some sa, dr_last_progress := Some now\<rparr>"
  have "receiver_handle_frame C J now sa (offer_frame J s) (drop_receiver_new m) = Some (?r, [])"
    by (subst receiver_offer_frame [OF assms(1)]) (simp_all add: none drop_receiver_new_def)
  moreover have "drop_exchange C J now sa ra n [] sr = Some sr" for sr by (cases n) auto
  ultimately have "drop_exchange C J now sa ra (Suc n) [offer_frame J s] (s, drop_receiver_new m) = Some (s, ?r)"
    by simp
  moreover have "\<exists>r'. receiver_tick J later ?r = Some (r', []) \<and> dr_completion r' = None" for later
    using none [of "?r\<lparr>dr_last_progress := Some later\<rparr>"] by (auto simp: receiver_tick_def drop_receiver_new_def)
  ultimately show ?thesis by (auto simp: drop_receiver_new_def)
qed

section \<open>Witnesses\<close>

definition demo_sender :: drop_sender_core where
  "demo_sender = drop_sender_new demo_ops ''f'' [1, 2, 3]"

lemma demo_sender_total: "ds_total_chunks demo_sender = 1" "length [1, 2, 3 :: u8] \<le> (2 ^ 32 - 64) * CHUNK_SIZE"
  by (simp_all add: demo_sender_def drop_sender_new_def div_ceil_def CHUNK_SIZE_def)

lemma demo_sender_chunk: "file_chunk (ds_data demo_sender) 0 = [1, 2, 3]"
  by (simp add: demo_sender_def drop_sender_new_def file_chunk_def CHUNK_SIZE_def)

lemma demo_holds: "holds_part demo_sender []" "holds_part demo_sender [(0, [1, 2, 3])]"
  by (simp_all add: holds_part_def demo_sender_total demo_sender_chunk wf_hm_def)

definition demo_offer :: "u64 \<Rightarrow> offer_payload" where
  "demo_offer n = \<lparr>of_name = ''f'', of_size = 2500, of_chunk_size = 1024, of_total_chunks = n, of_sha256 = ''00''\<rparr>"

definition demo_wanting :: drop_receiver_core where
  "demo_wanting = drop_receiver_new [(1, [9])]\<lparr>dr_offer := Some (demo_offer 3)\<rparr>"

theorem missing_ranges_exact_witness:
  "\<exists>rs. missing_ranges demo_wanting = Some rs \<and> concat (map (\<lambda>(s, e). [unat s..<unat e]) rs) = [0, 2]"
proof -
  have "total_chunks demo_wanting = 3" "dr_have demo_wanting = [(1, [9])]"
    by (simp_all add: demo_wanting_def demo_offer_def total_chunks_def drop_receiver_new_def)
  moreover have "[0..<3] = [0, 1, 2 :: nat]" by (simp add: upt_rec)
  ultimately show ?thesis using missing_ranges_exact [of demo_wanting] by auto
qed

theorem drop_receives_file_witness:
  "\<exists>r dones. receiver_run demo_ops demo_json
      [(0, Some (SocketAddrV4 1 1, chunk_frame demo_sender 0)), (5, Some (SocketAddrV4 1 1, offer_frame demo_json demo_sender)),
       (6, None), (7, Some (SocketAddrV4 1 1, chunk_frame demo_sender 0))] (drop_receiver_new []) = Some (r, dones) \<and>
     set dones \<subseteq> {([1, 2, 3], True)}"
  by (rule drop_receives_file [OF demo_json_ok demo_sender_total(2) demo_sender_def demo_holds(1)])
    (auto simp: sender_frames_def demo_sender_total)

theorem drop_completes_witness:
  "\<exists>s' r'. drop_exchange demo_ops demo_json 0 (SocketAddrV4 1 1) (SocketAddrV4 2 2) 2 [offer_frame demo_json demo_sender]
      (demo_sender, drop_receiver_new []) = Some (s', r') \<and> dr_completion r' = Some ([1, 2, 3], True) \<and>
    map_of (ds_completed s') (SocketAddrV4 2 2) = Some True"
proof -
  have i: "0 < unat (ds_total_chunks demo_sender)" "map_of [] (of_nat 0 :: u32) = (None :: bytes option)"
    "Suc (unat (ds_total_chunks demo_sender)) = 2"
    by (simp_all add: demo_sender_total)
  from drop_completes [OF demo_json_ok demo_sender_total(2) demo_sender_def demo_holds(1) i(1,2)]
  show ?thesis unfolding i(3) by blast
qed

theorem drop_offer_diverges_witness:
  "receiver_handle_frame demo_ops demo_json 0 (SocketAddrV4 1 1)
     (json_frame demo_json DROP_OFFER (of_offer (demo_offer 0xFFFFFFFF))) (drop_receiver_new []) = None"
  by (rule drop_offer_diverges [OF demo_json_ok]) (simp add: demo_offer_def)

text \<open>A receiver of five chunks that holds the last of them is offered the file again in three; then the first two
  arrive.\<close>

definition demo_large :: drop_receiver_core where
  "demo_large = drop_receiver_new [(4, [7])]\<lparr>dr_offer := Some (demo_offer 5)\<rparr>"

theorem drop_shrunk_offer_panics_witness:
  "\<exists>r' dones. receiver_run demo_ops demo_json
      [(2, Some (SocketAddrV4 1 1, json_frame demo_json DROP_OFFER (of_offer (demo_offer 3)))),
       (3, Some (SocketAddrV4 1 1, DROP_CHUNK # to_be 4 (0 :: u32) @ [8]))] demo_large = Some (r', dones) \<and>
     receiver_handle_frame demo_ops demo_json 4 (SocketAddrV4 1 1) (DROP_CHUNK # to_be 4 (1 :: u32) @ [9]) r' = None"
proof -
  have "wf_hm (dr_have demo_large)" "dr_offer demo_large = Some (demo_offer 5)" "dr_have demo_large = [(4, [7])]"
    by (simp_all add: demo_large_def drop_receiver_new_def wf_hm_def)
  moreover have "of_sha256 (demo_offer 5) = of_sha256 (demo_offer 3)" "of_size (demo_offer 5) = of_size (demo_offer 3)"
    "(3 :: u32) = ucast (of_total_chunks (demo_offer 3))" by (simp_all add: demo_offer_def)
  ultimately show ?thesis
    using drop_shrunk_offer_panics [OF demo_json_ok, where r = demo_large and prev = "demo_offer 5" and offer = "demo_offer 3"
        and n = 3 and k = 4 and xs = "[(3, 0, [8])]" and t' = 4 and i = 1 and c = "[9]" and C = demo_ops and t = 2 and a = "SocketAddrV4 1 1"]
    by fastforce
qed

theorem drop_full_resume_stalls_witness:
  "\<exists>r. drop_exchange demo_ops demo_json 0 (SocketAddrV4 1 1) (SocketAddrV4 2 2) 5 [offer_frame demo_json demo_sender]
      (demo_sender, drop_receiver_new [(0, [1, 2, 3])]) = Some (demo_sender, r) \<and> dr_completion r = None"
proof -
  have full: "\<forall>i < unat (ds_total_chunks demo_sender). map_of [(0 :: u32, [1, 2, 3 :: u8])] (of_nat i) \<noteq> None"
    by (simp add: demo_sender_total)
  have "Suc 4 = 5" by simp
  with drop_full_resume_stalls [OF demo_json_ok demo_sender_total(2) demo_sender_def demo_holds(2) full,
      of 0 "SocketAddrV4 1 1" "SocketAddrV4 2 2" 4]
  show ?thesis by metis
qed

end
