(* ===== verification/Channel_Net.thy ===== *)
theory Channel_Net
  imports Channel Reassembly "HOL-Library.Sublist"
begin

text \<open>
  Two connection tasks of \<open>rust/telesthete/src/channel.rs\<close> over a network that loses, repeats,
  delays and reorders packets at will, but delivers only bytes the peer's task sent (the transport
  authenticates packets). The development shows that what one endpoint delivers to its application
  is what the other endpoint's application sent, in order, each message at most once.
\<close>

section \<open>The two-party system\<close>

record side =
  sd_task :: "conn_task option"
  sd_sent :: "bytes list"
  sd_msgs :: "(fragment_id \<times> bytes) list"
  sd_got :: "bytes list"

definition side_new :: "u16 \<Rightarrow> duration \<Rightarrow> side" where
  "side_new window rto = \<lparr>sd_task = Some (conn_task_new window rto), sd_sent = [], sd_msgs = [], sd_got = []\<rparr>"

text \<open>The messages an event asks to send, and the effect of a result on the side.\<close>

definition event_msgs :: "conn_event \<Rightarrow> (fragment_id \<times> bytes) list" where
  "event_msgs ev = (case ev of Cmd (Send fid m) \<Rightarrow> [(fid, m)] | _ \<Rightarrow> [])"

fun apply_result :: "conn_event \<Rightarrow> conn_result \<Rightarrow> side \<Rightarrow> side" where
  "apply_result ev ConnPanic s = s\<lparr>sd_task := None\<rparr>"
| "apply_result ev (ConnExit e) s =
     s\<lparr>sd_task := None, sd_sent := sd_sent s @ ce_sent e, sd_got := sd_got s @ ce_delivered e,
       sd_msgs := sd_msgs s @ event_msgs ev\<rparr>"
| "apply_result ev (ConnContinue t e) s =
     s\<lparr>sd_task := Some t, sd_sent := sd_sent s @ ce_sent e, sd_got := sd_got s @ ce_delivered e,
       sd_msgs := sd_msgs s @ event_msgs ev\<rparr>"

text \<open>One side takes an event; a frame must be one the other side sent, at any time before.\<close>

definition enabled :: "side \<Rightarrow> instant \<Rightarrow> conn_event \<Rightarrow> conn_task \<Rightarrow> bool" where
  "enabled peer now ev t = (case ev of
     FrameIn f \<Rightarrow> \<exists>b \<in> set (sd_sent peer). frame_parse b = Some f
   | Timer \<Rightarrow> timer_ready now t
   | Cmd (Send fid m) \<Rightarrow> length fid = 16
   | _ \<Rightarrow> True)"

inductive net_step :: "side \<times> side \<Rightarrow> side \<times> side \<Rightarrow> bool" where
  left: "sd_task a = Some t \<Longrightarrow> enabled b now ev t \<Longrightarrow>
    net_step (a, b) (apply_result ev (conn_step rx now ev t) a, b)"
| right: "sd_task b = Some t \<Longrightarrow> enabled a now ev t \<Longrightarrow>
    net_step (a, b) (a, apply_result ev (conn_step rx now ev t) b)"

inductive net_reach :: "side \<times> side \<Rightarrow> bool" where
  init: "net_reach (side_new w1 r1, side_new w2 r2)"
| step: "net_reach s \<Longrightarrow> net_step s s' \<Longrightarrow> net_reach s'"

section \<open>The sender's log\<close>

text \<open>The log of a side lists the sequenced frames it made, as (flags, data); the position is the
  inner sequence number. Handshake frames come first, then data, then at most one FIN.\<close>

type_synonym log = "(u8 \<times> bytes) list"

definition log_entry :: "log \<Rightarrow> nat \<Rightarrow> unacked" where
  "log_entry log i = \<lparr>u_flags = fst (log ! i), u_seq = of_nat i, u_data = snd (log ! i)\<rparr>"

text \<open>A sent frame acknowledges at most \<open>m\<close>, and if it consumes a sequence number it is in the log.\<close>

definition sent_ok :: "log \<Rightarrow> nat \<Rightarrow> bytes \<Rightarrow> bool" where
  "sent_ok log m b \<longleftrightarrow> (\<exists>f. b = frame_serialize f \<and> wf_frame f \<and> \<not> has_flag FLAG_RST (f_flags f) \<and>
     unat (f_ack_num f) \<le> m \<and>
     (consumes_seq f \<longrightarrow> unat (f_seq f) < length log \<and> log ! unat (f_seq f) = (f_flags f, f_data f)))"

definition outbox_ok :: "log \<Rightarrow> channel_core \<Rightarrow> bool" where
  "outbox_ok log c \<longleftrightarrow> (\<forall>b \<in> set (cc_outbox c). sent_ok log (unat (cc_rcv_next c)) b)"

text \<open>The sender's counters: \<open>k\<close> frames are acknowledged, the others of the log are in flight.\<close>

definition seq_inv :: "log \<Rightarrow> nat \<Rightarrow> channel_core \<Rightarrow> bool" where
  "seq_inv log k c \<longleftrightarrow> cc_send_next c = of_nat (length log) \<and> k \<le> length log \<and>
     cc_unacked c = map (log_entry log) [k..<length log] \<and> outbox_ok log c \<and>
     (\<forall>(fl, d) \<in> set log. fl AND RESERVED_MASK = 0 \<and> \<not> has_flag FLAG_RST fl)"

lemma flag_simps [simp]:
  "has_flag FLAG_SYN FLAG_SYN" "\<not> has_flag FLAG_FIN FLAG_SYN" "\<not> has_flag FLAG_RST FLAG_SYN"
  "has_flag FLAG_SYN (FLAG_SYN OR FLAG_ACK)" "\<not> has_flag FLAG_FIN (FLAG_SYN OR FLAG_ACK)"
  "\<not> has_flag FLAG_RST (FLAG_SYN OR FLAG_ACK)"
  "\<not> has_flag FLAG_SYN FLAG_ACK" "\<not> has_flag FLAG_FIN FLAG_ACK" "\<not> has_flag FLAG_RST FLAG_ACK"
  "has_flag FLAG_FIN (FLAG_FIN OR FLAG_ACK)" "\<not> has_flag FLAG_SYN (FLAG_FIN OR FLAG_ACK)"
  "\<not> has_flag FLAG_RST (FLAG_FIN OR FLAG_ACK)"
  "FLAG_ACK \<noteq> FLAG_SYN" "FLAG_SYN AND RESERVED_MASK = 0" "FLAG_ACK AND RESERVED_MASK = 0"
  "(FLAG_SYN OR FLAG_ACK) AND RESERVED_MASK = 0" "(FLAG_FIN OR FLAG_ACK) AND RESERVED_MASK = 0"
  by (simp_all add: has_flag_def FLAG_SYN_def FLAG_FIN_def FLAG_ACK_def FLAG_RST_def RESERVED_MASK_def)

lemma sent_okI:
  "wf_frame f \<Longrightarrow> \<not> has_flag FLAG_RST (f_flags f) \<Longrightarrow> unat (f_ack_num f) \<le> m \<Longrightarrow>
     (consumes_seq f \<Longrightarrow> unat (f_seq f) < length log \<and> log ! unat (f_seq f) = (f_flags f, f_data f)) \<Longrightarrow>
     sent_ok log m (frame_serialize f)"
  unfolding sent_ok_def by blast

lemma sent_ok_append: "sent_ok log m b \<Longrightarrow> m \<le> m' \<Longrightarrow> sent_ok (log @ ext) m' b"
  by (force simp: sent_ok_def nth_append)

lemma sent_ok_mono: "sent_ok log m b \<Longrightarrow> m \<le> m' \<Longrightarrow> sent_ok log m' b"
  using sent_ok_append [of log m b m' "[]"] by simp

lemma sent_ok_parse:
  "sent_ok log m b \<Longrightarrow> frame_parse b = Some f \<Longrightarrow> wf_frame f \<and> \<not> has_flag FLAG_RST (f_flags f) \<and>
     unat (f_ack_num f) \<le> m \<and>
     (consumes_seq f \<longrightarrow> unat (f_seq f) < length log \<and> log ! unat (f_seq f) = (f_flags f, f_data f))"
  by (auto simp: sent_ok_def frame_parse_serialize)

lemma emit_fields [simp]:
  "cc_state (emit fl sq d c) = cc_state c" "cc_send_next (emit fl sq d c) = cc_send_next c"
  "cc_unacked (emit fl sq d c) = cc_unacked c" "cc_send_queue (emit fl sq d c) = cc_send_queue c"
  "cc_rcv_next (emit fl sq d c) = cc_rcv_next c" "cc_recv_buffer (emit fl sq d c) = cc_recv_buffer c"
  "cc_reassembler (emit fl sq d c) = cc_reassembler c" "cc_delivered (emit fl sq d c) = cc_delivered c"
  "cc_dead (emit fl sq d c) = cc_dead c" "cc_closing (emit fl sq d c) = cc_closing c"
  "cc_window (emit fl sq d c) = cc_window c" "cc_peer_window (emit fl sq d c) = cc_peer_window c"
  "cc_peer_closed (emit fl sq d c) = cc_peer_closed c" "cc_retries (emit fl sq d c) = cc_retries c"
  by (simp_all add: emit_def)

lemma emit_next_fields [simp]:
  "cc_state (emit_next fl d c) = cc_state c" "cc_send_next (emit_next fl d c) = cc_send_next c + 1"
  "cc_unacked (emit_next fl d c) = cc_unacked c @ [\<lparr>u_flags = fl, u_seq = cc_send_next c, u_data = d\<rparr>]"
  "cc_send_queue (emit_next fl d c) = cc_send_queue c"
  "cc_rcv_next (emit_next fl d c) = cc_rcv_next c" "cc_recv_buffer (emit_next fl d c) = cc_recv_buffer c"
  "cc_reassembler (emit_next fl d c) = cc_reassembler c" "cc_delivered (emit_next fl d c) = cc_delivered c"
  "cc_dead (emit_next fl d c) = cc_dead c" "cc_closing (emit_next fl d c) = cc_closing c"
  "cc_window (emit_next fl d c) = cc_window c" "cc_peer_window (emit_next fl d c) = cc_peer_window c"
  "cc_peer_closed (emit_next fl d c) = cc_peer_closed c" "cc_retries (emit_next fl d c) = cc_retries c"
  by (simp_all add: emit_next_def emit_reliable_def)

lemma emit_pure_ack_fields [simp]:
  "cc_state (emit_pure_ack c) = cc_state c" "cc_send_next (emit_pure_ack c) = cc_send_next c"
  "cc_unacked (emit_pure_ack c) = cc_unacked c" "cc_send_queue (emit_pure_ack c) = cc_send_queue c"
  "cc_rcv_next (emit_pure_ack c) = cc_rcv_next c" "cc_recv_buffer (emit_pure_ack c) = cc_recv_buffer c"
  "cc_reassembler (emit_pure_ack c) = cc_reassembler c" "cc_delivered (emit_pure_ack c) = cc_delivered c"
  "cc_dead (emit_pure_ack c) = cc_dead c" "cc_closing (emit_pure_ack c) = cc_closing c"
  by (simp_all add: emit_pure_ack_def)

lemma log_entry_append: "i < length log \<Longrightarrow> log_entry (log @ ext) i = log_entry log i"
  by (simp add: log_entry_def nth_append)

lemma outbox_emit [simp]: "cc_outbox (emit fl sq d c) = cc_outbox c @
    [frame_serialize \<lparr>f_flags = fl, f_ack_num = cc_rcv_next c, f_window = cc_window c, f_seq = sq, f_data = d\<rparr>]"
  by (simp add: emit_def)

lemma outbox_emit_next [simp]: "cc_outbox (emit_next fl d c) = cc_outbox c @
    [frame_serialize \<lparr>f_flags = fl, f_ack_num = cc_rcv_next c, f_window = cc_window c,
       f_seq = cc_send_next c, f_data = d\<rparr>]"
  by (simp add: emit_next_def emit_reliable_def)

lemma seq_inv_update [simp]:
  "seq_inv log k (c\<lparr>cc_state := s\<rparr>) = seq_inv log k c"
  "seq_inv log k (c\<lparr>cc_closing := b\<rparr>) = seq_inv log k c"
  "seq_inv log k (c\<lparr>cc_send_queue := q\<rparr>) = seq_inv log k c"
  "seq_inv log k (c\<lparr>cc_just_established := b\<rparr>) = seq_inv log k c"
  "seq_inv log k (c\<lparr>cc_peer_window := w\<rparr>) = seq_inv log k c"
  "seq_inv log k (c\<lparr>cc_peer_closed := b\<rparr>) = seq_inv log k c"
  "seq_inv log k (c\<lparr>cc_reassembler := r\<rparr>) = seq_inv log k c"
  "seq_inv log k (c\<lparr>cc_delivered := ms\<rparr>) = seq_inv log k c"
  "seq_inv log k (c\<lparr>cc_recv_buffer := m\<rparr>) = seq_inv log k c"
  "seq_inv log k (c\<lparr>cc_retries := n\<rparr>) = seq_inv log k c"
  by (simp_all add: seq_inv_def outbox_ok_def)

lemma seq_inv_emit_next:
  assumes "seq_inv log k c" "Suc (length log) < 2 ^ 64" "fl AND RESERVED_MASK = 0" "\<not> has_flag FLAG_RST fl"
  shows "seq_inv (log @ [(fl, d)]) k (emit_next fl d c)"
proof -
  have n: "cc_send_next c = of_nat (length log)" "unat (of_nat (length log) :: u64) = length log"
    using assms(1,2) by (simp_all add: seq_inv_def unat_of_nat)
  then have "sent_ok (log @ [(fl, d)]) (unat a)
      (frame_serialize \<lparr>f_flags = fl, f_ack_num = a, f_window = w, f_seq = of_nat (length log), f_data = d\<rparr>)" for a w
    using assms(3,4) by (intro sent_okI) (simp_all add: wf_frame_def)
  with assms n show ?thesis
    by (auto simp: seq_inv_def outbox_ok_def sent_ok_append log_entry_append
        log_entry_def [of "log @ [(fl, d)]" "length log"])
qed

lemma seq_inv_emit_pure_ack:
  assumes "seq_inv log k c"
  shows "seq_inv log k (emit_pure_ack c)"
proof -
  have "sent_ok log (unat a) (frame_serialize \<lparr>f_flags = FLAG_ACK, f_ack_num = a, f_window = w, f_seq = s, f_data = []\<rparr>)" for a w s
    by (intro sent_okI) (simp_all add: wf_frame_def consumes_seq_def)
  with assms show ?thesis
    by (auto simp: seq_inv_def outbox_ok_def emit_pure_ack_def)
qed

lemma dropWhile_upt:
  obtains k' where "dropWhile P [k..<n] = [k'..<n]" "k \<le> k'" "k \<le> n \<Longrightarrow> k' \<le> n" "k' = k \<or> P (k' - 1)"
proof -
  let ?m = "length (takeWhile P [k..<n])"
  have "dropWhile P [k..<n] = [k + ?m..<n]"
    by (simp add: dropWhile_eq_drop drop_upt)
  moreover have m: "?m \<le> n - k"
    using length_takeWhile_le [of P "[k..<n]"] by simp
  moreover have "P (k + ?m - 1)" if m0: "?m \<noteq> 0"
  proof -
    obtain j where j: "?m = Suc j" using not0_implies_Suc [OF m0] by blast
    then have "takeWhile P [k..<n] ! j = k + j"
      using takeWhile_nth [of j P "[k..<n]"] m by simp
    moreover have "takeWhile P [k..<n] ! j \<in> set (takeWhile P [k..<n])"
      using j by (intro nth_mem) simp
    ultimately show ?thesis
      using set_takeWhileD j by fastforce
  qed
  ultimately show thesis
    by (intro that [of "k + ?m"]) auto
qed

text \<open>A cumulative acknowledgement moves the mark up, to at most what was acknowledged.\<close>

lemma seq_inv_ack:
  assumes "seq_inv log k c" "length log < 2 ^ 64"
  obtains k' where "seq_inv log k' (ack a c)" "k \<le> k'" "k' \<le> max k (unat a)"
proof -
  let ?P = "\<lambda>u. u_seq u < min a (cc_send_next c)"
  obtain k' where k': "dropWhile (?P \<circ> log_entry log) [k..<length log] = [k'..<length log]" "k \<le> k'"
      "k' \<le> length log" "k' = k \<or> ?P (log_entry log (k' - 1))"
    using assms(1) dropWhile_upt [of "?P \<circ> log_entry log" k "length log"] by (auto simp: seq_inv_def)
  have "k' \<le> max k (unat a)"
  proof (cases "k' = k")
    case False
    then have "(of_nat (k' - 1) :: u64) < a" using k'(4) by (simp add: log_entry_def)
    moreover have "unat (of_nat (k' - 1) :: u64) = k' - 1" using k'(3) assms(2) by (simp add: unat_of_nat)
    ultimately show ?thesis by (simp add: word_less_nat_alt)
  qed simp
  moreover have "seq_inv log k' (ack a c)"
    using assms(1) k' by (auto simp: seq_inv_def ack_def Let_def dropWhile_map outbox_ok_def)
  ultimately show thesis using that k'(2) by blast
qed

text \<open>The shape of the log by connection state; \<open>chs\<close> are the chunks of all messages sent so far.\<close>

definition log_shape :: "log \<Rightarrow> bytes list \<Rightarrow> log \<Rightarrow> log \<Rightarrow> bool" where
  "log_shape syns ds fins log \<longleftrightarrow> log = syns @ map (Pair FLAG_ACK) ds @ fins \<and>
     set syns \<subseteq> {(FLAG_SYN, []), (FLAG_SYN OR FLAG_ACK, [])} \<and> length syns \<le> 2 \<and>
     (fins = [] \<or> fins = [(FLAG_FIN OR FLAG_ACK, [])])"

definition shape :: "bytes list \<Rightarrow> log \<Rightarrow> channel_core \<Rightarrow> bool" where
  "shape chs log c \<longleftrightarrow> (\<exists>syns ds fins. log_shape syns ds fins log \<and> ds @ cc_send_queue c = chs \<and>
     (case cc_state c of
        Closed \<Rightarrow> log = []
      | SynSent \<Rightarrow> log = [(FLAG_SYN, [])]
      | Established \<Rightarrow> syns \<noteq> [] \<and> fins = []
      | FinSent \<Rightarrow> syns \<noteq> [] \<and> fins \<noteq> []))"

definition send_inv :: "bytes list \<Rightarrow> log \<Rightarrow> nat \<Rightarrow> channel_core \<Rightarrow> bool" where
  "send_inv chs log k c \<longleftrightarrow> seq_inv log k c \<and> shape chs log c \<and> \<not> cc_dead c"

lemma log_shape_length: "log_shape syns ds fins log \<Longrightarrow> length log \<le> length ds + 3"
  by (auto simp: log_shape_def)

lemma shape_length: "shape chs log c \<Longrightarrow> length log \<le> length chs + 3"
  by (auto simp: shape_def dest!: log_shape_length)

definition same_recv :: "channel_core \<Rightarrow> channel_core \<Rightarrow> bool" where
  "same_recv c c' \<longleftrightarrow> cc_rcv_next c' = cc_rcv_next c \<and> cc_recv_buffer c' = cc_recv_buffer c \<and>
     cc_reassembler c' = cc_reassembler c \<and> cc_delivered c' = cc_delivered c"

lemma same_recv_refl [simp]: "same_recv c c"
  by (simp add: same_recv_def)

lemma same_recv_trans: "same_recv a b \<Longrightarrow> same_recv b c \<Longrightarrow> same_recv a c"
  by (simp add: same_recv_def)

lemma pump_queue_spec:
  assumes "seq_inv log k c" "length log + length q < 2 ^ 64 - 1"
  shows "\<exists>ds. q = ds @ cc_send_queue (pump_queue limit q c) \<and>
    seq_inv (log @ map (Pair FLAG_ACK) ds) k (pump_queue limit q c) \<and>
    same_recv c (pump_queue limit q c) \<and> cc_state (pump_queue limit q c) = cc_state c \<and>
    cc_dead (pump_queue limit q c) = cc_dead c"
  using assms
proof (induction limit q c arbitrary: log rule: pump_queue.induct)
  case (1 limit c)
  then show ?case
    by (auto simp: seq_inv_def outbox_ok_def same_recv_def)
next
  case (2 limit d q c)
  show ?case
  proof (cases "length (cc_unacked c) < limit")
    case True
    have "seq_inv (log @ [(FLAG_ACK, d)]) k (emit_next FLAG_ACK d c)"
      using 2(2,3) by (intro seq_inv_emit_next) simp_all
    then obtain ds where "q = ds @ cc_send_queue (pump_queue limit q (emit_next FLAG_ACK d c))"
      "seq_inv (log @ map (Pair FLAG_ACK) (d # ds)) k (pump_queue limit q (emit_next FLAG_ACK d c))"
      "same_recv (emit_next FLAG_ACK d c) (pump_queue limit q (emit_next FLAG_ACK d c))"
      "cc_state (pump_queue limit q (emit_next FLAG_ACK d c)) = cc_state c"
      "cc_dead (pump_queue limit q (emit_next FLAG_ACK d c)) = cc_dead c"
      using 2(1) [OF True, of "log @ [(FLAG_ACK, d)]"] 2(3) by auto
    with True show ?thesis
      by (intro exI [of _ "d # ds"]) (auto simp: same_recv_def)
  next
    case False
    with 2(2) show ?thesis
      by (intro exI [of _ "[]"]) (auto simp: seq_inv_def outbox_ok_def same_recv_def)
  qed
qed

lemma pump_spec:
  assumes "send_inv chs log k c" "length chs + 4 < 2 ^ 64"
  obtains ext where "send_inv chs (log @ ext) k (pump c)" "same_recv c (pump c)"
    "cc_state (pump c) = cc_state c \<or> (cc_state c = Established \<and> cc_state (pump c) = FinSent)"
proof (cases "cc_state c = Established")
  case False
  then have "pump c = c" by (simp add: pump_def)
  then show thesis using that [of "[]"] assms by simp
next
  case est: True
  let ?q = "pump_queue (unat (max (cc_peer_window c) 1)) (cc_send_queue c) c"
  from assms(1) est obtain syns ds where sh: "log_shape syns ds [] log" "ds @ cc_send_queue c = chs" "syns \<noteq> []"
    and seq: "seq_inv log k c" and dead: "\<not> cc_dead c"
    by (auto simp: send_inv_def shape_def)
  have len: "length log \<le> length ds + 2" using sh(1) by (auto simp: log_shape_def)
  then have bound: "length log + length (cc_send_queue c) < 2 ^ 64 - 1"
    using assms(2) sh(2) by auto
  obtain ds' where q: "cc_send_queue c = ds' @ cc_send_queue ?q"
    "seq_inv (log @ map (Pair FLAG_ACK) ds') k ?q" "same_recv c ?q"
    "cc_state ?q = Established" "cc_dead ?q = cc_dead c"
    using pump_queue_spec [OF seq bound] est by auto
  have "length ds' \<le> length (cc_send_queue c)"
    using q(1) by (metis le_add1 length_append)
  then have bound': "Suc (length (log @ map (Pair FLAG_ACK) ds')) < 2 ^ 64"
    using bound by simp
  have sh': "log_shape syns (ds @ ds') [] (log @ map (Pair FLAG_ACK) ds')"
    using sh(1) by (simp add: log_shape_def)
  show thesis
  proof (cases "cc_closing ?q \<and> cc_send_queue ?q = [] \<and> length (cc_unacked ?q) < unat (max (cc_peer_window c) 1)")
    case True
    let ?fin = "(FLAG_FIN OR FLAG_ACK, [] :: bytes)"
    have p: "pump c = (emit_next (FLAG_FIN OR FLAG_ACK) [] ?q)\<lparr>cc_state := FinSent, cc_closing := False\<rparr>"
      using True est by (simp add: pump_def Let_def)
    have "seq_inv ((log @ map (Pair FLAG_ACK) ds') @ [?fin]) k (emit_next (FLAG_FIN OR FLAG_ACK) [] ?q)"
      using q(2) bound' by (intro seq_inv_emit_next) simp_all
    then have "seq_inv (log @ map (Pair FLAG_ACK) ds' @ [?fin]) k (pump c)"
      by (simp add: p)
    moreover have "log_shape syns (ds @ ds') [?fin] (log @ map (Pair FLAG_ACK) ds' @ [?fin])"
      using sh' by (simp add: log_shape_def)
    then have "shape chs (log @ map (Pair FLAG_ACK) ds' @ [?fin]) (pump c)"
      using sh(2,3) q(1) True unfolding shape_def
      by (intro exI [of _ syns] exI [of _ "ds @ ds'"] exI [of _ "[?fin]"]) (simp add: p)
    ultimately show thesis
      using that [of "map (Pair FLAG_ACK) ds' @ [?fin]"] q dead est
      by (simp add: send_inv_def p same_recv_def)
  next
    case False
    then have p: "pump c = ?q" using est by (auto simp: pump_def Let_def)
    have "shape chs (log @ map (Pair FLAG_ACK) ds') ?q"
      using sh sh' q unfolding shape_def
      by (intro exI [of _ syns] exI [of _ "ds @ ds'"] exI [of _ "[]"]) simp
    then show thesis
      using that [of "map (Pair FLAG_ACK) ds'"] q dead est by (simp add: p send_inv_def)
  qed
qed

section \<open>The receiver\<close>

text \<open>The receiver at position \<open>n\<close> of the peer's log: its reassembler has been fed exactly the data of
  the first \<open>n\<close> entries, in order, and the reorder buffer holds later entries of the log. \<open>past\<close> are
  the messages it already handed over.\<close>

definition fed_data :: "log \<Rightarrow> bytes list" where
  "fed_data log = map snd (filter (\<lambda>(fl, d). \<not> has_flag FLAG_FIN fl \<and> d \<noteq> []) log)"

definition fed_from :: "log \<Rightarrow> reassembler \<Rightarrow> bytes list \<Rightarrow> bool" where
  "fed_from entries r msgs \<longleftrightarrow> (\<exists>ts outs. length ts = length (fed_data entries) \<and>
     feeds (zip ts (fed_data entries)) (for_chunk_size MAX_CHUNK_PAYLOAD) = (r, outs) \<and> msgs = somes outs)"

definition recv_at :: "log \<Rightarrow> bytes list \<Rightarrow> nat \<Rightarrow> channel_core \<Rightarrow> bool" where
  "recv_at plog past n c \<longleftrightarrow> cc_rcv_next c = of_nat n \<and> n \<le> length plog \<and>
     fed_from (take n plog) (cc_reassembler c) (past @ cc_delivered c) \<and>
     wf_hm (cc_recv_buffer c) \<and>
     (\<forall>q f. (q, f) \<in> set (cc_recv_buffer c) \<longrightarrow>
        n \<le> unat q \<and> unat q < length plog \<and> plog ! unat q = (f_flags f, f_data f))"

definition recv_inv :: "log \<Rightarrow> bytes list \<Rightarrow> channel_core \<Rightarrow> bool" where
  "recv_inv plog past c \<longleftrightarrow> (\<exists>n. recv_at plog past n c \<and>
     (cc_state c = Closed \<or> cc_state c = SynSent \<longrightarrow> n = 0 \<and> cc_recv_buffer c = []))"

lemma fed_data_append [simp]: "fed_data (xs @ ys) = fed_data xs @ fed_data ys"
  by (simp add: fed_data_def)

lemma fed_from_Nil: "fed_from [] (for_chunk_size MAX_CHUNK_PAYLOAD) []"
  by (simp add: fed_from_def fed_data_def)

lemma fed_from_empty:
  "fed_data xs = [] \<Longrightarrow> fed_from xs r ms \<longleftrightarrow> r = for_chunk_size MAX_CHUNK_PAYLOAD \<and> ms = []"
  by (auto simp: fed_from_def)

lemma fed_from_snoc:
  assumes "fed_from xs r ms" "feed now d r = (r', out)" "\<not> has_flag FLAG_FIN fl" "d \<noteq> []"
  shows "fed_from (xs @ [(fl, d)]) r' (ms @ (case out of None \<Rightarrow> [] | Some m \<Rightarrow> [m]))"
proof -
  obtain ts outs where "length ts = length (fed_data xs)"
    "feeds (zip ts (fed_data xs)) (for_chunk_size MAX_CHUNK_PAYLOAD) = (r, outs)" "ms = somes outs"
    using assms(1) by (auto simp: fed_from_def)
  with assms(2-4) show ?thesis
    unfolding fed_from_def
    by (intro exI [of _ "ts @ [now]"] exI [of _ "outs @ [out]"])
      (auto simp: fed_data_def feeds_append split: option.splits)
qed

lemma fed_from_skip:
  "fed_from xs r ms \<Longrightarrow> has_flag FLAG_FIN fl \<or> d = [] \<Longrightarrow> fed_from (xs @ [(fl, d)]) r ms"
  by (auto simp: fed_from_def fed_data_def)

lemma recv_at_same:
  "recv_at plog past n c \<Longrightarrow> same_recv c c' \<Longrightarrow> recv_at plog past n c'"
  by (simp add: recv_at_def same_recv_def)

lemma recv_at_buffer:
  "recv_at plog past n c \<Longrightarrow> (q, f) \<in> set (cc_recv_buffer c) \<Longrightarrow>
     n \<le> unat q \<and> unat q < length plog \<and> plog ! unat q = (f_flags f, f_data f)"
  by (simp add: recv_at_def)

lemma recv_at_append:
  "recv_at plog past n c \<Longrightarrow> recv_at (plog @ ext) past n c"
  by (fastforce simp: recv_at_def nth_append)

lemma seq_inv_rcv_next:
  "seq_inv log k c \<Longrightarrow> unat (cc_rcv_next c) \<le> unat x \<Longrightarrow> seq_inv log k (c\<lparr>cc_rcv_next := x\<rparr>)"
  by (auto simp: seq_inv_def outbox_ok_def intro: sent_ok_mono)

lemma shape_update [simp]:
  "shape chs log (c\<lparr>cc_rcv_next := x\<rparr>) = shape chs log c"
  "shape chs log (c\<lparr>cc_peer_closed := b\<rparr>) = shape chs log c"
  "shape chs log (c\<lparr>cc_reassembler := r\<rparr>) = shape chs log c"
  "shape chs log (c\<lparr>cc_delivered := ms\<rparr>) = shape chs log c"
  "shape chs log (c\<lparr>cc_recv_buffer := m\<rparr>) = shape chs log c"
  "shape chs log (c\<lparr>cc_peer_window := w\<rparr>) = shape chs log c"
  "shape chs log (c\<lparr>cc_retries := n\<rparr>) = shape chs log c"
  "shape chs log (c\<lparr>cc_unacked := u\<rparr>) = shape chs log c"
  "shape chs log (c\<lparr>cc_outbox := bs\<rparr>) = shape chs log c"
  "shape chs log (c\<lparr>cc_just_established := b\<rparr>) = shape chs log c"
  "shape chs log (c\<lparr>cc_closing := b\<rparr>) = shape chs log c"
  by (simp_all add: shape_def)

text \<open>A FIN may be added to the log of an established connection.\<close>

lemma send_inv_fin:
  assumes "send_inv chs log k c" "cc_state c = Established" "length chs + 4 < 2 ^ 64"
  shows "send_inv chs (log @ [(FLAG_FIN OR FLAG_ACK, [])]) k
    ((emit_next (FLAG_FIN OR FLAG_ACK) [] c)\<lparr>cc_state := FinSent\<rparr>)"
proof -
  from assms have "Suc (length log) < 2 ^ 64"
    using shape_length [of chs log c] by (simp add: send_inv_def)
  then have "seq_inv (log @ [(FLAG_FIN OR FLAG_ACK, [])]) k (emit_next (FLAG_FIN OR FLAG_ACK) [] c)"
    using assms by (intro seq_inv_emit_next) (simp_all add: send_inv_def)
  moreover obtain syns ds where "log_shape syns ds [] log" "ds @ cc_send_queue c = chs" "syns \<noteq> []"
    using assms(1,2) by (auto simp: send_inv_def shape_def)
  then have "shape chs (log @ [(FLAG_FIN OR FLAG_ACK, [])])
      ((emit_next (FLAG_FIN OR FLAG_ACK) [] c)\<lparr>cc_state := FinSent\<rparr>)"
    unfolding shape_def
    by (intro exI [of _ syns] exI [of _ ds] exI [of _ "[(FLAG_FIN OR FLAG_ACK, [])]"])
      (auto simp: log_shape_def)
  ultimately show ?thesis
    using assms(1) by (simp add: send_inv_def)
qed

definition open_state :: "channel_core \<Rightarrow> bool" where
  "open_state c \<longleftrightarrow> cc_state c = Established \<or> cc_state c = FinSent"

lemma consume_spec:
  assumes "send_inv chs log k c" "open_state c" "length chs + 4 < 2 ^ 64"
    "recv_at plog past n c" "plog ! n = (f_flags fr, f_data fr)" "n < length plog" "length plog < 2 ^ 64"
    "\<forall>f. (of_nat n, f) \<notin> set (cc_recv_buffer c)"
  shows "recv_at plog past (Suc n) (consume now fr c) \<and> open_state (consume now fr c) \<and>
    (\<exists>ext. send_inv chs (log @ ext) k (consume now fr c))"
proof -
  let ?c = "c\<lparr>cc_rcv_next := cc_rcv_next c + 1\<rparr>"
  have n: "unat (of_nat n :: u64) = n" "unat (of_nat (Suc n) :: u64) = Suc n" "cc_rcv_next c = of_nat n"
    using assms(4,6,7) by (simp_all add: unat_of_nat recv_at_def del: of_nat_Suc)
  have s: "send_inv chs log k ?c"
    using assms(1) seq_inv_rcv_next [of log k c "cc_rcv_next c + 1"] n by (simp add: send_inv_def add.commute)
  have tk: "take (Suc n) plog = take n plog @ [(f_flags fr, f_data fr)]"
    using assms(5,6) by (simp add: take_Suc_conv_app_nth)
  have buf: "Suc n \<le> unat q \<and> unat q < length plog \<and> plog ! unat q = (f_flags f, f_data f)"
    if "(q, f) \<in> set (cc_recv_buffer c)" for q f
  proof -
    have "n \<le> unat q" "unat q \<noteq> n"
      using that assms(4,8) by (auto simp: recv_at_def)
    then have "Suc n \<le> unat q" by simp
    with that assms(4) show ?thesis by (auto simp: recv_at_def)
  qed
  have fed: "fed_from (take n plog) (cc_reassembler c) (past @ cc_delivered c)"
    using assms(4) by (simp add: recv_at_def)
  have recv: "recv_at plog past (Suc n) c'" if "cc_rcv_next c' = cc_rcv_next c + 1"
    "cc_recv_buffer c' = cc_recv_buffer c"
    "fed_from (take (Suc n) plog) (cc_reassembler c') (past @ cc_delivered c')" for c'
    using that buf assms(4,6) n(3) by (simp add: recv_at_def add.commute)
  have su: "send_inv chs log k (?c\<lparr>cc_peer_closed := True\<rparr>)" using s by (simp add: send_inv_def)
  consider (fin) "has_flag FLAG_FIN (f_flags fr)" | (data) "\<not> has_flag FLAG_FIN (f_flags fr)" "f_data fr \<noteq> []"
    | (none) "\<not> has_flag FLAG_FIN (f_flags fr)" "f_data fr = []" by blast
  then show ?thesis
  proof cases
    case fin
    have skip: "fed_from (take (Suc n) plog) (cc_reassembler c) (past @ cc_delivered c)"
      unfolding tk using fed fin by (intro fed_from_skip) simp_all
    show ?thesis
    proof (cases "cc_state c = Established")
      case True
      then show ?thesis
        using fin skip send_inv_fin [OF su] assms(3) recv by (auto simp: consume_def Let_def open_state_def)
    next
      case False
      then have "consume now fr c = ?c\<lparr>cc_peer_closed := True\<rparr>"
        using fin by (simp add: consume_def Let_def)
      with assms(2) su skip recv show ?thesis
        by (auto simp: open_state_def intro!: exI [of _ "[]"])
    qed
  next
    case data
    obtain r out where f: "feed now (f_data fr) (cc_reassembler c) = (r, out)" by (metis surj_pair)
    have "consume now fr c = ?c\<lparr>cc_reassembler := r,
        cc_delivered := cc_delivered c @ (case out of None \<Rightarrow> [] | Some m \<Rightarrow> [m])\<rparr>"
      using data f by (cases out) (simp_all add: consume_def Let_def)
    then show ?thesis
      using fed_from_snoc [OF fed f data] s assms(2) recv
      by (auto simp: tk open_state_def send_inv_def intro!: exI [of _ "[]"])
  next
    case none
    then have "consume now fr c = ?c" by (simp add: consume_def)
    then show ?thesis
      using fed_from_skip [OF fed, of "f_flags fr" "f_data fr"] none s assms(2) recv
      by (auto simp: tk open_state_def intro!: exI [of _ "[]"])
  qed
qed

lemma drain_spec:
  assumes "send_inv chs log k c" "open_state c" "length chs + 4 < 2 ^ 64" "recv_at plog past n c"
    "length plog < 2 ^ 64"
  shows "\<exists>n' ext. n \<le> n' \<and> recv_at plog past n' (drain_buffer now c) \<and> open_state (drain_buffer now c) \<and>
    send_inv chs (log @ ext) k (drain_buffer now c)"
  using assms
proof (induction now c arbitrary: log n rule: drain_buffer.induct)
  case (1 now c)
  show ?case
  proof (cases "map_of (cc_recv_buffer c) (cc_rcv_next c)")
    case None
    then have "drain_buffer now c = c" by (simp add: drain_buffer.simps)
    then show ?thesis using 1(2,3,5) by (auto intro!: exI [of _ "[]"])
  next
    case (Some fr)
    define c1 where "c1 = c\<lparr>cc_recv_buffer := hm_remove (cc_rcv_next c) (cc_recv_buffer c)\<rparr>"
    have d: "drain_buffer now c = drain_buffer now (consume now fr c1)"
      using Some by (simp add: drain_buffer.simps [of now c] c1_def)
    have at: "recv_at plog past n c1" and sn: "send_inv chs log k c1" "open_state c1"
      using 1(2,3,5) by (auto simp: recv_at_def c1_def set_hm_remove send_inv_def open_state_def)
    have r: "cc_rcv_next c = of_nat n" using 1(5) by (simp add: recv_at_def)
    have "n \<le> length plog" using 1(5) by (simp add: recv_at_def)
    then have un: "unat (of_nat n :: u64) = n" using 1(6) by (simp add: unat_of_nat)
    have fr: "n < length plog" "plog ! n = (f_flags fr, f_data fr)"
      using recv_at_buffer [OF 1(5) map_of_SomeD [OF Some]] r un by simp_all
    have "\<forall>f. (of_nat n, f) \<notin> set (cc_recv_buffer c1)"
      by (simp add: c1_def set_hm_remove r)
    from consume_spec [OF sn 1(4) at fr(2,1) 1(6) this]
    obtain ext where st: "recv_at plog past (Suc n) (consume now fr c1)" "open_state (consume now fr c1)"
      "send_inv chs (log @ ext) k (consume now fr c1)" by blast
    from 1(1) [OF Some st(3) [unfolded c1_def] st(2) [unfolded c1_def] 1(4) st(1) [unfolded c1_def] 1(6)]
    show ?thesis
      unfolding d c1_def by (metis append_assoc Suc_leD)
  qed
qed

text \<open>What a frame from the peer says, and what the peer's log looks like.\<close>

definition frame_from :: "log \<Rightarrow> nat \<Rightarrow> channel_frame \<Rightarrow> bool" where
  "frame_from plog m f \<longleftrightarrow> \<not> has_flag FLAG_RST (f_flags f) \<and> unat (f_ack_num f) \<le> m \<and>
     (consumes_seq f \<longrightarrow> unat (f_seq f) < length plog \<and> plog ! unat (f_seq f) = (f_flags f, f_data f))"

definition syn_first :: "log \<Rightarrow> bool" where
  "syn_first plog \<longleftrightarrow> (\<forall>i < length plog. has_flag FLAG_SYN (fst (plog ! i)) \<longrightarrow> fed_data (take (Suc i) plog) = [])"

lemma log_shape_syn_first:
  assumes "log_shape syns ds fins log"
  shows "syn_first log"
proof -
  let ?rest = "map (Pair FLAG_ACK) ds @ fins"
  have log: "log = syns @ ?rest" and sy: "\<And>e. e \<in> set syns \<Longrightarrow> snd e = []"
    and rest: "\<And>e. e \<in> set ?rest \<Longrightarrow> \<not> has_flag FLAG_SYN (fst e)"
    using assms by (auto simp: log_shape_def)
  show ?thesis
    unfolding syn_first_def
  proof (intro allI impI)
    fix i assume i: "i < length log" "has_flag FLAG_SYN (fst (log ! i))"
    have "i < length syns"
    proof (rule ccontr)
      assume n: "\<not> i < length syns"
      then have "log ! i = ?rest ! (i - length syns)" by (simp only: log nth_append if_False)
      moreover have "i - length syns < length ?rest" using i(1) n unfolding log by simp
      ultimately show False using i(2) rest nth_mem by metis
    qed
    then have "set (take (Suc i) log) \<subseteq> set syns"
      by (auto simp: log dest: in_set_takeD)
    with sy show "fed_data (take (Suc i) log) = []"
      by (auto simp: fed_data_def filter_empty_conv)
  qed
qed

lemma deliver_spec:
  assumes "send_inv chs log k c" "open_state c" "length chs + 4 < 2 ^ 64" "recv_at plog past n c"
    "length plog < 2 ^ 64" "frame_from plog m f"
  shows "\<exists>n' ext. n \<le> n' \<and> recv_at plog past n' (deliver now f c) \<and> open_state (deliver now f c) \<and>
    send_inv chs (log @ ext) k (deliver now f c)"
proof -
  have pa: "recv_at plog past n' (emit_pure_ack d) \<and> open_state (emit_pure_ack d) \<and> send_inv chs l k (emit_pure_ack d)"
    if "recv_at plog past n' d" "open_state d" "send_inv chs l k d" for n' l d
    using that recv_at_same [of plog past n' d "emit_pure_ack d"]
    by (simp add: send_inv_def seq_inv_emit_pure_ack same_recv_def open_state_def shape_def)
  define c1 where "c1 = c\<lparr>cc_recv_buffer := hm_insert (f_seq f) f (cc_recv_buffer c)\<rparr>"
  have "deliver now f c = c \<or> deliver now f c = emit_pure_ack c \<or>
    (deliver now f c = emit_pure_ack (drain_buffer now c1) \<and> consumes_seq f \<and> \<not> f_seq f < cc_rcv_next c)"
    unfolding deliver_def c1_def by simp
  then consider "deliver now f c = c" | "deliver now f c = emit_pure_ack c"
    | "deliver now f c = emit_pure_ack (drain_buffer now c1)" "consumes_seq f" "\<not> f_seq f < cc_rcv_next c"
    by blast
  then show ?thesis
  proof cases
    case 1
    then show ?thesis using assms(1,2,4) by (auto intro!: exI [of _ "[]"])
  next
    case 2
    then show ?thesis using pa [OF assms(4,2,1)] by (auto intro!: exI [of _ "[]"])
  next
    case 3
    have "n \<le> length plog" "cc_rcv_next c = of_nat n" using assms(4) by (simp_all add: recv_at_def)
    then have "n \<le> unat (f_seq f)"
      using 3(3) assms(5) by (simp add: word_less_nat_alt unat_of_nat not_less)
    then have "recv_at plog past n c1"
      using assms(4,6) 3(2) by (auto simp: recv_at_def c1_def set_hm_insert frame_from_def)
    moreover have "send_inv chs log k c1" "open_state c1"
      using assms(1,2) by (simp_all add: c1_def send_inv_def open_state_def)
    ultimately obtain n' ext where "n \<le> n'" "recv_at plog past n' (drain_buffer now c1)"
      "open_state (drain_buffer now c1)" "send_inv chs (log @ ext) k (drain_buffer now c1)"
      using drain_spec assms(3,5) by blast
    with pa 3(1) show ?thesis by metis
  qed
qed

lemma ack_fields [simp]:
  "cc_state (ack a c) = cc_state c" "cc_send_queue (ack a c) = cc_send_queue c"
  "cc_rcv_next (ack a c) = cc_rcv_next c" "cc_recv_buffer (ack a c) = cc_recv_buffer c"
  "cc_reassembler (ack a c) = cc_reassembler c" "cc_delivered (ack a c) = cc_delivered c"
  "cc_dead (ack a c) = cc_dead c" "cc_outbox (ack a c) = cc_outbox c" "cc_send_next (ack a c) = cc_send_next c"
  "cc_window (ack a c) = cc_window c"
  by (simp_all add: ack_def Let_def)

lemma shape_ack [simp]: "shape chs log (ack a c) = shape chs log c"
  by (simp add: shape_def)

text \<open>The core after a handshake frame, with \<open>ext\<close> the reply that is logged.\<close>

lemma recv_establish:
  assumes "recv_inv plog past c" "cc_state c = Closed \<or> cc_state c = SynSent" "frame_from plog m f"
    "has_flag FLAG_SYN (f_flags f)" "syn_first plog" "length plog < 2 ^ 64"
  shows "recv_at plog past (Suc (unat (f_seq f))) (establish f c)"
    "unat (cc_rcv_next c) \<le> unat (cc_rcv_next (establish f c))"
proof -
  let ?i = "unat (f_seq f)"
  from assms obtain at: "recv_at plog past 0 c" and buf: "cc_recv_buffer c = []"
    by (auto simp: recv_inv_def)
  have i: "?i < length plog" "plog ! ?i = (f_flags f, f_data f)"
    using assms(3,4) by (auto simp: frame_from_def consumes_seq_def)
  then have "fed_data (take (Suc ?i) plog) = []"
    using assms(4,5) by (simp add: syn_first_def)
  then have "fed_from (take (Suc ?i) plog) (cc_reassembler c) (past @ cc_delivered c)"
    using at by (simp add: recv_at_def fed_from_empty fed_data_def)
  moreover have "f_seq f + 1 = of_nat (Suc ?i)"
    by (simp add: add.commute)
  ultimately show "recv_at plog past (Suc ?i) (establish f c)"
    using i buf by (simp add: recv_at_def establish_def)
  show "unat (cc_rcv_next c) \<le> unat (cc_rcv_next (establish f c))"
    using at by (simp add: recv_at_def)
qed

lemma send_establish:
  assumes "send_inv chs log k c" "unat (cc_rcv_next c) \<le> unat (cc_rcv_next (establish f c))"
  shows "cc_state c = SynSent \<Longrightarrow> send_inv chs log k (establish f c)"
    and "cc_state c = Closed \<or> cc_state c = SynSent \<Longrightarrow>
      send_inv chs (log @ [(FLAG_SYN OR FLAG_ACK, [])]) k (emit_next (FLAG_SYN OR FLAG_ACK) [] (establish f c))"
proof -
  have seq: "seq_inv log k (establish f c)"
    using assms seq_inv_rcv_next [of log k c "f_seq f + 1"] by (simp add: send_inv_def establish_def)
  have sh: "(cc_state c = Closed \<longrightarrow> log = []) \<and> (cc_state c = SynSent \<longrightarrow> log = [(FLAG_SYN, [])])"
    "shape chs log c" "\<not> cc_dead c"
    using assms(1) by (auto simp: send_inv_def shape_def)
  have q: "cc_send_queue c = chs" if "cc_state c = Closed \<or> cc_state c = SynSent"
    using that sh by (auto simp: shape_def log_shape_def append_eq_Cons_conv)
  show "send_inv chs log k (establish f c)" if "cc_state c = SynSent"
    using that sh q seq unfolding send_inv_def shape_def
    by (auto simp: establish_def log_shape_def intro!: exI [of _ "[(FLAG_SYN, [])]"] exI [of _ "[]"])
  show "send_inv chs (log @ [(FLAG_SYN OR FLAG_ACK, [])]) k (emit_next (FLAG_SYN OR FLAG_ACK) [] (establish f c))"
    if st: "cc_state c = Closed \<or> cc_state c = SynSent"
  proof -
    have "length log \<le> 1" using st sh by auto
    then have "seq_inv (log @ [(FLAG_SYN OR FLAG_ACK, [])]) k (emit_next (FLAG_SYN OR FLAG_ACK) [] (establish f c))"
      using seq by (intro seq_inv_emit_next) simp_all
    moreover have "shape chs (log @ [(FLAG_SYN OR FLAG_ACK, [])]) (emit_next (FLAG_SYN OR FLAG_ACK) [] (establish f c))"
      using st sh q unfolding shape_def
      by (intro exI [of _ "log @ [(FLAG_SYN OR FLAG_ACK, [])]"] exI [of _ "[]"])
        (auto simp: establish_def log_shape_def)
    ultimately show ?thesis using sh by (simp add: send_inv_def establish_def)
  qed
qed

lemma recv_inv_open: "recv_at plog past n c \<Longrightarrow> open_state c \<Longrightarrow> recv_inv plog past c"
  by (auto simp: recv_inv_def open_state_def)

definition rcv_le :: "channel_core \<Rightarrow> channel_core \<Rightarrow> bool" where
  "rcv_le c c' \<longleftrightarrow> unat (cc_rcv_next c) \<le> unat (cc_rcv_next c')"

lemma same_recv_le: "same_recv c c' \<Longrightarrow> rcv_le c c'"
  by (simp add: same_recv_def rcv_le_def)

lemma rcv_le_trans: "rcv_le a b \<Longrightarrow> rcv_le b c \<Longrightarrow> rcv_le a c"
  by (simp add: rcv_le_def)

lemma recv_at_le:
  "recv_at plog past n c \<Longrightarrow> recv_at plog past' n' c' \<Longrightarrow> n \<le> n' \<Longrightarrow> length plog < 2 ^ 64 \<Longrightarrow> rcv_le c c'"
  by (simp add: recv_at_def rcv_le_def unat_of_nat)

lemma pump_open:
  assumes "send_inv chs log k c" "length chs + 4 < 2 ^ 64" "recv_at plog past n c" "open_state c"
  obtains ext where "send_inv chs (log @ ext) k (pump c)" "recv_inv plog past (pump c)" "rcv_le c (pump c)"
proof -
  obtain ext where p: "send_inv chs (log @ ext) k (pump c)" "same_recv c (pump c)"
    "cc_state (pump c) = cc_state c \<or> (cc_state c = Established \<and> cc_state (pump c) = FinSent)"
    using pump_spec [OF assms(1,2)] by blast
  have "open_state (pump c)" using p(3) assms(4) by (auto simp: open_state_def)
  then show thesis
    using that [OF p(1)] recv_inv_open [OF recv_at_same [OF assms(3) p(2)]] same_recv_le [OF p(2)] by blast
qed

lemma on_frame_spec:
  assumes "send_inv chs log k c" "recv_inv plog past c" "length chs + 4 < 2 ^ 64" "length plog < 2 ^ 64"
    "syn_first plog" "frame_from plog m f"
  obtains ext k' where "send_inv chs (log @ ext) k' (on_frame now f c)" "recv_inv plog past (on_frame now f c)"
    "rcv_le c (on_frame now f c)" "k \<le> k'" "k' \<le> max k m"
proof -
  define c1 where "c1 = (ack (f_ack_num f) c)\<lparr>cc_peer_window := f_window f\<rparr>"
  have "length log < 2 ^ 64"
    using assms(1,3) shape_length [of chs log c] by (simp add: send_inv_def)
  then obtain k' where k': "seq_inv log k' (ack (f_ack_num f) c)" "k \<le> k'" "k' \<le> max k (unat (f_ack_num f))"
    using assms(1) seq_inv_ack [of log k c] by (auto simp: send_inv_def)
  have s1: "send_inv chs log k' c1"
    using assms(1) k'(1) by (simp add: send_inv_def c1_def)
  have r1: "recv_inv plog past c1" and st: "cc_state c1 = cc_state c"
    using assms(2) by (simp_all add: recv_inv_def recv_at_def c1_def)
  have km: "k' \<le> max k m" and rst: "\<not> has_flag FLAG_RST (f_flags f)"
    using k'(3) assms(6) by (auto simp: frame_from_def)
  have fr: "on_frame now f c = (case cc_state c1 of
        Closed \<Rightarrow> if has_flag FLAG_SYN (f_flags f) then emit_next (FLAG_SYN OR FLAG_ACK) [] (establish f c1) else c1
      | SynSent \<Rightarrow> if has_flag FLAG_SYN (f_flags f) \<and> has_flag FLAG_ACK (f_flags f)
          then pump (emit_pure_ack (establish f c1))
          else if has_flag FLAG_SYN (f_flags f) then emit_next (FLAG_SYN OR FLAG_ACK) [] (establish f c1) else c1
      | Established \<Rightarrow> pump (deliver now f c1) | FinSent \<Rightarrow> pump (deliver now f c1))"
    using rst by (simp only: on_frame_def Let_def c1_def [symmetric] if_False)
  have "\<exists>ext. send_inv chs (log @ ext) k' (on_frame now f c) \<and> recv_inv plog past (on_frame now f c) \<and>
    rcv_le c1 (on_frame now f c)"
  proof (cases "open_state c1")
    case True
    then obtain n where n: "recv_at plog past n c1" using r1 by (auto simp: recv_inv_def)
    then obtain n' ext where n': "n \<le> n'" and d: "recv_at plog past n' (deliver now f c1)" "open_state (deliver now f c1)"
      "send_inv chs (log @ ext) k' (deliver now f c1)"
      using deliver_spec [OF s1 True assms(3) _ assms(4,6)] by blast
    obtain ext' where "send_inv chs ((log @ ext) @ ext') k' (pump (deliver now f c1))"
      "recv_inv plog past (pump (deliver now f c1))" "rcv_le (deliver now f c1) (pump (deliver now f c1))"
      using pump_open [OF d(3) assms(3) d(1,2)] by blast
    with True recv_at_le [OF n d(1) n' assms(4)] show ?thesis
      by (auto simp: fr open_state_def intro: rcv_le_trans)
  next
    case False
    then have st': "cc_state c1 = Closed \<or> cc_state c1 = SynSent"
      by (cases "cc_state c1") (auto simp: open_state_def)
    show ?thesis
    proof (cases "has_flag FLAG_SYN (f_flags f)")
      case nosyn: False
      then have "on_frame now f c = c1" using st' by (auto simp: fr)
      with s1 r1 show ?thesis by (auto simp: rcv_le_def intro!: exI [of _ "[]"])
    next
      case syn: True
      note re = recv_establish [OF r1 st' assms(6) syn assms(5,4)]
      note se = send_establish [OF s1 re(2)]
      show ?thesis
      proof (cases "cc_state c1 = SynSent \<and> has_flag FLAG_ACK (f_flags f)")
        case True
        let ?e = "emit_pure_ack (establish f c1)"
        have "send_inv chs log k' ?e" "recv_at plog past (Suc (unat (f_seq f))) ?e" "open_state ?e"
          using se(1) True re(1)
          by (auto simp: send_inv_def seq_inv_emit_pure_ack shape_def recv_at_def open_state_def establish_def)
        then obtain ext where "send_inv chs (log @ ext) k' (pump ?e)" "recv_inv plog past (pump ?e)" "rcv_le ?e (pump ?e)"
          using pump_open [of chs log k' ?e] assms(3) by metis
        moreover have "on_frame now f c = pump ?e" using True syn by (simp add: fr)
        moreover have "rcv_le c1 ?e" using re(2) by (simp add: rcv_le_def)
        ultimately show ?thesis
          using rcv_le_trans by metis
      next
        case False
        let ?e = "emit_next (FLAG_SYN OR FLAG_ACK) [] (establish f c1)"
        have "on_frame now f c = ?e" using st' syn False by (auto simp: fr)
        moreover have "recv_at plog past (Suc (unat (f_seq f))) ?e" "open_state ?e"
          using re(1) by (auto simp: recv_at_def open_state_def establish_def)
        ultimately show ?thesis
          using se(2) [OF st'] recv_inv_open re(2) by (auto simp: rcv_le_def)
      qed
    qed
  qed
  moreover have "rcv_le c c1" by (simp add: c1_def rcv_le_def)
  ultimately show thesis using that k'(2) km rcv_le_trans by metis
qed

subsection \<open>The local operations\<close>

lemma recv_inv_same:
  "recv_inv plog past c \<Longrightarrow> same_recv c c' \<Longrightarrow> cc_state c' = cc_state c \<or> open_state c' \<or> (cc_state c = Closed \<and> cc_state c' = SynSent) \<Longrightarrow>
     recv_inv plog past c'"
  by (auto simp: recv_inv_def recv_at_def same_recv_def open_state_def)

lemma connect_spec:
  assumes "send_inv chs log k c" "recv_inv plog past c"
  obtains ext where "send_inv chs (log @ ext) k (connect c)" "recv_inv plog past (connect c)" "rcv_le c (connect c)"
proof (cases "cc_state c = Closed")
  case False
  then show thesis using that [of "[]"] assms by (simp add: connect_def rcv_le_def)
next
  case True
  then have log: "log = []" and q: "cc_send_queue c = chs" and seq: "seq_inv log k c" "\<not> cc_dead c"
    using assms(1) by (auto simp: send_inv_def shape_def log_shape_def)
  have "seq_inv (log @ [(FLAG_SYN, [])]) k (connect c)"
    unfolding connect_def using True seq log by (simp only: refl if_False not_True_eq_False)
      (intro seq_inv_emit_next, simp_all)
  moreover have "shape chs (log @ [(FLAG_SYN, [])]) (connect c)"
    using True q log unfolding shape_def
    by (intro exI [of _ "[(FLAG_SYN, [])]"] exI [of _ "[]"]) (simp add: connect_def log_shape_def)
  ultimately show thesis
    using that [of "[(FLAG_SYN, [])]"] True seq(2) recv_inv_same [OF assms(2), of "connect c"]
    by (simp add: send_inv_def connect_def same_recv_def rcv_le_def)
qed

lemma pump_any:
  assumes "send_inv chs log k c" "recv_inv plog past c" "length chs + 4 < 2 ^ 64"
  obtains ext where "send_inv chs (log @ ext) k (pump c)" "recv_inv plog past (pump c)" "rcv_le c (pump c)"
proof -
  obtain ext where "send_inv chs (log @ ext) k (pump c)" "same_recv c (pump c)"
    "cc_state (pump c) = cc_state c \<or> (cc_state c = Established \<and> cc_state (pump c) = FinSent)"
    using pump_spec [OF assms(1,3)] by blast
  then show thesis
    using that [of ext] recv_inv_same [OF assms(2), of "pump c"] same_recv_le by (auto simp: open_state_def)
qed

lemma send_message_spec:
  assumes "send_inv chs log k c" "recv_inv plog past c" "fragment msg MAX_CHUNK_PAYLOAD fid = Some pkts"
    "length (chs @ pkts) + 4 < 2 ^ 64" "send_message fid msg c = Some c'"
  obtains ext where "send_inv (chs @ pkts) (log @ ext) k c'" "recv_inv plog past c'" "rcv_le c c'"
proof -
  have a: "send_inv (chs @ pkts) log k (c\<lparr>cc_send_queue := cc_send_queue c @ pkts\<rparr>)"
    using assms(1) by (fastforce simp: send_inv_def shape_def)
  have b: "recv_inv plog past (c\<lparr>cc_send_queue := cc_send_queue c @ pkts\<rparr>)"
    using assms(2) by (simp add: recv_inv_def recv_at_def)
  show thesis
    by (rule pump_any [OF a b assms(4)]) (use that assms(3,5) in \<open>auto simp: send_message_def rcv_le_def\<close>)
qed

lemma close_spec:
  assumes "send_inv chs log k c" "recv_inv plog past c" "length chs + 4 < 2 ^ 64"
  obtains ext where "send_inv chs (log @ ext) k (close c)" "recv_inv plog past (close c)" "rcv_le c (close c)"
proof -
  have a: "send_inv chs log k (c\<lparr>cc_closing := True\<rparr>)" and b: "recv_inv plog past (c\<lparr>cc_closing := True\<rparr>)"
    using assms(1,2) by (simp_all add: send_inv_def recv_inv_def recv_at_def)
  show thesis
    by (rule pump_any [OF a b assms(3)]) (use that in \<open>auto simp: close_def rcv_le_def\<close>)
qed

lemma fold_emit_fields:
  fixes us :: "unacked list"
  defines "e \<equiv> fold (\<lambda>u. emit (u_flags u) (u_seq u) (u_data u))"
  shows "cc_state (e us c) = cc_state c" "cc_send_next (e us c) = cc_send_next c"
    "cc_unacked (e us c) = cc_unacked c" "cc_send_queue (e us c) = cc_send_queue c"
    "same_recv c (e us c)" "cc_dead (e us c) = cc_dead c" "cc_window (e us c) = cc_window c"
    "cc_outbox (e us c) = cc_outbox c @ map (\<lambda>u. frame_serialize \<lparr>f_flags = u_flags u,
       f_ack_num = cc_rcv_next c, f_window = cc_window c, f_seq = u_seq u, f_data = u_data u\<rparr>) us"
  unfolding e_def by (induction us arbitrary: c) (simp_all add: same_recv_def)

lemma retransmit_ok:
  assumes "seq_inv log k c" "length log < 2 ^ 64" "u \<in> set (cc_unacked c)"
  shows "sent_ok log (unat a) (frame_serialize \<lparr>f_flags = u_flags u, f_ack_num = a, f_window = w,
    f_seq = u_seq u, f_data = u_data u\<rparr>)"
proof -
  obtain i where i: "i < length log" "u = log_entry log i"
    using assms(1,3) by (auto simp: seq_inv_def)
  then have "unat (of_nat i :: u64) = i" using assms(2) by (simp add: unat_of_nat)
  moreover have "\<forall>e \<in> set log. fst e AND RESERVED_MASK = 0 \<and> \<not> has_flag FLAG_RST (fst e)"
    using assms(1) by (auto simp: seq_inv_def)
  then have "fst (log ! i) AND RESERVED_MASK = 0 \<and> \<not> has_flag FLAG_RST (fst (log ! i))"
    using nth_mem [OF i(1)] by blast
  ultimately show ?thesis
    using i by (intro sent_okI) (simp_all add: wf_frame_def log_entry_def)
qed

lemma on_timeout_spec:
  assumes "send_inv chs log k c" "recv_inv plog past c" "length chs + 4 < 2 ^ 64"
  shows "(send_inv chs log k (on_timeout c) \<and> recv_inv plog past (on_timeout c) \<and> rcv_le c (on_timeout c)) \<or> on_timeout c = teardown c"
proof -
  let ?c = "c\<lparr>cc_retries := cc_retries c + 1\<rparr>"
  let ?e = "fold (\<lambda>u. emit (u_flags u) (u_seq u) (u_data u)) (cc_unacked c) ?c"
  have len: "length log < 2 ^ 64"
    using assms(1,3) shape_length [of chs log c] by (simp add: send_inv_def)
  note f = fold_emit_fields [where us = "cc_unacked c" and c = ?c]
  have "seq_inv log k ?e"
    using assms(1) retransmit_ok [of log k c _ "cc_rcv_next c"] len f
    by (auto simp: send_inv_def seq_inv_def outbox_ok_def same_recv_def)
  then have "send_inv chs log k ?e" "recv_inv plog past ?e" "rcv_le c ?e"
    using assms(1,2) f recv_inv_same [OF assms(2), of ?e]
    by (simp_all add: send_inv_def shape_def same_recv_def rcv_le_def)
  with assms(1,2) show ?thesis
    by (simp add: on_timeout_def rcv_le_def)
qed

section \<open>The system invariant\<close>

text \<open>One side: \<open>log\<close> its own log with \<open>k\<close> entries acknowledged, \<open>plog\<close> the log of the peer of which it
  consumed \<open>m\<close> entries.\<close>

definition side_inv :: "log \<Rightarrow> nat \<Rightarrow> nat \<Rightarrow> log \<Rightarrow> side \<Rightarrow> bool" where
  "side_inv log k m plog s \<longleftrightarrow>
     m \<le> length plog \<and> (\<forall>b \<in> set (sd_sent s). sent_ok log m b) \<and>
     (case sd_task s of
        Some t \<Rightarrow> m = unat (cc_rcv_next (ct_core t)) \<and> send_inv (chunks_of MAX_CHUNK_PAYLOAD (sd_msgs s)) log k (ct_core t) \<and>
          cc_outbox (ct_core t) = [] \<and> cc_delivered (ct_core t) = [] \<and>
          (\<exists>past. recv_inv plog past (ct_core t) \<and>
             (if ct_deliver_open t then sd_got s = past else prefix (sd_got s) past))
      | None \<Rightarrow> (\<exists>syns ds fins. log_shape syns ds fins log \<and> prefix ds (chunks_of MAX_CHUNK_PAYLOAD (sd_msgs s))) \<and>
          (\<exists>n r past. fed_from (take n plog) r past \<and> prefix (sd_got s) past))"

definition net_inv :: "side \<times> side \<Rightarrow> bool" where
  "net_inv = (\<lambda>(a, b). \<exists>la lb ka kb ma mb. side_inv la ka ma lb a \<and> side_inv lb kb mb la b \<and> ka \<le> mb \<and> kb \<le> ma)"

text \<open>The number of chunks of a side's messages stays below the sequence space.\<close>

definition small :: "side \<Rightarrow> bool" where
  "small s \<longleftrightarrow> length (chunks_of MAX_CHUNK_PAYLOAD (sd_msgs s)) + 4 < 2 ^ 64"

lemma side_inv_shape:
  assumes "side_inv log k m plog s"
  obtains syns ds fins where "log_shape syns ds fins log" "prefix ds (chunks_of MAX_CHUNK_PAYLOAD (sd_msgs s))"
proof (cases "sd_task s")
  case None
  then show thesis using assms that by (auto simp: side_inv_def)
next
  case (Some t)
  then obtain syns ds fins where "log_shape syns ds fins log" "ds @ cc_send_queue (ct_core t) = chunks_of MAX_CHUNK_PAYLOAD (sd_msgs s)"
    using assms by (auto simp: side_inv_def send_inv_def shape_def)
  then show thesis using that by (metis prefixI)
qed

lemma side_inv_length: "side_inv log k m plog s \<Longrightarrow> small s \<Longrightarrow> length log < 2 ^ 64"
proof -
  assume "side_inv log k m plog s" "small s"
  then obtain syns ds fins where "log_shape syns ds fins log" "prefix ds (chunks_of MAX_CHUNK_PAYLOAD (sd_msgs s))"
    using side_inv_shape by blast
  with \<open>small s\<close> show ?thesis
    using log_shape_length [of syns ds fins log] prefix_length_le [of ds] by (fastforce simp: small_def)
qed

lemma side_inv_grow:
  "side_inv log k m plog s \<Longrightarrow> side_inv log k m (plog @ ext) s"
proof -
  assume a: "side_inv log k m plog s"
  have r: "recv_inv plog past c \<Longrightarrow> recv_inv (plog @ ext) past c" for past c
    by (auto simp: recv_inv_def intro: recv_at_append)
  have f: "\<exists>n r past. fed_from (take n (plog @ ext)) r past \<and> prefix g past"
    if "\<exists>n r past. fed_from (take n plog) r past \<and> prefix g past" for g
  proof -
    from that obtain n r past where n: "fed_from (take n plog) r past" "prefix g past" by blast
    have "take n plog = take (min n (length plog)) (plog @ ext)"
      by (cases "n \<le> length plog") (simp_all add: min_def)
    with n show ?thesis by metis
  qed
  show ?thesis
  proof (cases "sd_task s")
    case None
    with a f [of "sd_got s"] show ?thesis by (auto simp: side_inv_def simp del: take_append)
  next
    case (Some t)
    with a r show ?thesis by (fastforce simp: side_inv_def)
  qed
qed

text \<open>What an event makes of the core, before the flush.\<close>

definition core_after :: "bytes list \<Rightarrow> log \<Rightarrow> nat \<Rightarrow> nat \<Rightarrow> log \<Rightarrow> bytes list \<Rightarrow> channel_core \<Rightarrow> channel_core \<Rightarrow> bool" where
  "core_after chs log k m plog past c c' \<longleftrightarrow> c' = teardown c \<or>
     (\<exists>ext k'. send_inv chs (log @ ext) k' c' \<and> recv_inv plog past c' \<and> rcv_le c c' \<and> k \<le> k' \<and> k' \<le> max k m)"

lemma core_afterI:
  "send_inv chs (log @ ext) k c' \<Longrightarrow> recv_inv plog past c' \<Longrightarrow> rcv_le c c' \<Longrightarrow> core_after chs log k m plog past c c'"
  unfolding core_after_def by (metis le_refl max.cobounded1)

lemma event_chunks [simp]:
  "chunks_of MAX_CHUNK_PAYLOAD (event_msgs (Cmd Connect)) = []" "chunks_of MAX_CHUNK_PAYLOAD (event_msgs (Cmd CloseCmd)) = []"
  "chunks_of MAX_CHUNK_PAYLOAD (event_msgs (FrameIn f)) = []" "chunks_of MAX_CHUNK_PAYLOAD (event_msgs Timer) = []"
  "chunks_of MAX_CHUNK_PAYLOAD (event_msgs (Cmd (Send fid m))) = the (fragment m MAX_CHUNK_PAYLOAD fid)"
  by (simp_all add: event_msgs_def)

lemma conn_step_core:
  assumes "send_inv chs log k (ct_core t)" "recv_inv plog past (ct_core t)"
    "length (chs @ chunks_of MAX_CHUNK_PAYLOAD (event_msgs ev)) + 4 < 2 ^ 64" "length plog < 2 ^ 64" "syn_first plog"
    "\<And>f. ev = FrameIn f \<Longrightarrow> frame_from plog m f"
  shows "conn_step rx now ev t = ConnPanic \<or> conn_step rx now ev t = ConnExit no_effects \<or>
    (\<exists>t' resp. conn_step rx now ev t = conn_flush rx now resp t' \<and> ct_deliver_open t' = ct_deliver_open t \<and>
       core_after (chs @ chunks_of MAX_CHUNK_PAYLOAD (event_msgs ev)) log k m plog past (ct_core t) (ct_core t'))"
proof -
  have len: "length chs + 4 < 2 ^ 64" using assms(3) by simp
  have A: ?thesis if "conn_step rx now ev t = conn_flush rx now resp t'" "ct_deliver_open t' = ct_deliver_open t"
     "core_after (chs @ chunks_of MAX_CHUNK_PAYLOAD (event_msgs ev)) log k m plog past (ct_core t) (ct_core t')" for resp t'
    using that by blast
  show ?thesis
  proof (cases ev)
    case (Cmd cmd)
    show ?thesis
    proof (cases cmd)
      case Connect
      show ?thesis
      proof (cases "cc_state (ct_core t) = Established")
        case True
        then show ?thesis
          using A [of True t] core_afterI [of chs log "[]" k "ct_core t" plog past "ct_core t"] assms(1,2)
          by (simp add: conn_step_def Cmd Connect rcv_le_def)
      next
        case False
        obtain ext where "send_inv chs (log @ ext) k (connect (ct_core t))"
          "recv_inv plog past (connect (ct_core t))" "rcv_le (ct_core t) (connect (ct_core t))"
          using connect_spec [OF assms(1,2)] by blast
        then show ?thesis
          using A [of False "t\<lparr>ct_pending_connect := True, ct_core := connect (ct_core t)\<rparr>"] core_afterI False
          by (simp add: conn_step_def Cmd Connect)
      qed
    next
      case (Send fid msg)
      show ?thesis
      proof (cases "fragment msg MAX_CHUNK_PAYLOAD fid")
        case None
        then show ?thesis by (simp add: conn_step_def Cmd Send send_message_def)
      next
        case (Some pkts)
        obtain c' where c': "send_message fid msg (ct_core t) = Some c'"
          using Some by (simp add: send_message_def)
        obtain ext where "send_inv (chs @ pkts) (log @ ext) k c'" "recv_inv plog past c'" "rcv_le (ct_core t) c'"
          using send_message_spec [OF assms(1,2) Some _ c'] assms(3) by (auto simp: Cmd Send Some)
        then show ?thesis
          using A [of False "t\<lparr>ct_core := c'\<rparr>"] core_afterI c' by (simp add: conn_step_def Cmd Send Some)
      qed
    next
      case CloseCmd
      obtain ext where "send_inv chs (log @ ext) k (close (ct_core t))"
        "recv_inv plog past (close (ct_core t))" "rcv_le (ct_core t) (close (ct_core t))"
        using close_spec [OF assms(1,2) len] by blast
      then show ?thesis
        using A [of False "t\<lparr>ct_core := close (ct_core t)\<rparr>"] core_afterI by (simp add: conn_step_def Cmd CloseCmd)
    qed
  next
    case (FrameIn f)
    obtain ext k' where "send_inv chs (log @ ext) k' (on_frame now f (ct_core t))"
      "recv_inv plog past (on_frame now f (ct_core t))" "rcv_le (ct_core t) (on_frame now f (ct_core t))" "k \<le> k'" "k' \<le> max k m"
      using on_frame_spec [OF assms(1,2) len assms(4,5) assms(6) [OF FrameIn]] by blast
    then show ?thesis
      using A [of False "t\<lparr>ct_core := on_frame now f (ct_core t)\<rparr>"] unfolding core_after_def
      by (simp add: conn_step_def FrameIn) metis
  next
    case Timer
    have "core_after chs log k m plog past (ct_core t) (on_timeout (ct_core t))"
      using on_timeout_spec [OF assms(1,2) len]
    proof (elim disjE conjE)
      assume "send_inv chs log k (on_timeout (ct_core t))" "recv_inv plog past (on_timeout (ct_core t))"
        "rcv_le (ct_core t) (on_timeout (ct_core t))"
      then show ?thesis by (intro core_afterI [of _ _ "[]"]) simp_all
    qed (simp add: core_after_def)
    then show ?thesis
      using A [of False "t\<lparr>ct_core := on_timeout (ct_core t), ct_deadline := None\<rparr>"] by (simp add: conn_step_def Timer)
  qed (simp_all add: conn_step_def)
qed

lemma conn_flush_dead:
  assumes "cc_dead (ct_core t)" "cc_outbox (ct_core t) = []" "cc_delivered (ct_core t) = []"
  obtains e where "conn_flush rx now resp t = ConnExit e" "ce_sent e = []" "ce_delivered e = []"
  using assms that by (simp add: conn_flush_def Let_def)

lemma conn_flush_live:
  assumes "\<not> cc_dead (ct_core t)"
  obtains t' e where "conn_flush rx now resp t = ConnContinue t' e"
    "ct_core t' = (ct_core t)\<lparr>cc_outbox := [], cc_delivered := [], cc_just_established := False\<rparr>"
    "ce_sent e = cc_outbox (ct_core t)"
    "ce_delivered e = (if ct_deliver_open t \<and> rx then cc_delivered (ct_core t) else [])"
    "ct_deliver_open t' \<longrightarrow> ct_deliver_open t \<and> (rx \<or> cc_delivered (ct_core t) = [])"
  using assms that by (simp add: conn_flush_def Let_def)

lemma send_inv_flush:
  "send_inv chs log k c \<Longrightarrow>
     send_inv chs log k (c\<lparr>cc_outbox := [], cc_delivered := [], cc_just_established := False\<rparr>)"
  by (simp add: send_inv_def seq_inv_def outbox_ok_def shape_def)

lemma recv_inv_flush:
  "recv_inv plog past c \<Longrightarrow>
     recv_inv plog (past @ cc_delivered c) (c\<lparr>cc_outbox := [], cc_delivered := [], cc_just_established := False\<rparr>)"
  by (simp add: recv_inv_def recv_at_def)

lemma side_inv_stop:
  assumes "side_inv log k m plog s" "sd_sent s' = sd_sent s" "sd_got s' = sd_got s"
    "prefix (sd_msgs s) (sd_msgs s')" "sd_task s' = None"
  shows "side_inv log k m plog s'"
proof -
  obtain syns ds fins where sh: "log_shape syns ds fins log" "prefix ds (chunks_of MAX_CHUNK_PAYLOAD (sd_msgs s))"
    by (rule side_inv_shape [OF assms(1)])
  moreover have "prefix (chunks_of MAX_CHUNK_PAYLOAD (sd_msgs s)) (chunks_of MAX_CHUNK_PAYLOAD (sd_msgs s'))"
    using assms(4) by (auto simp: prefix_def)
  ultimately have "\<exists>syns ds fins. log_shape syns ds fins log \<and> prefix ds (chunks_of MAX_CHUNK_PAYLOAD (sd_msgs s'))"
    using prefix_order.trans by blast
  moreover have "\<exists>n r past. fed_from (take n plog) r past \<and> prefix (sd_got s) past"
  proof (cases "sd_task s")
    case (Some t)
    then obtain past n where "recv_at plog past n (ct_core t)" "prefix (sd_got s) past"
      "cc_delivered (ct_core t) = []"
      using assms(1) by (auto simp: side_inv_def recv_inv_def split: if_splits)
    then show ?thesis by (auto simp: recv_at_def)
  qed (use assms(1) in \<open>simp add: side_inv_def\<close>)
  moreover have "m \<le> length plog \<and> (\<forall>b \<in> set (sd_sent s). sent_ok log m b)"
    using assms(1) by (simp add: side_inv_def)
  ultimately show ?thesis
    by (simp add: side_inv_def assms(2,3,5))
qed

lemma frame_from_sent:
  assumes "\<forall>b \<in> set (sd_sent peer). sent_ok plog m b" "enabled peer now (FrameIn f) t"
  shows "frame_from plog m f"
  using assms sent_ok_parse by (fastforce simp: enabled_def frame_from_def)

lemma side_step:
  assumes inv: "side_inv log k m plog s" "sd_task s = Some t"
    and en: "enabled peer now ev t" "\<forall>b \<in> set (sd_sent peer). sent_ok plog mp b" "k \<le> mp"
    and plog: "length plog < 2 ^ 64" "syn_first plog"
    and s': "s' = apply_result ev (conn_step rx now ev t) s" "small s'"
  shows "\<exists>ext k' m'. side_inv (log @ ext) k' m' plog s' \<and> m \<le> m' \<and> k' \<le> mp"
proof -
  have stop: ?thesis if "sd_sent s' = sd_sent s" "sd_got s' = sd_got s" "prefix (sd_msgs s) (sd_msgs s')" "sd_task s' = None"
    using side_inv_stop [OF inv(1) that] en(3) by (intro exI [of _ "[]"] exI [of _ k] exI [of _ m]) simp
  show ?thesis
  proof (cases "conn_step rx now ev t = ConnPanic")
    case True
    then show ?thesis using s'(1) by (intro stop) simp_all
  next
    case False
    from inv obtain past where c: "send_inv (chunks_of MAX_CHUNK_PAYLOAD (sd_msgs s)) log k (ct_core t)"
        "recv_inv plog past (ct_core t)" "m = unat (cc_rcv_next (ct_core t))"
        "cc_outbox (ct_core t) = []" "cc_delivered (ct_core t) = []"
        "if ct_deliver_open t then sd_got s = past else prefix (sd_got s) past"
      by (auto simp: side_inv_def)
    let ?chs = "chunks_of MAX_CHUNK_PAYLOAD (sd_msgs s) @ chunks_of MAX_CHUNK_PAYLOAD (event_msgs ev)"
    have msgs: "sd_msgs s' = sd_msgs s @ event_msgs ev"
      using s'(1) False by (cases "conn_step rx now ev t") auto
    then have len: "length ?chs + 4 < 2 ^ 64"
      using s'(2) by (simp add: small_def)
    have from_peer: "ev = FrameIn f \<Longrightarrow> frame_from plog mp f" for f
      using frame_from_sent en(1,2) by blast
    consider (exit) "conn_step rx now ev t = ConnExit no_effects"
      | (flush) t' resp where "conn_step rx now ev t = conn_flush rx now resp t'"
        "ct_deliver_open t' = ct_deliver_open t" "core_after ?chs log k mp plog past (ct_core t) (ct_core t')"
      using conn_step_core [OF c(1,2) len plog from_peer] False by blast
    then show ?thesis
    proof cases
      case exit
      then show ?thesis using s'(1) msgs by (intro stop) (simp_all add: no_effects_def)
    next
      case flush
      show ?thesis
      proof (cases "ct_core t' = teardown (ct_core t)")
        case True
        obtain e where "conn_flush rx now resp t' = ConnExit e" "ce_sent e = []" "ce_delivered e = []"
          by (rule conn_flush_dead [of t' rx now resp]) (use True c(4,5) in \<open>simp_all add: teardown_def\<close>)
        with flush(1) s'(1) show ?thesis by (intro stop) simp_all
      next
        case live: False
        then obtain ext k' where after: "send_inv ?chs (log @ ext) k' (ct_core t')"
          "recv_inv plog past (ct_core t')" "rcv_le (ct_core t) (ct_core t')" "k \<le> k'" "k' \<le> max k mp"
          using flush(3) by (auto simp: core_after_def)
        obtain t2 e where fl: "conn_flush rx now resp t' = ConnContinue t2 e"
          "ct_core t2 = (ct_core t')\<lparr>cc_outbox := [], cc_delivered := [], cc_just_established := False\<rparr>"
          "ce_sent e = cc_outbox (ct_core t')"
          "ce_delivered e = (if ct_deliver_open t' \<and> rx then cc_delivered (ct_core t') else [])"
          "ct_deliver_open t2 \<longrightarrow> ct_deliver_open t' \<and> (rx \<or> cc_delivered (ct_core t') = [])"
          by (rule conn_flush_live [of t' rx now resp]) (use after(1) in \<open>simp_all add: send_inv_def\<close>)
        have s2: "s' = s\<lparr>sd_task := Some t2, sd_sent := sd_sent s @ ce_sent e, sd_got := sd_got s @ ce_delivered e,
            sd_msgs := sd_msgs s @ event_msgs ev\<rparr>"
          using s'(1) flush(1) fl(1) by simp
        let ?m = "unat (cc_rcv_next (ct_core t'))"
        have m: "m \<le> ?m" "?m \<le> length plog"
          using after(2,3) c(3) plog(1) by (auto simp: rcv_le_def recv_inv_def recv_at_def unat_of_nat)
        have "\<forall>b \<in> set (sd_sent s'). sent_ok (log @ ext) ?m b"
          using inv(1) after(1) m(1) by (auto simp: s2 fl(3) side_inv_def send_inv_def seq_inv_def outbox_ok_def
              intro: sent_ok_append)
        moreover have "send_inv (chunks_of MAX_CHUNK_PAYLOAD (sd_msgs s')) (log @ ext) k' (ct_core t2)"
          using send_inv_flush [OF after(1)] by (simp add: s2 fl(2))
        moreover have "recv_inv plog (past @ cc_delivered (ct_core t')) (ct_core t2)"
          using recv_inv_flush [OF after(2)] by (simp add: fl(2))
        moreover have "if ct_deliver_open t2 then sd_got s' = past @ cc_delivered (ct_core t')
            else prefix (sd_got s') (past @ cc_delivered (ct_core t'))"
          using c(6) flush(2) fl(4,5) by (auto simp: s2 intro: prefix_prefix)
        ultimately have "side_inv (log @ ext) k' ?m plog s'"
          using m(2) by (auto simp: side_inv_def s2 fl(2))
        with m(1) after(5) en(3) show ?thesis
          by (intro exI [of _ ext] exI [of _ k'] exI [of _ ?m]) auto
      qed
    qed
  qed
qed

definition msgs_ok :: "side \<Rightarrow> bool" where
  "msgs_ok s \<longleftrightarrow> sendable MAX_CHUNK_PAYLOAD (sd_msgs s)"

lemma apply_result_msgs:
  "prefix (sd_msgs s) (sd_msgs (apply_result ev res s))"
  by (cases res) auto

lemma small_mono: "small s' \<Longrightarrow> prefix (sd_msgs s) (sd_msgs s') \<Longrightarrow> small s"
  by (auto simp: small_def prefix_def)

lemma msgs_ok_step:
  assumes "msgs_ok s" "enabled peer now ev t"
  shows "msgs_ok (apply_result ev (conn_step rx now ev t) s)"
proof (cases "\<exists>fid m. ev = Cmd (Send fid m)")
  case True
  then obtain fid m where "ev = Cmd (Send fid m)" by blast
  with assms show ?thesis
    by (cases "fragment m MAX_CHUNK_PAYLOAD fid"; cases "conn_step rx now ev t")
      (auto simp: msgs_ok_def sendable_def event_msgs_def enabled_def conn_step_def send_message_def)
next
  case False
  then have "event_msgs ev = []" by (auto simp: event_msgs_def split: conn_event.split command.split)
  with assms(1) show ?thesis by (cases "conn_step rx now ev t") (auto simp: msgs_ok_def)
qed

lemma side_inv_new: "side_inv [] 0 0 [] (side_new w r)"
proof -
  have c: "cc_rcv_next (core_new w r) = 0" "cc_outbox (core_new w r) = []" "cc_delivered (core_new w r) = []"
    "cc_state (core_new w r) = Closed" "cc_recv_buffer (core_new w r) = []" "cc_unacked (core_new w r) = []"
    "cc_send_next (core_new w r) = 0" "cc_send_queue (core_new w r) = []" "\<not> cc_dead (core_new w r)"
    "cc_reassembler (core_new w r) = for_chunk_size MAX_CHUNK_PAYLOAD"
    by (simp_all add: core_new_def)
  have "send_inv [] [] 0 (core_new w r)"
    using c by (simp add: send_inv_def seq_inv_def outbox_ok_def shape_def log_shape_def)
  moreover have "recv_inv [] [] (core_new w r)"
    using c fed_from_Nil by (simp add: recv_inv_def recv_at_def)
  ultimately show ?thesis
    using c by (simp add: side_inv_def side_new_def conn_task_new_def)
qed

lemma net_inv_sym: "net_inv (a, b) \<longleftrightarrow> net_inv (b, a)"
  unfolding net_inv_def prod.case by blast

lemma net_inv_left:
  assumes "net_inv (a, b)" "sd_task a = Some t" "enabled b now ev t"
    "a' = apply_result ev (conn_step rx now ev t) a" "small a'" "small b"
  shows "net_inv (a', b)"
proof -
  obtain la lb ka kb ma mb where inv: "side_inv la ka ma lb a" "side_inv lb kb mb la b" "ka \<le> mb" "kb \<le> ma"
    using assms(1) by (auto simp: net_inv_def)
  have sent: "\<forall>x \<in> set (sd_sent b). sent_ok lb mb x" using inv(2) by (simp add: side_inv_def)
  obtain syns ds fins where "log_shape syns ds fins lb" by (rule side_inv_shape [OF inv(2)])
  then have syn: "syn_first lb" by (rule log_shape_syn_first)
  obtain ext k' m' where "side_inv (la @ ext) k' m' lb a'" "ma \<le> m'" "k' \<le> mb"
    using side_step [OF inv(1) assms(2,3) sent inv(3) side_inv_length [OF inv(2) assms(6)] syn assms(4,5)] by blast
  with side_inv_grow [OF inv(2), of ext] inv(4) show ?thesis
    unfolding net_inv_def prod.case using order.trans by blast
qed

lemma net_reach_inv:
  assumes "net_reach s" "small (fst s)" "small (snd s)"
  shows "net_inv s \<and> msgs_ok (fst s) \<and> msgs_ok (snd s)"
  using assms
proof (induction rule: net_reach.induct)
  case (init w1 r1 w2 r2)
  have "net_inv (side_new w1 r1, side_new w2 r2)"
    unfolding net_inv_def using side_inv_new by (auto intro!: exI [of _ "[]"] exI [of _ 0])
  then show ?case by (simp add: msgs_ok_def sendable_def side_new_def)
next
  case (step s s')
  from step.hyps(2) show ?case
  proof cases
    case (left a t b now ev rx)
    have "small a" using step.prems(1) left apply_result_msgs small_mono by (metis fst_conv)
    then show ?thesis
      using step.IH step.prems left net_inv_left msgs_ok_step by (metis fst_conv snd_conv)
  next
    case (right b t a now ev rx)
    have "small b" using step.prems(2) right apply_result_msgs small_mono by (metis snd_conv)
    then show ?thesis
      using step.IH step.prems right net_inv_left net_inv_sym msgs_ok_step by (metis fst_conv snd_conv)
  qed
qed

section \<open>In-order delivery\<close>

lemma side_inv_got:
  assumes "side_inv log k m plog s"
  obtains n r past where "fed_from (take n plog) r past" "prefix (sd_got s) past"
proof -
  have "side_inv log k m plog (s\<lparr>sd_task := None\<rparr>)"
    by (rule side_inv_stop [OF assms]) simp_all
  then show thesis using that by (auto simp: side_inv_def)
qed

lemma chunks_nonempty: "sendable cs msgs \<Longrightarrow> d \<in> set (chunks_of cs msgs) \<Longrightarrow> d \<noteq> []"
  by (induction msgs) (auto simp: sendable_def pack_chunk_def fragment_eq split: if_splits)

lemma fed_data_log:
  assumes "log_shape syns ds fins log" "\<And>d. d \<in> set ds \<Longrightarrow> d \<noteq> []"
  shows "fed_data log = ds"
proof -
  have "fed_data syns = []" "fed_data fins = []"
    using assms(1) by (auto simp: log_shape_def fed_data_def filter_empty_conv)
  moreover have "fed_data (map (Pair FLAG_ACK) ds) = ds"
    using assms(2) by (induction ds) (auto simp: fed_data_def)
  ultimately show ?thesis using assms(1) by (simp add: log_shape_def)
qed

text \<open>C1. Channels deliver in order and at most once: whatever the network does with the packets (loss,
  repetition, reordering), and whatever the applications and timers do on both ends, the messages
  one endpoint has received are a subsequence of the messages the other endpoint was asked to
  send. Nothing is altered, invented, repeated or reordered. The fragment ids drawn for the
  messages are distinct, and fewer than 2^64 - 4 chunks are sent.\<close>

theorem channel_delivers_in_order:
  assumes "net_reach (a, b)" "small a" "small b" "distinct (map fst (sd_msgs a))"
  shows "subseq (sd_got b) (map snd (sd_msgs a))"
proof -
  from net_reach_inv [OF assms(1)] assms(2,3) have inv: "net_inv (a, b)" and ok: "sendable MAX_CHUNK_PAYLOAD (sd_msgs a)"
    by (simp_all add: msgs_ok_def)
  from inv obtain la lb ka kb ma mb where sa: "side_inv la ka ma lb a" and sb: "side_inv lb kb mb la b"
    by (auto simp: net_inv_def)
  obtain syns ds fins where sh: "log_shape syns ds fins la" "prefix ds (chunks_of MAX_CHUNK_PAYLOAD (sd_msgs a))"
    by (rule side_inv_shape [OF sa])
  obtain n r past where got: "fed_from (take n la) r past" "prefix (sd_got b) past"
    by (rule side_inv_got [OF sb])
  have "fed_data la = ds"
    using fed_data_log [OF sh(1)] chunks_nonempty [OF ok] set_mono_prefix [OF sh(2)] by blast
  moreover have "prefix (fed_data (take n la)) (fed_data la)"
    by (metis append_take_drop_id fed_data_append prefixI)
  ultimately have pre: "prefix (fed_data (take n la)) (chunks_of MAX_CHUNK_PAYLOAD (sd_msgs a))"
    using sh(2) prefix_order.trans by metis
  obtain ts outs where f: "length ts = length (fed_data (take n la))" "past = somes outs"
    "feeds (zip ts (fed_data (take n la))) (for_chunk_size MAX_CHUNK_PAYLOAD) = (r, outs)"
    using got(1) by (auto simp: fed_from_def)
  have "subseq past (map snd (sd_msgs a))"
    using feeds_in_order [OF reasm_inv_for_chunk_size [of MAX_CHUNK_PAYLOAD] _ _ assms(4) ok pre f(1), of "{}"] f(2,3)
    by (simp add: from_history_def)
  then show ?thesis
    using got(2) prefix_imp_subseq subseq_order.trans by blast
qed

text \<open>C17. No loss: as long as both tasks run, every sequenced frame that one end no longer keeps for
  retransmission has been consumed by the other end, and the other end has consumed nothing that
  was not sent.\<close>

theorem channel_keeps_unconsumed:
  assumes "net_reach (a, b)" "small a" "small b" "sd_task a = Some ta" "sd_task b = Some tb"
  shows "unat (cc_send_next (ct_core ta)) \<le> unat (cc_rcv_next (ct_core tb)) + length (cc_unacked (ct_core ta)) \<and>
    unat (cc_rcv_next (ct_core tb)) \<le> unat (cc_send_next (ct_core ta))"
proof -
  from net_reach_inv [OF assms(1)] assms(2,3) obtain la lb ka kb ma mb where
    sa: "side_inv la ka ma lb a" and sb: "side_inv lb kb mb la b" and k: "ka \<le> mb"
    by (auto simp: net_inv_def)
  have "unat (cc_send_next (ct_core ta)) = length la" "length (cc_unacked (ct_core ta)) = length la - ka"
    using sa assms(4) side_inv_length [OF sa assms(2)]
    by (simp_all add: side_inv_def send_inv_def seq_inv_def unat_of_nat)
  moreover have "mb = unat (cc_rcv_next (ct_core tb))" "mb \<le> length la"
    using sb assms(5) by (simp_all add: side_inv_def)
  ultimately show ?thesis using k by simp
qed

section \<open>A run\<close>

text \<open>An executable schedule of the system: a local command, or the delivery of the \<open>i\<close>-th packet the
  other side has sent. It is used to exhibit a handshake followed by a message.\<close>

datatype sched = Local command | Deliver nat

definition sched_event :: "side \<Rightarrow> sched \<Rightarrow> conn_event option" where
  "sched_event peer x = (case x of
     Local cmd \<Rightarrow> (case cmd of Send fid m \<Rightarrow> if length fid = 16 then Some (Cmd cmd) else None | _ \<Rightarrow> Some (Cmd cmd))
   | Deliver i \<Rightarrow> if i < length (sd_sent peer) then map_option FrameIn (frame_parse (sd_sent peer ! i)) else None)"

fun net_exec :: "(bool \<times> sched) list \<Rightarrow> side \<times> side \<Rightarrow> (side \<times> side) option" where
  "net_exec [] s = Some s"
| "net_exec ((l, x) # xs) (a, b) =
     (if l then (case (sd_task a, sched_event b x) of
          (Some t, Some ev) \<Rightarrow> net_exec xs (apply_result ev (conn_step True 0 ev t) a, b) | _ \<Rightarrow> None)
      else (case (sd_task b, sched_event a x) of
          (Some t, Some ev) \<Rightarrow> net_exec xs (a, apply_result ev (conn_step True 0 ev t) b) | _ \<Rightarrow> None))"

lemma sched_event_enabled: "sched_event peer x = Some ev \<Longrightarrow> enabled peer 0 ev t"
  by (force simp: sched_event_def enabled_def split: sched.splits command.splits if_splits)

lemma net_exec_reach: "net_exec xs s = Some s' \<Longrightarrow> net_reach s \<Longrightarrow> net_reach s'"
proof (induction xs arbitrary: s)
  case (Cons y xs)
  obtain l x where y: "y = (l, x)" by (cases y)
  obtain a b where s: "s = (a, b)" by (cases s)
  from Cons.prems(1) obtain s1 where "net_step s s1" "net_exec xs s1 = Some s'"
    by (cases l) (auto simp: y s split: option.splits intro: net_step.intros sched_event_enabled)
  with Cons.IH Cons.prems(2) show ?case by (blast intro: net_reach.step)
qed simp

definition demo_fid :: bytes where "demo_fid = replicate 16 0"

definition demo_run :: "(bool \<times> sched) list" where
  "demo_run = [(True, Local Connect), (False, Deliver 0), (True, Deliver 0),
     (True, Local (Send demo_fid [7, 8])), (False, Deliver 2)]"

lemma length_demo_fid [simp]: "length demo_fid = 16"
  by (simp add: demo_fid_def)

lemma demo_fragment: "fragment [7, 8] MAX_CHUNK_PAYLOAD demo_fid = Some [pack_chunk demo_fid 0 1 [7, 8]]"
  by (simp add: fragment_eq pieces_def MAX_CHUNK_PAYLOAD_def MAX_CHANNEL_DATA_def FRAG_HEADER_LEN_def chunks_step)

lemma demo_feed: "feed now (pack_chunk demo_fid 0 1 d) (for_chunk_size MAX_CHUNK_PAYLOAD)
    = (for_chunk_size MAX_CHUNK_PAYLOAD, Some d)"
  by (rule feed_single) simp_all

lemma demo_parse: "f_flags f AND RESERVED_MASK = 0 \<Longrightarrow> frame_parse (frame_serialize f) = Some f"
  by (simp add: frame_parse_serialize wf_frame_def)

lemma demo_flags: "has_flag FLAG_ACK (FLAG_SYN OR FLAG_ACK)" "has_flag FLAG_ACK FLAG_ACK" "pack_chunk a b c d \<noteq> []"
  "\<not> (33 :: u64) \<le> 1"
  by (simp_all add: has_flag_def FLAG_ACK_def FLAG_SYN_def pack_chunk_def word_le_nat_alt)

lemma drain_buffer_step:
  "map_of (cc_recv_buffer c) (cc_rcv_next c) = None \<Longrightarrow> drain_buffer now c = c"
  "map_of (cc_recv_buffer c) (cc_rcv_next c) = Some fr \<Longrightarrow> drain_buffer now c = drain_buffer now (consume now fr
     (c\<lparr>cc_recv_buffer := hm_remove (cc_rcv_next c) (cc_recv_buffer c)\<rparr>))"
  by (simp_all add: drain_buffer.simps)

lemmas demo_defs = demo_run_def side_new_def conn_task_new_def core_new_def sched_event_def conn_step_def
  connect_def emit_next_def emit_reliable_def emit_def emit_pure_ack_def conn_flush_def no_effects_def
  demo_parse Let_def event_msgs_def on_frame_def ack_def establish_def demo_flags deliver_def
  drain_buffer_step consumes_seq_def pump_def send_message_def demo_fragment demo_feed consume_def
  has_unacked_def DEFAULT_WINDOW_def max_def

lemma demo_eval:
  "case net_exec demo_run (side_new 32 500, side_new 32 500) of None \<Rightarrow> False
   | Some (a, b) \<Rightarrow> sd_got b = [[7, 8]] \<and> sd_msgs a = [(demo_fid, [7, 8])] \<and> sd_msgs b = [] \<and>
       sd_task a \<noteq> None \<and> sd_task b \<noteq> None"
  by (simp add: demo_defs)

lemma demo_reach:
  obtains a b where "net_exec demo_run (side_new 32 500, side_new 32 500) = Some (a, b)" "net_reach (a, b)"
    "small a" "small b" "sd_got b = [[7, 8]]" "sd_msgs a = [(demo_fid, [7, 8])]" "sd_task a \<noteq> None" "sd_task b \<noteq> None"
proof -
  from demo_eval obtain a b where e: "net_exec demo_run (side_new 32 500, side_new 32 500) = Some (a, b)"
    "sd_got b = [[7, 8]]" "sd_msgs a = [(demo_fid, [7, 8])]" "sd_msgs b = []" "sd_task a \<noteq> None" "sd_task b \<noteq> None"
    by (auto split: option.splits)
  with net_exec_reach [OF e(1) net_reach.init] show thesis
    by (intro that [of a b]) (simp_all add: small_def demo_fragment)
qed

theorem channel_delivers_in_order_witness:
  "\<exists>a b. net_exec demo_run (side_new 32 500, side_new 32 500) = Some (a, b) \<and> sd_got b = [[7, 8]] \<and>
     subseq (sd_got b) (map snd (sd_msgs a))"
proof -
  obtain a b where r: "net_exec demo_run (side_new 32 500, side_new 32 500) = Some (a, b)" "net_reach (a, b)"
    "small a" "small b" "sd_got b = [[7, 8]]" "sd_msgs a = [(demo_fid, [7, 8])]"
    by (rule demo_reach)
  then have "subseq (sd_got b) (map snd (sd_msgs a))"
    by (intro channel_delivers_in_order) simp_all
  with r show ?thesis by blast
qed

theorem channel_keeps_unconsumed_witness:
  "\<exists>a b ta tb. net_exec demo_run (side_new 32 500, side_new 32 500) = Some (a, b) \<and>
     sd_task a = Some ta \<and> sd_task b = Some tb \<and>
     unat (cc_send_next (ct_core ta)) \<le> unat (cc_rcv_next (ct_core tb)) + length (cc_unacked (ct_core ta)) \<and>
     unat (cc_rcv_next (ct_core tb)) \<le> unat (cc_send_next (ct_core ta))"
proof -
  obtain a b where r: "net_exec demo_run (side_new 32 500, side_new 32 500) = Some (a, b)" "net_reach (a, b)"
    "small a" "small b" "sd_task a \<noteq> None" "sd_task b \<noteq> None"
    by (rule demo_reach)
  then obtain ta tb where "sd_task a = Some ta" "sd_task b = Some tb" by blast
  with r channel_keeps_unconsumed [OF r(2-4)] show ?thesis by blast
qed

end
