(* ===== verification/Hub_Frame.thy ===== *)
theory Hub_Frame
  imports Framing
begin

text \<open>
  \<open>rust/telesthitium/src/frame.rs\<close>, and \<open>parse_band\<close> of \<open>wt.rs\<close>: what the relay hub reads of a frame,
  and the hexadecimal form of a band id. A Rust string is its UTF-8 bytes; taking a slice of it panics
  when an end falls inside a character, which is the result \<open>None\<close> of the parsing functions below; the
  inner option is the \<open>Option\<close> of the code.
\<close>

section \<open>The cleartext header\<close>

record route_info =
  ri_band_id :: band_id
  ri_channel_type :: "channel_type option"
  ri_channel_id :: u16

definition frame_route_info :: "bytes \<Rightarrow> route_info option" where
  "frame_route_info pkt =
     (if length pkt < MIN_PACKET_LEN then None
      else Some \<lparr>ri_band_id = take BAND_ID_LEN pkt, ri_channel_type = ct_from_u8 (pkt ! 16),
                 ri_channel_id = from_be [pkt ! 17, pkt ! 18]\<rparr>)"

text \<open>C36. The hub reads a frame exactly as the library does: it finds a band, a known channel type and a channel id in
  a packet if and only if the packet has the length of a legal packet and its header parses, in the library, to
  these three.\<close>

theorem route_info_agrees:
  "frame_route_info pkt =
       Some \<lparr>ri_band_id = h_band_id h, ri_channel_type = Some (h_channel_type h), ri_channel_id = h_channel_id h\<rparr> \<and>
     h_sequence h = from_be (slice_of 19 27 pkt) \<longleftrightarrow>
   MIN_PACKET_LEN \<le> length pkt \<and> header_parse pkt = Inr h"
proof (cases "MIN_PACKET_LEN \<le> length pkt")
  case True
  then have l: "43 \<le> length pkt" by (simp add: MIN_PACKET_LEN_def HEADER_LEN_def TAG_LEN_def)
  then have "slice_of 17 19 pkt = [pkt ! 17, pkt ! 18]"
    by (intro nth_equalityI) (auto simp: slice_of_def less_Suc_eq numeral_eq_Suc)
  with True l show ?thesis
    by (cases h) (auto simp: frame_route_info_def header_parse_def HEADER_LEN_def split: option.splits)
qed (simp add: frame_route_info_def)

section \<open>Hexadecimal band ids\<close>

definition band_hex :: "band_id \<Rightarrow> string" where
  "band_hex b = concat (map hex_byte b)"

text \<open>\<open>str::is_char_boundary\<close>: the end, or a byte that does not continue a character.\<close>

definition is_char_boundary :: "string \<Rightarrow> nat \<Rightarrow> bool" where
  "is_char_boundary s i \<longleftrightarrow> i = length s \<or> i < length s \<and> \<not> (128 \<le> (of_char (s ! i) :: nat) \<and> (of_char (s ! i) :: nat) < 192)"

definition str_slice :: "string \<Rightarrow> nat \<Rightarrow> nat \<Rightarrow> string option" where
  "str_slice s i j = (if i \<le> j \<and> is_char_boundary s i \<and> is_char_boundary s j then Some (take (j - i) (drop i s)) else None)"

definition hex_value :: "char \<Rightarrow> nat option" where
  "hex_value c =
     (let n = of_char c :: nat in
      if 48 \<le> n \<and> n \<le> 57 then Some (n - 48)
      else if 97 \<le> n \<and> n \<le> 102 then Some (n - 87)
      else if 65 \<le> n \<and> n \<le> 70 then Some (n - 55)
      else None)"

text \<open>\<open>u8::from_str_radix(_, 16)\<close> on two bytes: two digits, or a plus sign and one digit.\<close>

fun u8_from_hex :: "string \<Rightarrow> u8 option" where
  "u8_from_hex [a, b] =
     (case hex_value b of
        None \<Rightarrow> None
      | Some l \<Rightarrow> if a = CHR ''+'' then Some (of_nat l)
                  else map_option (\<lambda>h. of_nat (16 * h + l)) (hex_value a))"
| "u8_from_hex _ = None"

fun hex_bytes :: "string \<Rightarrow> nat \<Rightarrow> nat \<Rightarrow> u8 list option option" where
  "hex_bytes s i 0 = Some (Some [])"
| "hex_bytes s i (Suc n) =
     (case str_slice s (i * 2) (i * 2 + 2) of
        None \<Rightarrow> None
      | Some t \<Rightarrow>
          (case u8_from_hex t of
             None \<Rightarrow> Some None
           | Some b \<Rightarrow> map_option (map_option ((#) b)) (hex_bytes s (Suc i) n)))"

definition band_from_hex :: "string \<Rightarrow> band_id option option" where
  "band_from_hex s = (if length s \<noteq> BAND_ID_LEN * 2 then Some None else hex_bytes s 0 BAND_ID_LEN)"

section \<open>The band of a WebTransport session\<close>

definition DEFAULT_WT_PATH :: string where "DEFAULT_WT_PATH = ''/telesthete''"

text \<open>\<open>str::split\<close> on one character.\<close>

fun split_on :: "char \<Rightarrow> string \<Rightarrow> string list" where
  "split_on c [] = [[]]"
| "split_on c (x # xs) = (if x = c then [] # split_on c xs
     else case split_on c xs of y # ys \<Rightarrow> (x # y) # ys | [] \<Rightarrow> [[x]])"

definition strip_prefix :: "string \<Rightarrow> string \<Rightarrow> string option" where
  "strip_prefix p s = (if take (length p) s = p then Some (drop (length p) s) else None)"

definition parse_band :: "string \<Rightarrow> band_id option option" where
  "parse_band path =
     (let route = takeWhile (\<lambda>c. c \<noteq> CHR ''?'') path; rest = dropWhile (\<lambda>c. c \<noteq> CHR ''?'') path in
      if rest = [] \<or> route \<noteq> DEFAULT_WT_PATH then Some None
      else case List.find (\<lambda>kv. strip_prefix ''band='' kv \<noteq> None) (split_on (CHR ''&'') (tl rest)) of
             None \<Rightarrow> Some None
           | Some kv \<Rightarrow> band_from_hex (the (strip_prefix ''band='' kv)))"

section \<open>Round trip\<close>

lemma of_char_hex_digit:
  "(of_char (hex_digit d) :: nat) < 128 \<and> hex_value (hex_digit d) = Some (unat d) \<and> hex_digit d \<noteq> CHR ''+''" if "d < 16" for d :: u8
proof -
  have "unat d \<in> {0..<16}" using that by (simp add: word_less_nat_alt)
  then have "unat d \<in> {0, 1, 2, 3, 4, 5, 6, 7, 8, 9, 10, 11, 12, 13, 14, 15}" by (simp add: atLeastLessThan_nat_numeral atLeast0LessThan lessThan_Suc numeral_eq_Suc) auto
  then show ?thesis by (auto simp: hex_digit_def hex_value_def)
qed

lemma nibbles: "drop_bit 4 b < (16 :: u8)" "take_bit 4 b < (16 :: u8)" "of_nat (16 * unat (drop_bit 4 b) + unat (take_bit 4 b)) = b" for b :: u8
proof -
  have d: "unat (drop_bit 4 b) = unat b div 16" by (simp add: drop_bit_eq_div unat_div_distrib)
  have t: "unat (take_bit 4 b) = unat b mod 16" by (simp add: take_bit_eq_mod unat_mod_distrib)
  have "unat b < 256" using unsigned_less [of b, where 'a = nat] by simp
  then show "drop_bit 4 b < (16 :: u8)" "take_bit 4 b < (16 :: u8)"
    by (simp_all add: word_less_nat_alt d t)
  show "of_nat (16 * unat (drop_bit 4 b) + unat (take_bit 4 b)) = b"
    unfolding d t mult_div_mod_eq by simp
qed

lemma u8_from_hex_byte: "u8_from_hex (hex_byte b) = Some b"
  using of_char_hex_digit [OF nibbles(1)] of_char_hex_digit [OF nibbles(2)] nibbles(3) [of b]
  by (simp add: hex_byte_def)

lemma length_band_hex [simp]: "length (band_hex b) = 2 * length b"
  by (induction b) (simp_all add: band_hex_def hex_byte_def)

lemma band_hex_ascii: "c \<in> set (band_hex b) \<Longrightarrow> (of_char c :: nat) < 128"
  using of_char_hex_digit [OF nibbles(1)] of_char_hex_digit [OF nibbles(2)]
  by (auto simp: band_hex_def hex_byte_def)

lemma ascii_boundary:
  assumes "\<And>c. c \<in> set s \<Longrightarrow> (of_char c :: nat) < 128" "i \<le> length s"
  shows "is_char_boundary s i"
proof (cases "i = length s")
  case False
  then have "(of_char (s ! i) :: nat) < 128" using assms by (intro assms(1)) simp
  with False assms(2) show ?thesis by (simp add: is_char_boundary_def)
qed (simp add: is_char_boundary_def)

lemma hex_bytes_band_hex:
  "hex_bytes (band_hex (pre @ bs)) (length pre) (length bs) = Some (Some bs)"
proof (induction bs arbitrary: pre)
  case (Cons b bs)
  let ?s = "band_hex (pre @ b # bs)"
  have "is_char_boundary ?s (length pre * 2)" "is_char_boundary ?s (length pre * 2 + 2)"
    by (rule ascii_boundary, rule band_hex_ascii, assumption, simp)+
  moreover have "take 2 (drop (length pre * 2) ?s) = hex_byte b"
  proof -
    have "?s = band_hex pre @ hex_byte b @ band_hex bs" by (simp add: band_hex_def)
    moreover have "length (band_hex pre) = length pre * 2" by simp
    ultimately show ?thesis by (simp add: hex_byte_def)
  qed
  ultimately have "str_slice ?s (length pre * 2) (length pre * 2 + 2) = Some (hex_byte b)"
    by (simp add: str_slice_def)
  moreover have "hex_bytes ?s (Suc (length pre)) (length bs) = Some (Some bs)"
    using Cons [of "pre @ [b]"] by simp
  ultimately show ?case by (simp add: u8_from_hex_byte)
qed simp

text \<open>The hexadecimal form of a band id reads back: \<open>band_from_hex\<close> of what \<open>band_hex\<close> writes is the
  band id, for every band id.\<close>

theorem band_hex_round_trip:
  assumes "length b = BAND_ID_LEN"
  shows "band_from_hex (band_hex b) = Some (Some b)"
  using hex_bytes_band_hex [of "[]" b] assms by (simp add: band_from_hex_def)

theorem band_hex_round_trip_witness: "band_from_hex (band_hex (replicate 16 171)) = Some (Some (replicate 16 171))"
  by (rule band_hex_round_trip) (simp add: BAND_ID_LEN_def)

text \<open>A query can make the parser panic: when the first character of the 32 bytes takes one byte
  and the second takes two, the first slice ends inside the second, whatever follows. No error is
  returned.\<close>

theorem band_from_hex_panics:
  assumes "length rest = 29" "(of_char a :: nat) < 128"
  shows "band_from_hex (a # CHR 0xC3 # CHR 0xA9 # rest) = None"
proof -
  have "\<not> is_char_boundary (a # CHR 0xC3 # CHR 0xA9 # rest) 2"
    using assms(1) by (simp add: is_char_boundary_def)
  then show ?thesis
    using assms(1) by (simp add: band_from_hex_def BAND_ID_LEN_def str_slice_def numeral_eq_Suc)
qed

theorem band_from_hex_panics_witness:
  "parse_band (''/telesthete?band=a'' @ CHR 0xC3 # CHR 0xA9 # replicate 29 (CHR ''0'')) = None"
proof -
  let ?s = "''a'' @ CHR 0xC3 # CHR 0xA9 # replicate 29 (CHR ''0'')"
  have "band_from_hex (CHR ''a'' # CHR 0xC3 # CHR 0xA9 # replicate 29 (CHR ''0'')) = None"
    by (rule band_from_hex_panics) simp_all
  moreover have "List.find (\<lambda>kv. strip_prefix ''band='' kv \<noteq> None) (split_on (CHR ''&'') (''band='' @ ?s)) = Some (''band='' @ ?s)"
    by code_simp
  ultimately show ?thesis
    by (simp add: parse_band_def DEFAULT_WT_PATH_def strip_prefix_def Let_def)
qed

end
