(* ===== verification/Hub_Registry.thy ===== *)
theory Hub_Registry
  imports Hub_Frame
begin

text \<open>
  \<open>rust/telesthitium/src/registry.rs\<close>: the relay core of the hub. The bounded queues that carry frames
  to the transports are a library's; a queue is a number here, and the argument \<open>chan\<close> of the sending
  operations says what the queue does with the frame offered to it. The clock is an argument. The
  byte counter of the UDP queues is a 64-bit word, as on the machine.
\<close>

section \<open>Limits and the byte budget\<close>

record limits =
  lm_max_bands :: nat
  lm_max_peers_per_band :: nat
  lm_udp_validation_packets :: u32

definition default_limits :: limits where
  "default_limits = \<lparr>lm_max_bands = 4096, lm_max_peers_per_band = 256, lm_udp_validation_packets = 2\<rparr>"

record byte_budget =
  bb_used :: u64
  bb_limit :: u64

definition budget_new :: "u64 \<Rightarrow> byte_budget" where
  "budget_new limit = \<lparr>bb_used = 0, bb_limit = limit\<rparr>"

definition budget_unlimited :: byte_budget where
  "budget_unlimited = budget_new 0"

definition try_reserve :: "nat \<Rightarrow> byte_budget \<Rightarrow> byte_budget \<times> bool" where
  "try_reserve n b =
     (if unat (bb_used b) + n < 2 ^ 64 \<and> (bb_limit b = 0 \<or> unat (bb_used b) + n \<le> unat (bb_limit b))
      then (b\<lparr>bb_used := bb_used b + of_nat n\<rparr>, True) else (b, False))"

definition budget_release :: "nat \<Rightarrow> byte_budget \<Rightarrow> byte_budget" where
  "budget_release n b = b\<lparr>bb_used := bb_used b - of_nat n\<rparr>"

section \<open>Sinks\<close>

datatype chan_result = ChanSent | ChanFull | ChanClosed

type_synonym queue = nat

datatype sink = SinkUdp queue socket_addr | SinkConn queue

fun sink_queue :: "sink \<Rightarrow> queue" where
  "sink_queue (SinkUdp q _) = q"
| "sink_queue (SinkConn q) = q"

datatype send_drop = DropFull | DropBudget | DropClosed

fun chan_drop :: "chan_result \<Rightarrow> send_drop option" where
  "chan_drop ChanSent = None"
| "chan_drop ChanFull = Some DropFull"
| "chan_drop ChanClosed = Some DropClosed"

fun sink_try_send :: "(queue \<Rightarrow> chan_result) \<Rightarrow> bytes \<Rightarrow> sink \<Rightarrow> byte_budget \<Rightarrow> byte_budget \<times> send_drop option" where
  "sink_try_send chan fr (SinkUdp q addr) b =
     (case try_reserve (length fr) b of
        (b, False) \<Rightarrow> (b, Some DropBudget)
      | (b, True) \<Rightarrow>
          (case chan_drop (chan q) of
             None \<Rightarrow> (b, None)
           | Some e \<Rightarrow> (budget_release (length fr) b, Some e)))"
| "sink_try_send chan fr (SinkConn q) b = (b, chan_drop (chan q))"

text \<open>The loop over the sinks of a frame: the budget, and the sinks whose queue took the frame.\<close>

fun send_sinks :: "(queue \<Rightarrow> chan_result) \<Rightarrow> bytes \<Rightarrow> sink list \<Rightarrow> byte_budget \<Rightarrow> byte_budget \<times> sink list" where
  "send_sinks chan fr [] b = (b, [])"
| "send_sinks chan fr (s # ss) b =
     (let (b, e) = sink_try_send chan fr s b; (b, sent) = send_sinks chan fr ss b
      in (b, if e = None then s # sent else sent))"

section \<open>Peers and the registry\<close>

datatype peer_key = KeyUdp socket_addr | KeyConn u64

record hub_peer =
  hp_sink :: "sink option"
  hp_first_seen :: instant
  hp_last_seen :: instant
  hp_eligible :: bool
  hp_seen :: u32
  hp_route :: "u16 option"

datatype reg_error = BandCap | PeerCap

type_synonym peers = "(peer_key, hub_peer) hashmap"

record registry =
  rg_bands :: "(band_id, peers) hashmap"
  rg_limits :: limits
  rg_next_conn :: u64
  rg_fed :: "queue option"

definition registry_new :: "limits \<Rightarrow> registry" where
  "registry_new lm = \<lparr>rg_bands = [], rg_limits = lm, rg_next_conn = 1, rg_fed = None\<rparr>"

definition set_federation :: "queue \<Rightarrow> registry \<Rightarrow> registry" where
  "set_federation q r = r\<lparr>rg_fed := Some q\<rparr>"

definition local_bands :: "registry \<Rightarrow> band_id list" where
  "local_bands r = map fst (rg_bands r)"

definition next_conn_id :: "registry \<Rightarrow> registry \<times> u64" where
  "next_conn_id r = (r\<lparr>rg_next_conn := rg_next_conn r + 1\<rparr>, rg_next_conn r)"

text \<open>Replacing the peers of one band, as a mutable borrow of them does.\<close>

definition set_band :: "band_id \<Rightarrow> peers \<Rightarrow> registry \<Rightarrow> registry" where
  "set_band bid ps r = r\<lparr>rg_bands := hm_insert bid ps (rg_bands r)\<rparr>"

definition reg_insert ::
  "instant \<Rightarrow> band_id \<Rightarrow> peer_key \<Rightarrow> sink \<Rightarrow> bool \<Rightarrow> registry \<Rightarrow> registry \<times> (reg_error + unit)" where
  "reg_insert now bid key snk conn r =
     (let is_new_band = (map_of (rg_bands r) bid = None) in
      if is_new_band \<and> length (rg_bands r) \<ge> lm_max_bands (rg_limits r) then (r, Inl BandCap)
      else let ps = (case map_of (rg_bands r) bid of Some ps \<Rightarrow> ps | None \<Rightarrow> []) in
        if length ps \<ge> lm_max_peers_per_band (rg_limits r) then (r, Inl PeerCap)
        else let el = (conn \<or> lm_udp_validation_packets (rg_limits r) \<le> 1);
                 p = \<lparr>hp_sink = (if el then Some snk else None), hp_first_seen = now, hp_last_seen = now,
                      hp_eligible = el, hp_seen = 1, hp_route = None\<rparr>
             in (set_band bid (hm_insert key p ps) r, Inr ()))"

definition reg_connect :: "instant \<Rightarrow> band_id \<Rightarrow> peer_key \<Rightarrow> sink \<Rightarrow> registry \<Rightarrow> registry \<times> (reg_error + unit)" where
  "reg_connect now bid key snk r = reg_insert now bid key snk True r"

definition sat_inc :: "u32 \<Rightarrow> u32" where
  "sat_inc n = (if n = - 1 then n else n + 1)"

text \<open>The entries that lose their id to \<open>key\<close>: other UDP entries of the same host with the same id that
  were last heard before \<open>key\<close> first appeared.\<close>

definition rebound :: "socket_addr \<Rightarrow> u16 \<Rightarrow> instant \<Rightarrow> peer_key \<Rightarrow> hub_peer \<Rightarrow> bool" where
  "rebound addr rid born k q =
     (case k of
        KeyUdp a \<Rightarrow> a \<noteq> addr \<and> sa_ip a = sa_ip addr \<and> hp_route q = Some rid \<and> hp_last_seen q < born
      | KeyConn _ \<Rightarrow> False)"

definition supersede_rebound :: "peer_key \<Rightarrow> peers \<Rightarrow> peers" where
  "supersede_rebound key ps =
     (case key of
        KeyConn _ \<Rightarrow> ps
      | KeyUdp addr \<Rightarrow>
          (case map_of ps key of
             None \<Rightarrow> ps
           | Some p \<Rightarrow>
               (case (hp_route p, hp_eligible p) of
                  (Some rid, True) \<Rightarrow>
                    map_ran (\<lambda>k q. if rebound addr rid (hp_first_seen p) k q then q\<lparr>hp_route := None\<rparr> else q) ps
                | _ \<Rightarrow> ps)))"

definition observe_udp ::
  "instant \<Rightarrow> band_id \<Rightarrow> socket_addr \<Rightarrow> queue \<Rightarrow> registry \<Rightarrow> registry \<times> (reg_error + unit)" where
  "observe_udp now bid addr q r =
     (let key = KeyUdp addr; snk = SinkUdp q addr in
      case Option.bind (map_of (rg_bands r) bid) (\<lambda>ps. map_option (Pair ps) (map_of ps key)) of
        Some (ps, p) \<Rightarrow>
          (let p = p\<lparr>hp_last_seen := now, hp_seen := sat_inc (hp_seen p)\<rparr> in
           if \<not> hp_eligible p \<and> hp_seen p \<ge> lm_udp_validation_packets (rg_limits r)
           then (set_band bid (supersede_rebound key (hm_insert key (p\<lparr>hp_eligible := True, hp_sink := Some snk\<rparr>) ps)) r, Inr ())
           else (set_band bid (hm_insert key p ps) r, Inr ()))
      | None \<Rightarrow> reg_insert now bid key snk False r)"

definition reg_touch :: "instant \<Rightarrow> band_id \<Rightarrow> peer_key \<Rightarrow> registry \<Rightarrow> registry" where
  "reg_touch now bid key r =
     (case Option.bind (map_of (rg_bands r) bid) (\<lambda>ps. map_option (Pair ps) (map_of ps key)) of
        Some (ps, p) \<Rightarrow> set_band bid (hm_insert key (p\<lparr>hp_last_seen := now, hp_seen := sat_inc (hp_seen p)\<rparr>) ps) r
      | None \<Rightarrow> r)"

section \<open>Relaying\<close>

text \<open>Where a frame goes; \<open>src\<close> is the sending peer, if it is a peer of this hub.\<close>

definition declared :: "peer_key option \<Rightarrow> u16 \<Rightarrow> peer_key \<Rightarrow> hub_peer \<Rightarrow> bool" where
  "declared src rid k p \<longleftrightarrow> Some k \<noteq> src \<and> hp_eligible p \<and> hp_route p = Some rid"

definition relay_targets :: "peers \<Rightarrow> peer_key option \<Rightarrow> route_info \<Rightarrow> sink list" where
  "relay_targets ps src info =
     (let rid = ri_channel_id info;
          addressed = (ri_channel_type info = Some Addressed \<and> rid \<noteq> 0 \<and> list_ex (\<lambda>(k, p). declared src rid k p) ps)
      in List.map_filter (\<lambda>(_, p). hp_sink p)
           (filter (\<lambda>(k, p). \<not> addressed \<or> declared src rid k p)
             (filter (\<lambda>(k, p). Some k \<noteq> src \<and> hp_eligible p) ps)))"

definition inject_from_link ::
  "(queue \<Rightarrow> chan_result) \<Rightarrow> band_id \<Rightarrow> bytes \<Rightarrow> byte_budget \<Rightarrow> registry \<Rightarrow> byte_budget \<times> sink list" where
  "inject_from_link chan bid fr b r =
     (case frame_route_info fr of
        None \<Rightarrow> (b, [])
      | Some info \<Rightarrow>
          if ri_channel_type info = Some Route then (b, [])
          else case map_of (rg_bands r) bid of
                 None \<Rightarrow> (b, [])
               | Some ps \<Rightarrow> send_sinks chan fr (relay_targets ps None info) b)"

record forward_result =
  fw_budget :: byte_budget
  fw_sent :: "sink list"
  fw_fed :: "(queue \<times> band_id \<times> bytes) option"

definition reg_forward ::
  "(queue \<Rightarrow> chan_result) \<Rightarrow> band_id \<Rightarrow> peer_key \<Rightarrow> bytes \<Rightarrow> byte_budget \<Rightarrow> registry \<Rightarrow> registry \<times> forward_result" where
  "reg_forward chan bid src fr b r =
     (case frame_route_info fr of
        None \<Rightarrow> (r, \<lparr>fw_budget = b, fw_sent = [], fw_fed = None\<rparr>)
      | Some info \<Rightarrow>
          (case map_of (rg_bands r) bid of
             None \<Rightarrow> (r, \<lparr>fw_budget = b, fw_sent = [], fw_fed = None\<rparr>)
           | Some ps \<Rightarrow>
               if ri_channel_type info = Some Route then
                 (let ps = (case map_of ps src of
                              None \<Rightarrow> ps
                            | Some p \<Rightarrow> hm_insert src (p\<lparr>hp_route := if ri_channel_id info \<noteq> 0 then Some (ri_channel_id info) else None\<rparr>) ps)
                  in (set_band bid (supersede_rebound src ps) r, \<lparr>fw_budget = b, fw_sent = [], fw_fed = None\<rparr>))
               else (let (b, sent) = send_sinks chan fr (relay_targets ps (Some src) info) b
                     in (r, \<lparr>fw_budget = b, fw_sent = sent,
                            fw_fed = (case rg_fed r of
                                        Some q \<Rightarrow> if chan q = ChanSent then Some (q, bid, fr) else None
                                      | None \<Rightarrow> None)\<rparr>))))"

section \<open>Leaving\<close>

definition reg_disconnect :: "band_id \<Rightarrow> peer_key \<Rightarrow> registry \<Rightarrow> registry" where
  "reg_disconnect bid key r =
     (case map_of (rg_bands r) bid of
        None \<Rightarrow> r
      | Some ps \<Rightarrow>
          (let ps = hm_remove key ps
           in if ps = [] then r\<lparr>rg_bands := hm_remove bid (rg_bands r)\<rparr> else set_band bid ps r))"

definition fresh_peer :: "instant \<Rightarrow> duration \<Rightarrow> peer_key \<times> hub_peer \<Rightarrow> bool" where
  "fresh_peer now ttl kp = (case fst kp of KeyConn _ \<Rightarrow> True | KeyUdp _ \<Rightarrow> now - hp_last_seen (snd kp) \<le> ttl)"

fun prune_bands :: "instant \<Rightarrow> duration \<Rightarrow> (band_id, peers) hashmap \<Rightarrow> (band_id, peers) hashmap \<times> nat" where
  "prune_bands now ttl [] = ([], 0)"
| "prune_bands now ttl ((bid, ps) # m) =
     (let kept = filter (fresh_peer now ttl) ps; (m', n) = prune_bands now ttl m
      in (if kept = [] then m' else (bid, kept) # m', length ps - length kept + n))"

definition reg_prune :: "instant \<Rightarrow> duration \<Rightarrow> registry \<Rightarrow> registry \<times> nat \<times> nat" where
  "reg_prune now ttl r =
     (let (m, evicted) = prune_bands now ttl (rg_bands r) in (r\<lparr>rg_bands := m\<rparr>, evicted, length m))"

section \<open>Inspection\<close>

definition band_count :: "registry \<Rightarrow> nat" where
  "band_count r = length (rg_bands r)"

definition reg_bands :: "registry \<Rightarrow> band_id list" where
  "reg_bands r = map fst (rg_bands r)"

definition peer_count :: "band_id \<Rightarrow> registry \<Rightarrow> nat" where
  "peer_count bid r = (case map_of (rg_bands r) bid of None \<Rightarrow> 0 | Some ps \<Rightarrow> length ps)"

definition reg_peer :: "band_id \<Rightarrow> peer_key \<Rightarrow> registry \<Rightarrow> hub_peer option" where
  "reg_peer bid key r = Option.bind (map_of (rg_bands r) bid) (\<lambda>ps. map_of ps key)"

definition reg_contains :: "band_id \<Rightarrow> peer_key \<Rightarrow> registry \<Rightarrow> bool" where
  "reg_contains bid key r \<longleftrightarrow> reg_peer bid key r \<noteq> None"

definition route_of :: "band_id \<Rightarrow> peer_key \<Rightarrow> registry \<Rightarrow> u16 option" where
  "route_of bid key r = Option.bind (reg_peer bid key r) hp_route"

definition is_eligible :: "band_id \<Rightarrow> peer_key \<Rightarrow> registry \<Rightarrow> bool option" where
  "is_eligible bid key r = map_option hp_eligible (reg_peer bid key r)"

end
