(* ===== verification/Hub_Udp.thy ===== *)
theory Hub_Udp
  imports Hub_Registry
begin

text \<open>
  \<open>rust/telesthitium/src/udp.rs\<close>, and what the connection transports (\<open>ws.rs\<close>, \<open>wt.rs\<close>, \<open>unix.rs\<close>) do to the
  registry: a hub is the registry, the byte budget and the UDP egress queues. \<open>hb_queued\<close> lists the
  frames that are in a UDP queue. A queue outlives its peer: the writer task drains it.
\<close>

record hub =
  hb_registry :: registry
  hb_budget :: byte_budget
  hb_next_queue :: queue
  hb_queued :: "(queue \<times> bytes) list"

definition DEFAULT_UDP_QUEUE_BYTES :: u64 where "DEFAULT_UDP_QUEUE_BYTES = 32 * 1024 * 1024"

definition hub_start :: "limits \<Rightarrow> u64 \<Rightarrow> hub" where
  "hub_start lm limit = \<lparr>hb_registry = registry_new lm, hb_budget = budget_new limit, hb_next_queue = 0, hb_queued = []\<rparr>"

text \<open>The frames a list of sinks adds to the UDP queues.\<close>

definition udp_frames :: "bytes \<Rightarrow> sink list \<Rightarrow> (queue \<times> bytes) list" where
  "udp_frames fr ss = List.map_filter (\<lambda>s. case s of SinkUdp q _ \<Rightarrow> Some (q, fr) | SinkConn _ \<Rightarrow> None) ss"

definition hub_forward ::
  "(queue \<Rightarrow> chan_result) \<Rightarrow> band_id \<Rightarrow> peer_key \<Rightarrow> bytes \<Rightarrow> hub \<Rightarrow> hub \<times> forward_result" where
  "hub_forward chan bid src fr h =
     (let (r, f) = reg_forward chan bid src fr (hb_budget h) (hb_registry h)
      in (h\<lparr>hb_registry := r, hb_budget := fw_budget f, hb_queued := hb_queued h @ udp_frames fr (fw_sent f)\<rparr>, f))"

text \<open>One datagram: the source is registered or refreshed, with a queue of its own should it need one, and the
  frame is relayed. The result is the relayed frame's fate, if there was one.\<close>

definition udp_datagram ::
  "(queue \<Rightarrow> chan_result) \<Rightarrow> instant \<Rightarrow> socket_addr \<Rightarrow> bytes \<Rightarrow> hub \<Rightarrow> hub \<times> forward_result option" where
  "udp_datagram chan now src data h =
     (case frame_route_info data of
        None \<Rightarrow> (h, None)
      | Some info \<Rightarrow>
          (case observe_udp now (ri_band_id info) src (hb_next_queue h) (hb_registry h) of
             (r, Inl _) \<Rightarrow> (h\<lparr>hb_registry := r\<rparr>, None)
           | (r, Inr _) \<Rightarrow>
               (let (h, f) = hub_forward chan (ri_band_id info) (KeyUdp src) data
                               (h\<lparr>hb_registry := r, hb_next_queue := Suc (hb_next_queue h)\<rparr>)
                in (h, Some f))))"

text \<open>The writer task of a queue takes its oldest frame and refunds its bytes. Taking and refunding are one step here, as
  reserving and queueing are; between the two halves the code's counter is ahead of the queues by the frame in
  hand, never behind them.\<close>

fun take_first :: "queue \<Rightarrow> (queue \<times> bytes) list \<Rightarrow> (bytes \<times> (queue \<times> bytes) list) option" where
  "take_first q [] = None"
| "take_first q ((q', fr) # xs) =
     (if q' = q then Some (fr, xs) else map_option (\<lambda>(f, ys). (f, (q', fr) # ys)) (take_first q xs))"

definition peer_writer :: "queue \<Rightarrow> hub \<Rightarrow> hub \<times> bytes option" where
  "peer_writer q h =
     (case take_first q (hb_queued h) of
        None \<Rightarrow> (h, None)
      | Some (fr, rest) \<Rightarrow> (h\<lparr>hb_budget := budget_release (length fr) (hb_budget h), hb_queued := rest\<rparr>, Some fr))"

text \<open>A connection joins under a fresh id and its own queue; its frames must name its band.\<close>

definition conn_join :: "instant \<Rightarrow> band_id \<Rightarrow> hub \<Rightarrow> hub \<times> (reg_error + u64)" where
  "conn_join now bid h =
     (let (r, cid) = next_conn_id (hb_registry h);
          (r, res) = reg_connect now bid (KeyConn cid) (SinkConn (hb_next_queue h)) r
      in (h\<lparr>hb_registry := r, hb_next_queue := Suc (hb_next_queue h)\<rparr>, case res of Inl e \<Rightarrow> Inl e | Inr _ \<Rightarrow> Inr cid))"

definition conn_frame ::
  "(queue \<Rightarrow> chan_result) \<Rightarrow> instant \<Rightarrow> band_id \<Rightarrow> u64 \<Rightarrow> bytes \<Rightarrow> hub \<Rightarrow> hub \<times> forward_result option" where
  "conn_frame chan now bid cid fr h =
     (case frame_route_info fr of
        None \<Rightarrow> (h, None)
      | Some info \<Rightarrow>
          if ri_band_id info = bid
          then (let (h, f) = hub_forward chan bid (KeyConn cid) fr (h\<lparr>hb_registry := reg_touch now bid (KeyConn cid) (hb_registry h)\<rparr>)
                in (h, Some f))
          else (h, None))"

text \<open>One binary message of a WebSocket session: the first frame names the band and registers the session; later
  frames must name the same band. The flag says whether the session stays open.\<close>

definition ws_binary ::
  "(queue \<Rightarrow> chan_result) \<Rightarrow> instant \<Rightarrow> bytes \<Rightarrow> (band_id \<times> u64) option \<Rightarrow> hub \<Rightarrow>
     hub \<times> (band_id \<times> u64) option \<times> bool \<times> forward_result option" where
  "ws_binary chan now data registered h =
     (case frame_route_info data of
        None \<Rightarrow> (h, registered, True, None)
      | Some info \<Rightarrow>
          (case registered of
             Some (bid, cid) \<Rightarrow> (let (h, f) = conn_frame chan now bid cid data h in (h, registered, True, f))
           | None \<Rightarrow>
               (case conn_join now (ri_band_id info) h of
                  (h, Inl _) \<Rightarrow> (h, None, False, None)
                | (h, Inr cid) \<Rightarrow>
                    (let (h, f) = hub_forward chan (ri_band_id info) (KeyConn cid) data h
                     in (h, Some (ri_band_id info, cid), True, Some f)))))"

definition link_frame :: "(queue \<Rightarrow> chan_result) \<Rightarrow> band_id \<Rightarrow> bytes \<Rightarrow> hub \<Rightarrow> hub \<times> sink list" where
  "link_frame chan bid fr h =
     (let (b, sent) = inject_from_link chan bid fr (hb_budget h) (hb_registry h)
      in (h\<lparr>hb_budget := b, hb_queued := hb_queued h @ udp_frames fr sent\<rparr>, sent))"

section \<open>The hub as a state machine\<close>

inductive hub_step :: "hub \<Rightarrow> hub \<Rightarrow> bool" where
  udp: "udp_datagram chan now src data h = (h', f) \<Longrightarrow> hub_step h h'"
| join: "conn_join now bid h = (h', res) \<Longrightarrow> hub_step h h'"
| conn: "conn_frame chan now bid cid fr h = (h', f) \<Longrightarrow> hub_step h h'"
| ws: "ws_binary chan now data registered h = (h', registered', still_open, f) \<Longrightarrow> hub_step h h'"
| leave: "hub_step h (h\<lparr>hb_registry := reg_disconnect bid (KeyConn cid) (hb_registry h)\<rparr>)"
| link: "link_frame chan bid fr h = (h', sent) \<Longrightarrow> hub_step h h'"
| federate: "hub_step h (h\<lparr>hb_registry := set_federation q (hb_registry h)\<rparr>)"
| prune: "reg_prune now ttl (hb_registry h) = (r, counts) \<Longrightarrow> hub_step h (h\<lparr>hb_registry := r\<rparr>)"
| drain: "peer_writer q h = (h', fr) \<Longrightarrow> hub_step h h'"

end
