(* ===== verification/Hub_Relay.thy ===== *)
theory Hub_Relay
  imports Hub_Udp
begin

text \<open>
  What the hub guarantees: its tables stay within their caps and consistent in every reachable state; a
  frame goes to the eligible peers of its band except the sender, narrowed by declared route ids in
  a way that never loses it; the bytes charged are exactly the bytes queued.
\<close>

section \<open>The invariant of the registry\<close>

definition peer_ok :: "limits \<Rightarrow> peer_key \<Rightarrow> hub_peer \<Rightarrow> bool" where
  "peer_ok lm k p \<longleftrightarrow> (hp_sink p \<noteq> None \<longleftrightarrow> hp_eligible p) \<and>
     (case k of
        KeyConn _ \<Rightarrow> \<exists>q. hp_sink p = Some (SinkConn q)
      | KeyUdp a \<Rightarrow> (hp_eligible p \<longrightarrow> lm_udp_validation_packets lm \<le> hp_seen p) \<and>
                     (\<forall>s. hp_sink p = Some s \<longrightarrow> (\<exists>q. s = SinkUdp q a)))"

definition peers_ok :: "limits \<Rightarrow> peers \<Rightarrow> bool" where
  "peers_ok lm ps \<longleftrightarrow> ps \<noteq> [] \<and> wf_hm ps \<and> length ps \<le> lm_max_peers_per_band lm \<and> (\<forall>(k, p) \<in> set ps. peer_ok lm k p)"

definition registry_inv :: "registry \<Rightarrow> bool" where
  "registry_inv r \<longleftrightarrow> wf_hm (rg_bands r) \<and> length (rg_bands r) \<le> lm_max_bands (rg_limits r) \<and>
     (\<forall>(bid, ps) \<in> set (rg_bands r). peers_ok (rg_limits r) ps)"

lemma registry_inv_band: "registry_inv r \<Longrightarrow> map_of (rg_bands r) bid = Some ps \<Longrightarrow> peers_ok (rg_limits r) ps"
  using map_of_SomeD [of "rg_bands r" bid ps] by (auto simp: registry_inv_def)

lemma peers_ok_peer: "peers_ok lm ps \<Longrightarrow> map_of ps k = Some p \<Longrightarrow> peer_ok lm k p"
  using map_of_SomeD [of ps k p] by (auto simp: peers_ok_def)

lemma set_hm_insert_subset: "set (hm_insert k v m) \<subseteq> insert (k, v) (set m)"
  by (induction m) auto

lemma set_hm_remove_subset: "set (hm_remove k m) \<subseteq> set m"
  by (induction m) auto

lemma hm_insert_not_Nil [simp]: "hm_insert k v m \<noteq> []"
  by (induction m) auto

lemma registry_inv_set_band:
  assumes "registry_inv r" "peers_ok (rg_limits r) ps"
    "map_of (rg_bands r) bid \<noteq> None \<or> length (rg_bands r) < lm_max_bands (rg_limits r)"
  shows "registry_inv (set_band bid ps r)"
proof -
  have "length (hm_insert bid ps (rg_bands r)) \<le> lm_max_bands (rg_limits r)"
    using assms(1,3) by (auto simp: registry_inv_def length_hm_insert)
  moreover have "peers_ok (rg_limits r) ps'" if "(b, ps') \<in> set (hm_insert bid ps (rg_bands r))" for b ps'
    using set_hm_insert_subset [of bid ps "rg_bands r"] that assms(1,2) by (auto simp: registry_inv_def)
  ultimately show ?thesis
    using assms(1) by (auto simp: registry_inv_def set_band_def)
qed

lemma peers_ok_insert:
  assumes "ps = [] \<or> peers_ok lm ps" "peer_ok lm k p" "map_of ps k \<noteq> None \<or> length ps < lm_max_peers_per_band lm"
  shows "peers_ok lm (hm_insert k p ps)"
proof -
  have "peer_ok lm k' p'" if "(k', p') \<in> set (hm_insert k p ps)" for k' p'
    using set_hm_insert_subset [of k p ps] that assms(1,2) by (auto simp: peers_ok_def)
  moreover have "wf_hm ps" "length ps \<le> lm_max_peers_per_band lm" using assms(1) by (auto simp: peers_ok_def)
  ultimately show ?thesis
    using assms(3) by (auto simp: peers_ok_def length_hm_insert)
qed

lemma rg_limits_set_band [simp]: "rg_limits (set_band bid ps r) = rg_limits r"
  by (simp add: set_band_def)

lemma reg_insert_inv:
  assumes "registry_inv r" "reg_insert now bid key snk conn r = (r', res)"
    "case key of KeyConn _ \<Rightarrow> conn \<and> (\<exists>q. snk = SinkConn q) | KeyUdp a \<Rightarrow> \<not> conn \<and> (\<exists>q. snk = SinkUdp q a)"
  shows "registry_inv r'" "rg_limits r' = rg_limits r"
proof -
  let ?lm = "rg_limits r"
  let ?ps = "case map_of (rg_bands r) bid of Some ps \<Rightarrow> ps | None \<Rightarrow> []"
  let ?el = "conn \<or> lm_udp_validation_packets ?lm \<le> 1"
  let ?p = "\<lparr>hp_sink = (if ?el then Some snk else None), hp_first_seen = now, hp_last_seen = now,
    hp_eligible = ?el, hp_seen = 1, hp_route = None\<rparr>"
  have p: "peer_ok ?lm key ?p" using assms(3) by (auto simp: peer_ok_def split: peer_key.splits)
  have ps: "?ps = [] \<or> peers_ok ?lm ?ps" using registry_inv_band [OF assms(1)] by (auto split: option.splits)
  have "registry_inv r' \<and> rg_limits r' = rg_limits r"
  proof (cases "(map_of (rg_bands r) bid = None \<and> length (rg_bands r) \<ge> lm_max_bands ?lm) \<or> length ?ps \<ge> lm_max_peers_per_band ?lm")
    case True
    with assms(1,2) show ?thesis by (auto simp: reg_insert_def Let_def split: if_splits)
  next
    case False
    then have "r' = set_band bid (hm_insert key ?p ?ps) r" using assms(2) by (auto simp: reg_insert_def Let_def)
    with False registry_inv_set_band [OF assms(1) peers_ok_insert [OF ps p], of bid] show ?thesis by auto
  qed
  then show "registry_inv r'" "rg_limits r' = rg_limits r" by auto
qed

lemma supersede_rebound_cases:
  obtains "supersede_rebound key ps = ps"
  | addr rid born where "supersede_rebound key ps = map_ran (\<lambda>k q. if rebound addr rid born k q then q\<lparr>hp_route := None\<rparr> else q) ps"
proof -
  have "supersede_rebound key ps = ps \<or> (\<exists>addr rid born. supersede_rebound key ps =
      map_ran (\<lambda>k q. if rebound addr rid born k q then q\<lparr>hp_route := None\<rparr> else q) ps)"
    unfolding supersede_rebound_def by (auto split: peer_key.split option.split bool.split)
  then show ?thesis using that by blast
qed

lemma set_map_ran: "set (map_ran f m) = (\<lambda>(k, v). (k, f k v)) ` set m"
  by (induction m) auto

lemma supersede_rebound_ok:
  assumes "peers_ok lm ps"
  shows "peers_ok lm (supersede_rebound key ps)"
proof (cases rule: supersede_rebound_cases [of key ps])
  case (2 addr rid born)
  have "peer_ok lm k (if c then p\<lparr>hp_route := None\<rparr> else p) \<longleftrightarrow> peer_ok lm k p" for k p c
    by (simp add: peer_ok_def split: peer_key.split)
  moreover have "length (map_ran f ps) = length ps" for f :: "peer_key \<Rightarrow> hub_peer \<Rightarrow> hub_peer"
    by (induction ps) auto
  moreover have "ps \<noteq> []" "wf_hm ps" using assms by (auto simp: peers_ok_def)
  ultimately show ?thesis
    using assms unfolding 2 by (cases ps) (auto simp: peers_ok_def set_map_ran)
qed (use assms in simp)

lemma sat_inc_le: "n \<le> sat_inc n"
proof (cases "n = - 1")
  case False
  then show ?thesis using word_less_plus_one [of n] by (simp add: sat_inc_def)
qed (simp add: sat_inc_def)

lemma peer_ok_refresh:
  assumes "peer_ok lm k p"
  shows "peer_ok lm k (p\<lparr>hp_last_seen := now, hp_seen := sat_inc (hp_seen p)\<rparr>)" "peer_ok lm k (p\<lparr>hp_route := rt\<rparr>)"
  using assms order_trans [OF _ sat_inc_le, of _ "hp_seen p"]
  by (auto simp: peer_ok_def split: peer_key.splits)

lemma observe_udp_inv:
  assumes inv: "registry_inv r" and step: "observe_udp now bid addr q r = (r', res)"
  shows "registry_inv r'" "rg_limits r' = rg_limits r"
proof -
  let ?key = "KeyUdp addr" and ?lm = "rg_limits r"
  have "registry_inv r' \<and> rg_limits r' = rg_limits r"
  proof (cases "Option.bind (map_of (rg_bands r) bid) (\<lambda>ps. map_option (Pair ps) (map_of ps ?key))")
    case None
    then have "reg_insert now bid ?key (SinkUdp q addr) False r = (r', res)"
      using step by (simp add: observe_udp_def Let_def)
    then show ?thesis using reg_insert_inv [OF inv] by simp
  next
    case (Some x)
    then obtain ps p where x: "x = (ps, p)" and ps: "map_of (rg_bands r) bid = Some ps" and p: "map_of ps ?key = Some p"
      by (auto simp: bind_eq_Some_conv)
    note ok = registry_inv_band [OF inv ps]
    let ?p = "p\<lparr>hp_last_seen := now, hp_seen := sat_inc (hp_seen p)\<rparr>"
    have p1: "peer_ok ?lm ?key ?p" by (rule peer_ok_refresh(1) [OF peers_ok_peer [OF ok p]])
    show ?thesis
    proof (cases "\<not> hp_eligible ?p \<and> hp_seen ?p \<ge> lm_udp_validation_packets ?lm")
      case True
      have "peer_ok ?lm ?key (?p\<lparr>hp_eligible := True, hp_sink := Some (SinkUdp q addr)\<rparr>)"
        using True by (simp add: peer_ok_def)
      then have "peers_ok ?lm (supersede_rebound ?key (hm_insert ?key (?p\<lparr>hp_eligible := True, hp_sink := Some (SinkUdp q addr)\<rparr>) ps))"
        using ok p by (intro supersede_rebound_ok peers_ok_insert) auto
      with True step Some x ps show ?thesis
        using registry_inv_set_band [OF inv, of _ bid] by (auto simp: observe_udp_def Let_def)
    next
      case False
      have "peers_ok ?lm (hm_insert ?key ?p ps)" using ok p p1 by (intro peers_ok_insert) auto
      with False step Some x ps show ?thesis
        using registry_inv_set_band [OF inv, of _ bid] by (auto simp: observe_udp_def Let_def)
    qed
  qed
  then show "registry_inv r'" "rg_limits r' = rg_limits r" by blast+
qed

lemma reg_touch_inv: "registry_inv r \<Longrightarrow> registry_inv (reg_touch now bid key r)"
proof -
  assume inv: "registry_inv r"
  show ?thesis
  proof (cases "Option.bind (map_of (rg_bands r) bid) (\<lambda>ps. map_option (Pair ps) (map_of ps key))")
    case (Some x)
    then obtain ps p where x: "x = (ps, p)" and ps: "map_of (rg_bands r) bid = Some ps" and p: "map_of ps key = Some p"
      by (auto simp: bind_eq_Some_conv)
    note ok = registry_inv_band [OF inv ps]
    have "peers_ok (rg_limits r) (hm_insert key (p\<lparr>hp_last_seen := now, hp_seen := sat_inc (hp_seen p)\<rparr>) ps)"
      using ok p by (intro peers_ok_insert peer_ok_refresh peers_ok_peer) auto
    with Some x ps show ?thesis using registry_inv_set_band [OF inv, of _ bid] by (simp add: reg_touch_def)
  qed (use inv in \<open>simp add: reg_touch_def\<close>)
qed

lemma reg_forward_inv:
  assumes inv: "registry_inv r" and step: "reg_forward chan bid src fr b r = (r', f)"
  shows "registry_inv r'"
proof (cases "frame_route_info fr")
  case (Some info)
  show ?thesis
  proof (cases "map_of (rg_bands r) bid")
    case (Some ps)
    note ok = registry_inv_band [OF inv Some]
    let ?ps = "case map_of ps src of None \<Rightarrow> ps
      | Some p \<Rightarrow> hm_insert src (p\<lparr>hp_route := if ri_channel_id info \<noteq> 0 then Some (ri_channel_id info) else None\<rparr>) ps"
    have "peers_ok (rg_limits r) ?ps"
    proof (cases "map_of ps src")
      case (Some p)
      have "peers_ok (rg_limits r) (hm_insert src (p\<lparr>hp_route := rt\<rparr>) ps)" for rt
        using ok Some by (intro peers_ok_insert peer_ok_refresh(2) peers_ok_peer) auto
      with Some show ?thesis by simp
    qed (use ok in simp)
    then have "registry_inv (set_band bid (supersede_rebound src ?ps) r)"
      using Some by (intro registry_inv_set_band [OF inv] supersede_rebound_ok) auto
    with step Some \<open>frame_route_info fr = Some info\<close> inv show ?thesis
      by (auto simp: reg_forward_def Let_def split: if_splits prod.splits)
  qed (use step inv Some in \<open>simp add: reg_forward_def\<close>)
qed (use step inv in \<open>simp add: reg_forward_def\<close>)

lemma reg_disconnect_inv: "registry_inv r \<Longrightarrow> registry_inv (reg_disconnect bid key r)"
proof -
  assume inv: "registry_inv r"
  have sub: "set (hm_remove bid (rg_bands r)) \<subseteq> set (rg_bands r)" "length (hm_remove bid (rg_bands r)) \<le> length (rg_bands r)"
    by (rule set_hm_remove_subset, rule length_delete_le)
  show ?thesis
  proof (cases "map_of (rg_bands r) bid")
    case (Some ps)
    note ok = registry_inv_band [OF inv Some]
    have "set (hm_remove key ps) \<subseteq> set ps" "length (hm_remove key ps) \<le> length ps"
      by (rule set_hm_remove_subset, rule length_delete_le)
    then have "hm_remove key ps \<noteq> [] \<Longrightarrow> peers_ok (rg_limits r) (hm_remove key ps)"
      using ok by (auto simp: peers_ok_def)
    then show ?thesis
      using inv Some sub registry_inv_set_band [OF inv, of "hm_remove key ps" bid]
      by (auto simp: reg_disconnect_def Let_def registry_inv_def)
  qed (use inv in \<open>simp add: reg_disconnect_def\<close>)
qed

lemma prune_bands_keys: "fst ` set (fst (prune_bands now ttl m)) \<subseteq> fst ` set m"
proof (induction now ttl m rule: prune_bands.induct)
  case (2 now ttl b ps m)
  obtain m' n where "prune_bands now ttl m = (m', n)" by (rule prod.exhaust)
  with 2 show ?case by (auto simp: Let_def)
qed simp

lemma map_of_prune_bands:
  "wf_hm m \<Longrightarrow> map_of (fst (prune_bands now ttl m)) bid =
     (case map_of m bid of
        None \<Rightarrow> None
      | Some ps \<Rightarrow> if filter (fresh_peer now ttl) ps = [] then None else Some (filter (fresh_peer now ttl) ps))"
proof (induction now ttl m rule: prune_bands.induct)
  case (2 now ttl b ps m)
  obtain m' n where r: "prune_bands now ttl m = (m', n)" by (rule prod.exhaust)
  have "map_of m' b = None"
    using 2(2) prune_bands_keys [of now ttl m] by (auto simp: r wf_hm_Cons map_of_eq_None_iff)
  with 2 show ?case by (auto simp: r Let_def wf_hm_Cons map_of_eq_None_iff split: option.splits)
qed simp

lemma wf_prune_bands: "wf_hm m \<Longrightarrow> wf_hm (fst (prune_bands now ttl m))"
proof (induction now ttl m rule: prune_bands.induct)
  case (2 now ttl b ps m)
  obtain m' n where r: "prune_bands now ttl m = (m', n)" by (rule prod.exhaust)
  with 2 prune_bands_keys [of now ttl m] show ?case by (auto simp: Let_def wf_hm_Cons)
qed simp

lemma length_prune_bands: "length (fst (prune_bands now ttl m)) \<le> length m"
  by (induction now ttl m rule: prune_bands.induct) (auto simp: Let_def split: prod.splits)

lemma prune_bands_count: "snd (prune_bands now ttl m) + hm_sum length (fst (prune_bands now ttl m)) = hm_sum length m"
proof (induction now ttl m rule: prune_bands.induct)
  case (2 now ttl b ps m)
  obtain m' n where r: "prune_bands now ttl m = (m', n)" by (rule prod.exhaust)
  have "length (filter (fresh_peer now ttl) ps) \<le> length ps" by simp
  then obtain k where k: "length ps = length (filter (fresh_peer now ttl) ps) + k" using le_Suc_ex by blast
  show ?case using 2 r by (simp add: Let_def k)
qed simp

lemma reg_prune_inv:
  assumes "registry_inv r" "reg_prune now ttl r = (r', counts)"
  shows "registry_inv r'"
proof -
  let ?m = "fst (prune_bands now ttl (rg_bands r))"
  have r': "r' = r\<lparr>rg_bands := ?m\<rparr>" using assms(2) by (auto simp: reg_prune_def split: prod.splits)
  have wf: "wf_hm (rg_bands r)" "wf_hm ?m" using assms(1) wf_prune_bands by (auto simp: registry_inv_def)
  have "peers_ok (rg_limits r) ps" if "(bid, ps) \<in> set ?m" for bid ps
  proof -
    have "map_of ?m bid = Some ps" using that wf(2) by (simp add: map_of_set_iff)
    then obtain qs where q: "map_of (rg_bands r) bid = Some qs" and ps: "ps = filter (fresh_peer now ttl) qs" "ps \<noteq> []"
      by (auto simp: map_of_prune_bands [OF wf(1)] split: option.splits if_splits)
    note ok = registry_inv_band [OF assms(1) q]
    have "length ps \<le> length qs" by (simp add: ps(1))
    also have "\<dots> \<le> lm_max_peers_per_band (rg_limits r)" using ok by (simp add: peers_ok_def)
    finally show ?thesis using ok ps by (auto simp: peers_ok_def)
  qed
  moreover have "length ?m \<le> lm_max_bands (rg_limits r)"
    using assms(1) length_prune_bands [of now ttl "rg_bands r"] by (auto simp: registry_inv_def)
  ultimately show ?thesis using wf(2) by (auto simp: registry_inv_def r')
qed

section \<open>The byte budget\<close>

definition queued_bytes :: "(queue \<times> bytes) list \<Rightarrow> nat" where
  "queued_bytes xs = sum_list (map (length \<circ> snd) xs)"

lemma queued_bytes_simps [simp]:
  "queued_bytes [] = 0" "queued_bytes (x # xs) = length (snd x) + queued_bytes xs" "queued_bytes (xs @ ys) = queued_bytes xs + queued_bytes ys"
  by (simp_all add: queued_bytes_def)

definition budget_ok :: "byte_budget \<Rightarrow> nat \<Rightarrow> bool" where
  "budget_ok b n \<longleftrightarrow> unat (bb_used b) = n \<and> (bb_limit b = 0 \<or> n \<le> unat (bb_limit b))"

lemma try_reserve_ok:
  assumes "budget_ok b n" "try_reserve k b = (b', ok)"
  shows "budget_ok b' (if ok then n + k else n)" "bb_limit b' = bb_limit b"
proof -
  have "unat (bb_used b + of_nat k) = unat (bb_used b) + k" if "unat (bb_used b) + k < 2 ^ 64"
    using that by (simp add: unat_word_ariths unat_of_nat take_bit_nat_eq_self)
  then show "budget_ok b' (if ok then n + k else n)" "bb_limit b' = bb_limit b"
    using assms by (auto simp: try_reserve_def budget_ok_def split: if_splits)
qed

lemma budget_release_ok:
  assumes "budget_ok b (n + k)"
  shows "budget_ok (budget_release k b) n" "bb_limit (budget_release k b) = bb_limit b"
proof -
  have "n + k < 2 ^ 64" using assms unsigned_less [of "bb_used b", where 'a = nat] by (simp add: budget_ok_def)
  have "bb_used b = of_nat (unat (bb_used b))" by simp
  also have "unat (bb_used b) = n + k" using assms by (simp add: budget_ok_def)
  finally have "bb_used b - of_nat k = of_nat n" by simp
  with assms \<open>n + k < 2 ^ 64\<close> show "budget_ok (budget_release k b) n" "bb_limit (budget_release k b) = bb_limit b"
    by (auto simp: budget_ok_def budget_release_def unat_of_nat take_bit_nat_eq_self)
qed

lemma udp_frames_simps [simp]:
  "udp_frames fr [] = []" "udp_frames fr (SinkUdp q a # ss) = (q, fr) # udp_frames fr ss"
  "udp_frames fr (SinkConn q # ss) = udp_frames fr ss"
  by (simp_all add: udp_frames_def map_filter_simps)

lemma sink_try_send_ok:
  assumes "budget_ok b n" "sink_try_send chan fr s b = (b', e)"
  shows "budget_ok b' (n + queued_bytes (udp_frames fr (if e = None then [s] else [])))" "bb_limit b' = bb_limit b"
proof -
  have "budget_ok b' (n + queued_bytes (udp_frames fr (if e = None then [s] else []))) \<and> bb_limit b' = bb_limit b"
  proof (cases s)
    case (SinkUdp q a)
    obtain b1 ok where r: "try_reserve (length fr) b = (b1, ok)" by (rule prod.exhaust)
    note t = try_reserve_ok [OF assms(1) r]
    show ?thesis
      using assms(2) SinkUdp r t budget_release_ok [of b1 n "length fr"] by (cases ok) (auto split: option.splits)
  qed (use assms in simp)
  then show "budget_ok b' (n + queued_bytes (udp_frames fr (if e = None then [s] else [])))" "bb_limit b' = bb_limit b" by blast+
qed

lemma udp_frames_Cons: "udp_frames fr (s # ss) = udp_frames fr [s] @ udp_frames fr ss"
  by (cases s) simp_all

lemma send_sinks_ok:
  assumes "budget_ok b n" "send_sinks chan fr ss b = (b', sent)"
  shows "budget_ok b' (n + queued_bytes (udp_frames fr sent)) \<and> bb_limit b' = bb_limit b \<and> set sent \<subseteq> set ss"
  using assms
proof (induction ss arbitrary: b n sent)
  case (Cons s ss)
  obtain b1 e where s: "sink_try_send chan fr s b = (b1, e)" by (rule prod.exhaust)
  obtain sent1 where r: "send_sinks chan fr ss b1 = (b', sent1)" and sent: "sent = (if e = None then s # sent1 else sent1)"
    using Cons.prems(2) s by (auto simp: Let_def split: prod.splits)
  note t = sink_try_send_ok [OF Cons.prems(1) s]
  from Cons.IH [OF t(1) r] t(2) show ?case
    by (auto simp: sent udp_frames_Cons [of fr s sent1] add.assoc split: if_splits)
qed simp

lemma reg_forward_ok:
  assumes "budget_ok b n" "reg_forward chan bid src fr b r = (r', f)"
  shows "budget_ok (fw_budget f) (n + queued_bytes (udp_frames fr (fw_sent f)))" "bb_limit (fw_budget f) = bb_limit b"
proof -
  have "budget_ok (fw_budget f) (n + queued_bytes (udp_frames fr (fw_sent f))) \<and> bb_limit (fw_budget f) = bb_limit b"
    using assms send_sinks_ok [OF assms(1)]
    by (auto simp: reg_forward_def Let_def split: option.splits if_splits prod.splits)
  then show "budget_ok (fw_budget f) (n + queued_bytes (udp_frames fr (fw_sent f)))" "bb_limit (fw_budget f) = bb_limit b" by blast+
qed

section \<open>Reachable hubs\<close>

definition hub_inv :: "limits \<Rightarrow> u64 \<Rightarrow> hub \<Rightarrow> bool" where
  "hub_inv lm limit h \<longleftrightarrow> registry_inv (hb_registry h) \<and> rg_limits (hb_registry h) = lm \<and>
     bb_limit (hb_budget h) = limit \<and> budget_ok (hb_budget h) (queued_bytes (hb_queued h))"

lemma rg_limits_ops [simp]:
  "rg_limits (reg_touch now bid key r) = rg_limits r" "rg_limits (reg_disconnect bid key r) = rg_limits r"
  "rg_limits (fst (reg_forward chan bid src fr b r)) = rg_limits r" "rg_limits (fst (reg_prune now ttl r)) = rg_limits r"
  by (auto simp: reg_touch_def reg_disconnect_def reg_forward_def reg_prune_def Let_def split: option.split prod.split)

lemma hub_forward_inv:
  assumes "hub_inv lm limit h" "hub_forward chan bid src fr h = (h', f)"
  shows "hub_inv lm limit h'"
proof -
  obtain r where r: "reg_forward chan bid src fr (hb_budget h) (hb_registry h) = (r, f)"
    and h': "h' = h\<lparr>hb_registry := r, hb_budget := fw_budget f, hb_queued := hb_queued h @ udp_frames fr (fw_sent f)\<rparr>"
    using assms(2) by (auto simp: hub_forward_def split: prod.splits)
  have "rg_limits r = rg_limits (hb_registry h)"
    using rg_limits_ops(3) [of chan bid src fr "hb_budget h" "hb_registry h"] r by simp
  moreover have "budget_ok (hb_budget h) (queued_bytes (hb_queued h))" using assms(1) by (simp add: hub_inv_def)
  note reg_forward_ok [OF this r]
  ultimately show ?thesis using assms(1) reg_forward_inv [OF _ r] by (simp add: hub_inv_def h')
qed

lemma hub_inv_registry:
  "hub_inv lm limit h \<Longrightarrow> registry_inv r \<Longrightarrow> rg_limits r = lm \<Longrightarrow> hub_inv lm limit (h\<lparr>hb_registry := r\<rparr>)"
  "hub_inv lm limit (h\<lparr>hb_next_queue := q\<rparr>) \<longleftrightarrow> hub_inv lm limit h"
  by (simp_all add: hub_inv_def)

lemma udp_datagram_inv:
  assumes "hub_inv lm limit h" "udp_datagram chan now src data h = (h', f)"
  shows "hub_inv lm limit h'"
proof (cases "frame_route_info data")
  case (Some info)
  obtain r res where o: "observe_udp now (ri_band_id info) src (hb_next_queue h) (hb_registry h) = (r, res)" by (rule prod.exhaust)
  have "hub_inv lm limit (h\<lparr>hb_registry := r\<rparr>)"
    using assms(1) observe_udp_inv [OF _ o] by (intro hub_inv_registry) (auto simp: hub_inv_def)
  then have i: "hub_inv lm limit (h\<lparr>hb_registry := r, hb_next_queue := q\<rparr>)" for q by (simp add: hub_inv_def)
  from assms(2) Some o \<open>hub_inv lm limit (h\<lparr>hb_registry := r\<rparr>)\<close> hub_forward_inv [OF i] show ?thesis
    by (auto simp: udp_datagram_def Let_def split: sum.splits prod.splits)
qed (use assms in \<open>simp add: udp_datagram_def\<close>)

lemma conn_join_inv:
  assumes "hub_inv lm limit h" "conn_join now bid h = (h', res)"
  shows "hub_inv lm limit h'"
proof -
  obtain r cid where n: "next_conn_id (hb_registry h) = (r, cid)" by (rule prod.exhaust)
  obtain r' x where c: "reg_connect now bid (KeyConn cid) (SinkConn (hb_next_queue h)) r = (r', x)" by (rule prod.exhaust)
  have "registry_inv r" "rg_limits r = lm" using assms(1) n by (auto simp: hub_inv_def next_conn_id_def registry_inv_def)
  then have "registry_inv r'" "rg_limits r' = lm" using reg_insert_inv c by (auto simp: reg_connect_def)
  with assms n c show ?thesis by (auto simp: conn_join_def hub_inv_def)
qed

lemma conn_frame_inv:
  assumes "hub_inv lm limit h" "conn_frame chan now bid cid fr h = (h', f)"
  shows "hub_inv lm limit h'"
proof -
  have i: "hub_inv lm limit (h\<lparr>hb_registry := reg_touch now bid (KeyConn cid) (hb_registry h)\<rparr>)"
    using assms(1) reg_touch_inv by (auto simp: hub_inv_def)
  from assms hub_forward_inv [OF i] show ?thesis
    by (auto simp: conn_frame_def Let_def split: option.splits if_splits prod.splits)
qed

lemma ws_binary_inv:
  assumes "hub_inv lm limit h" "ws_binary chan now data registered h = (h', registered', still_open, f)"
  shows "hub_inv lm limit h'"
proof (cases "frame_route_info data")
  case (Some info)
  show ?thesis
  proof (cases registered)
    case None
    obtain h1 res where j: "conn_join now (ri_band_id info) h = (h1, res)" by (rule prod.exhaust)
    from assms(2) Some None j hub_forward_inv [OF conn_join_inv [OF assms(1) j]] conn_join_inv [OF assms(1) j] show ?thesis
      by (auto simp: ws_binary_def Let_def split: sum.splits prod.splits)
  next
    case (Some x)
    with \<open>frame_route_info data = Some info\<close> assms(2) conn_frame_inv [OF assms(1)] show ?thesis
      by (cases x) (auto simp: ws_binary_def Let_def split: prod.splits)
  qed
qed (use assms in \<open>simp add: ws_binary_def\<close>)

lemma inject_from_link_ok:
  assumes "budget_ok b n" "inject_from_link chan bid fr b r = (b', sent)"
  shows "budget_ok b' (n + queued_bytes (udp_frames fr sent)) \<and> bb_limit b' = bb_limit b"
  using assms send_sinks_ok [OF assms(1)] by (auto simp: inject_from_link_def split: option.splits if_splits)

lemma take_first_bytes: "take_first q xs = Some (fr, ys) \<Longrightarrow> queued_bytes xs = queued_bytes ys + length fr"
  by (induction xs arbitrary: ys) (auto split: if_splits)

lemma peer_writer_inv:
  assumes "hub_inv lm limit h" "peer_writer q h = (h', fr)"
  shows "hub_inv lm limit h'"
proof (cases "take_first q (hb_queued h)")
  case (Some x)
  obtain f rest where x: "x = (f, rest)" by (rule prod.exhaust)
  from take_first_bytes [OF Some [unfolded x]] budget_release_ok [of "hb_budget h" "queued_bytes rest" "length f"] assms Some x
  show ?thesis by (auto simp: peer_writer_def hub_inv_def)
qed (use assms in \<open>simp add: peer_writer_def\<close>)

lemma hub_step_inv: "hub_step h h' \<Longrightarrow> hub_inv lm limit h \<Longrightarrow> hub_inv lm limit h'"
proof (induction rule: hub_step.induct)
  case (udp chan now src data h h' f)
  then show ?case using udp_datagram_inv by blast
next
  case (join now bid h h' res)
  then show ?case using conn_join_inv by blast
next
  case (conn chan now bid cid fr h h' f)
  then show ?case using conn_frame_inv by blast
next
  case (ws chan now data registered h h' registered' still_open f)
  then show ?case using ws_binary_inv by blast
next
  case (leave h bid cid)
  then show ?case using reg_disconnect_inv by (simp add: hub_inv_def)
next
  case (link chan bid fr h h' sent)
  then show ?case
    using inject_from_link_ok [of "hb_budget h" "queued_bytes (hb_queued h)"]
    by (auto simp: link_frame_def hub_inv_def split: prod.splits)
next
  case (federate h q)
  then show ?case by (auto simp: hub_inv_def set_federation_def registry_inv_def)
next
  case (prune now ttl h r counts)
  then have "rg_limits r = rg_limits (hb_registry h)" using rg_limits_ops(4) [of now ttl "hb_registry h"] by simp
  with prune(2) reg_prune_inv [OF _ prune(1)] show ?case by (auto simp: hub_inv_def)
next
  case (drain q h h' fr)
  then show ?case using peer_writer_inv by blast
qed

lemma hub_reachable_inv:
  assumes "hub_step\<^sup>*\<^sup>* (hub_start lm limit) h"
  shows "hub_inv lm limit h"
  using assms
proof (induction rule: rtranclp_induct)
  case base
  show ?case
    by (simp add: hub_inv_def hub_start_def registry_new_def registry_inv_def budget_new_def budget_ok_def)
qed (rule hub_step_inv)

text \<open>C9. The hub stays within its limits: in every state reachable from the start, whatever datagrams,
  connections, links, prunings and writers do, at most \<open>max_bands\<close> bands exist, none of them empty or with
  more than \<open>max_peers_per_band\<close> peers; a peer has an egress queue exactly when it may receive; a UDP
  peer may receive only after it has sent the required number of packets, and its queue leads to its
  own address.\<close>

theorem hub_within_limits:
  assumes "hub_step\<^sup>*\<^sup>* (hub_start lm limit) h"
  shows "band_count (hb_registry h) \<le> lm_max_bands lm \<and>
    (\<forall>bid \<in> set (reg_bands (hb_registry h)). 0 < peer_count bid (hb_registry h) \<and> peer_count bid (hb_registry h) \<le> lm_max_peers_per_band lm) \<and>
    (\<forall>bid k p. reg_peer bid k (hb_registry h) = Some p \<longrightarrow>
       (hp_sink p \<noteq> None \<longleftrightarrow> hp_eligible p) \<and>
       (\<forall>a. k = KeyUdp a \<longrightarrow> hp_eligible p \<longrightarrow> lm_udp_validation_packets lm \<le> hp_seen p \<and> (\<exists>q. hp_sink p = Some (SinkUdp q a))))"
proof -
  let ?r = "hb_registry h"
  have inv: "registry_inv ?r" "rg_limits ?r = lm" using hub_reachable_inv [OF assms] by (auto simp: hub_inv_def)
  have "0 < peer_count bid ?r \<and> peer_count bid ?r \<le> lm_max_peers_per_band lm" if b: "bid \<in> set (reg_bands ?r)" for bid
  proof -
    from b have "bid \<in> fst ` set (rg_bands ?r)" by (simp add: reg_bands_def)
    then obtain ps where "(bid, ps) \<in> set (rg_bands ?r)" by auto
    then have "map_of (rg_bands ?r) bid = Some ps" using inv(1) by (simp add: registry_inv_def map_of_set_iff)
    with registry_inv_band [OF inv(1)] inv(2) show ?thesis by (auto simp: peer_count_def peers_ok_def)
  qed
  moreover have "peer_ok lm k p" if b: "reg_peer bid k ?r = Some p" for bid k p
  proof -
    from b obtain ps where "map_of (rg_bands ?r) bid = Some ps" "map_of ps k = Some p"
      by (auto simp: reg_peer_def bind_eq_Some_conv)
    from peers_ok_peer [OF registry_inv_band [OF inv(1) this(1)] this(2)] show ?thesis by (simp add: inv(2))
  qed
  then have "(hp_sink p \<noteq> None \<longleftrightarrow> hp_eligible p) \<and>
      (\<forall>a. k = KeyUdp a \<longrightarrow> hp_eligible p \<longrightarrow> lm_udp_validation_packets lm \<le> hp_seen p \<and> (\<exists>q. hp_sink p = Some (SinkUdp q a)))"
    if "reg_peer bid k ?r = Some p" for bid k p
    using that by (fastforce simp: peer_ok_def)
  moreover have "band_count ?r \<le> lm_max_bands lm" using inv by (simp add: registry_inv_def band_count_def)
  ultimately show ?thesis by blast
qed

text \<open>C10. The byte counter is exact: in every reachable state, that is between the steps of the tasks, it equals the total length of the frames in the
  UDP queues, so it never wraps around, and it stays within the configured limit; a frame that a queue
  refused is not charged, and a drained queue gives all its bytes back.\<close>

theorem hub_budget_exact:
  assumes "hub_step\<^sup>*\<^sup>* (hub_start lm limit) h"
  shows "unat (bb_used (hb_budget h)) = sum_list (map (length \<circ> snd) (hb_queued h)) \<and>
    (limit = 0 \<or> sum_list (map (length \<circ> snd) (hb_queued h)) \<le> unat limit)"
  using hub_reachable_inv [OF assms] by (auto simp: hub_inv_def budget_ok_def queued_bytes_def)

section \<open>Where frames go\<close>

text \<open>Delivery is narrowed to the declarers of the id of an ADDRESSED frame when there is one that can
  receive it.\<close>

definition narrowed :: "peers \<Rightarrow> peer_key option \<Rightarrow> route_info \<Rightarrow> bool" where
  "narrowed ps src info \<longleftrightarrow> ri_channel_type info = Some Addressed \<and> ri_channel_id info \<noteq> 0 \<and>
     (\<exists>k p. map_of ps k = Some p \<and> declared src (ri_channel_id info) k p)"

lemma map_filter_mem: "y \<in> set (List.map_filter f xs) \<longleftrightarrow> (\<exists>x \<in> set xs. f x = Some y)"
  by (induction xs) (auto simp: map_filter_simps split: option.splits)

lemma relay_targets_iff:
  assumes "wf_hm ps"
  shows "s \<in> set (relay_targets ps src info) \<longleftrightarrow>
    (\<exists>k p. map_of ps k = Some p \<and> Some k \<noteq> src \<and> hp_eligible p \<and> hp_sink p = Some s \<and>
       (narrowed ps src info \<longrightarrow> hp_route p = Some (ri_channel_id info)))"
proof -
  define n where "n = narrowed ps src info"
  have "(ri_channel_type info = Some Addressed \<and> ri_channel_id info \<noteq> 0 \<and>
      list_ex (\<lambda>(k, p). declared src (ri_channel_id info) k p) ps) = n"
    by (auto simp: n_def narrowed_def list_ex_iff map_of_set_iff [OF assms])
  then have "s \<in> set (relay_targets ps src info) \<longleftrightarrow>
      (\<exists>(k, p) \<in> set ps. (\<not> n \<or> declared src (ri_channel_id info) k p) \<and> Some k \<noteq> src \<and> hp_eligible p \<and> hp_sink p = Some s)"
    unfolding relay_targets_def Let_def map_filter_mem by (simp only:) fastforce
  then show ?thesis
    unfolding n_def [symmetric] map_of_set_iff [OF assms] by (auto simp: declared_def)
qed

lemma send_sinks_all:
  assumes "\<forall>s \<in> set ss. chan (sink_queue s) = ChanSent" "bb_limit b = 0" "unat (bb_used b) + length ss * length fr < 2 ^ 64"
  shows "snd (send_sinks chan fr ss b) = ss"
  using assms
proof (induction ss arbitrary: b)
  case (Cons s ss)
  obtain b1 e where s: "sink_try_send chan fr s b = (b1, e)" by (rule prod.exhaust)
  have "unat (bb_used b + of_nat (length fr)) = unat (bb_used b) + length fr"
    using Cons.prems(3) by (simp add: unat_word_ariths unat_of_nat take_bit_nat_eq_self)
  then have "e = None \<and> bb_limit b1 = 0 \<and> unat (bb_used b1) \<le> unat (bb_used b) + length fr"
    using s Cons.prems by (cases s) (auto simp: try_reserve_def split: if_splits)
  with Cons.IH [of b1] Cons.prems s show ?case by (cases "send_sinks chan fr ss b1") simp
qed simp

lemma reg_forward_frame:
  assumes "map_of (rg_bands r) bid = Some ps" "frame_route_info fr = Some info" "ri_channel_type info \<noteq> Some Route"
    "reg_forward chan bid src fr b r = (r', f)"
  shows "r' = r" "send_sinks chan fr (relay_targets ps (Some src) info) b = (fw_budget f, fw_sent f)"
    "fw_fed f = (case rg_fed r of Some q \<Rightarrow> if chan q = ChanSent then Some (q, bid, fr) else None | None \<Rightarrow> None)"
  using assms by (auto simp: reg_forward_def split: prod.splits)

text \<open>C8. A frame reaches its band and nobody else: in any reachable state, whatever a peer sends that is not a
  route declaration is handed only to queues of eligible peers of the same band other than the sender
  and, when it is addressed to an id some of them declared, only to those; when no queue refuses it and
  the budget is unlimited, it is handed to all of them. The registry does not change.\<close>

theorem relay_reaches_band:
  assumes "hub_step\<^sup>*\<^sup>* (hub_start lm limit) h" "map_of (rg_bands (hb_registry h)) bid = Some ps"
    "frame_route_info fr = Some info" "ri_channel_type info \<noteq> Some Route" "hub_forward chan bid src fr h = (h', f)"
  shows "hb_registry h' = hb_registry h \<and>
    (\<forall>s \<in> set (fw_sent f). \<exists>k p. map_of ps k = Some p \<and> k \<noteq> src \<and> hp_eligible p \<and> hp_sink p = Some s \<and>
       (narrowed ps (Some src) info \<longrightarrow> hp_route p = Some (ri_channel_id info))) \<and>
    (limit = 0 \<and> (\<forall>q. chan q = ChanSent) \<and> queued_bytes (hb_queued h) + length (relay_targets ps (Some src) info) * length fr < 2 ^ 64 \<longrightarrow>
       (\<forall>k p. map_of ps k = Some p \<and> k \<noteq> src \<and> hp_eligible p \<and>
          (narrowed ps (Some src) info \<longrightarrow> hp_route p = Some (ri_channel_id info)) \<longrightarrow> the (hp_sink p) \<in> set (fw_sent f)))"
proof -
  let ?r = "hb_registry h" and ?t = "relay_targets ps (Some src) info"
  have inv: "registry_inv ?r" "budget_ok (hb_budget h) (queued_bytes (hb_queued h))" "bb_limit (hb_budget h) = limit"
    using hub_reachable_inv [OF assms(1)] by (auto simp: hub_inv_def)
  note ok = registry_inv_band [OF inv(1) assms(2)]
  have wf: "wf_hm ps" using ok by (simp add: peers_ok_def)
  obtain r where r: "reg_forward chan bid src fr (hb_budget h) ?r = (r, f)" and h': "hb_registry h' = r"
    using assms(5) by (auto simp: hub_forward_def split: prod.splits)
  note fw = reg_forward_frame [OF assms(2-4) r]
  have "set (fw_sent f) \<subseteq> set ?t" using send_sinks_ok [OF inv(2) fw(2)] by blast
  then have only: "\<exists>k p. map_of ps k = Some p \<and> k \<noteq> src \<and> hp_eligible p \<and> hp_sink p = Some s \<and>
       (narrowed ps (Some src) info \<longrightarrow> hp_route p = Some (ri_channel_id info))" if "s \<in> set (fw_sent f)" for s
    using that relay_targets_iff [OF wf, of s "Some src" info] by auto
  have all: "the (hp_sink p) \<in> set (fw_sent f)"
    if a: "limit = 0" "\<forall>q. chan q = ChanSent" "queued_bytes (hb_queued h) + length ?t * length fr < 2 ^ 64"
      and p: "map_of ps k = Some p" "k \<noteq> src" "hp_eligible p" "narrowed ps (Some src) info \<longrightarrow> hp_route p = Some (ri_channel_id info)" for k p
  proof -
    have "hp_sink p \<noteq> None" using peers_ok_peer [OF ok p(1)] p(3) by (simp add: peer_ok_def)
    then have "the (hp_sink p) \<in> set ?t" using p by (auto simp: relay_targets_iff [OF wf])
    moreover have "fw_sent f = ?t"
      using send_sinks_all [of ?t chan "hb_budget h" fr] a inv(2,3) fw(2) by (simp add: budget_ok_def)
    ultimately show ?thesis by simp
  qed
  show ?thesis using h' fw(1) only all by blast
qed

text \<open>Addressing never loses a frame: whenever some peer of the band other than the sender may receive, the
  set of queues a frame is handed to is not empty, whatever ids are declared and by whom.\<close>

theorem addressed_not_lost:
  assumes "hub_step\<^sup>*\<^sup>* (hub_start lm limit) h" "map_of (rg_bands (hb_registry h)) bid = Some ps"
    "map_of ps k = Some p" "k \<noteq> src" "hp_eligible p"
  shows "relay_targets ps (Some src) info \<noteq> []"
proof -
  have inv: "registry_inv (hb_registry h)" using hub_reachable_inv [OF assms(1)] by (simp add: hub_inv_def)
  note ok = registry_inv_band [OF inv assms(2)]
  have wf: "wf_hm ps" using ok by (simp add: peers_ok_def)
  have sink: "\<exists>s. hp_sink q = Some s" if "map_of ps j = Some q" "hp_eligible q" for j q
    using peers_ok_peer [OF ok that(1)] that(2) by (auto simp: peer_ok_def)
  have "\<exists>s. s \<in> set (relay_targets ps (Some src) info)"
  proof (cases "narrowed ps (Some src) info")
    case True
    then obtain j q where "map_of ps j = Some q" "j \<noteq> src" "hp_eligible q" "hp_route q = Some (ri_channel_id info)"
      by (auto simp: narrowed_def declared_def)
    with sink show ?thesis unfolding relay_targets_iff [OF wf] by blast
  next
    case False
    with assms(3-5) sink show ?thesis unfolding relay_targets_iff [OF wf] by blast
  qed
  then show ?thesis by auto
qed

section \<open>Declarations and pruning\<close>

lemma map_of_supersede:
  "map_of (supersede_rebound key ps) k =
     map_option (\<lambda>q. if (\<exists>addr p rid. key = KeyUdp addr \<and> map_of ps key = Some p \<and> hp_route p = Some rid \<and> hp_eligible p \<and>
                          rebound addr rid (hp_first_seen p) k q) then q\<lparr>hp_route := None\<rparr> else q) (map_of ps k)"
proof (cases key)
  case (KeyUdp addr)
  show ?thesis
  proof (cases "map_of ps key")
    case (Some p)
    then show ?thesis
      by (cases "hp_route p"; cases "hp_eligible p"; cases "map_of ps k")
        (auto simp: supersede_rebound_def KeyUdp map_ran_conv)
  qed (cases "map_of ps k"; simp add: supersede_rebound_def KeyUdp)
qed (cases "map_of ps k"; simp add: supersede_rebound_def)

text \<open>A route declaration is recorded and goes no further: it is handed to no queue and to no link; the
  sender's id becomes the declared one, or is withdrawn by 0; another entry changes only by losing the
  same id, and exactly when the sender is an eligible UDP peer and the entry is a UDP entry of the same
  host that was last heard before the sender first appeared. Other bands are not touched.\<close>

theorem route_declaration:
  assumes "map_of (rg_bands r) bid = Some ps" "map_of ps src = Some p"
    "frame_route_info fr = Some info" "ri_channel_type info = Some Route" "reg_forward chan bid src fr b r = (r', f)"
  shows "fw_sent f = [] \<and> fw_fed f = None \<and> fw_budget f = b \<and>
    route_of bid src r' = (if ri_channel_id info \<noteq> 0 then Some (ri_channel_id info) else None) \<and>
    (\<forall>k q. k \<noteq> src \<longrightarrow> map_of ps k = Some q \<longrightarrow>
       reg_peer bid k r' = Some (if ri_channel_id info \<noteq> 0 \<and> hp_eligible p \<and>
           (\<exists>addr. src = KeyUdp addr \<and> rebound addr (ri_channel_id info) (hp_first_seen p) k q) then q\<lparr>hp_route := None\<rparr> else q)) \<and>
    (\<forall>bid'. bid' \<noteq> bid \<longrightarrow> map_of (rg_bands r') bid' = map_of (rg_bands r) bid')"
proof -
  let ?rt = "if ri_channel_id info \<noteq> 0 then Some (ri_channel_id info) else None"
  let ?ps = "hm_insert src (p\<lparr>hp_route := ?rt\<rparr>) ps"
  have r': "r' = set_band bid (supersede_rebound src ?ps) r" "f = \<lparr>fw_budget = b, fw_sent = [], fw_fed = None\<rparr>"
    using assms by (auto simp: reg_forward_def Let_def)
  have peer: "reg_peer bid k r' = map_of (supersede_rebound src ?ps) k" for k
    by (simp add: reg_peer_def r' set_band_def)
  have self: "\<not> rebound addr rid born (KeyUdp addr) q" for addr rid born q
    by (simp add: rebound_def)
  have "route_of bid src r' = ?rt"
    by (cases src) (auto simp: route_of_def peer map_of_supersede self)
  moreover have "reg_peer bid k r' = Some (if ri_channel_id info \<noteq> 0 \<and> hp_eligible p \<and>
      (\<exists>addr. src = KeyUdp addr \<and> rebound addr (ri_channel_id info) (hp_first_seen p) k q) then q\<lparr>hp_route := None\<rparr> else q)"
    if "k \<noteq> src" "map_of ps k = Some q" for k q
    using that by (auto simp: peer map_of_supersede)
  moreover have "map_of (rg_bands r') bid' = map_of (rg_bands r) bid'" if "bid' \<noteq> bid" for bid'
    using that by (simp add: r' set_band_def)
  ultimately show ?thesis by (simp add: r'(2))
qed

text \<open>Pruning removes exactly the idle UDP peers: in any reachable state, afterwards a band holds its
  connections and those UDP peers heard within the time limit, unchanged; a band with none left is gone;
  the numbers returned are the peers removed and the bands left.\<close>

theorem prune_exact:
  assumes "hub_step\<^sup>*\<^sup>* (hub_start lm limit) h" "reg_prune now ttl (hb_registry h) = (r', evicted, remaining)"
  shows "(\<forall>bid k. reg_peer bid k r' = (case reg_peer bid k (hb_registry h) of
        Some p \<Rightarrow> if fresh_peer now ttl (k, p) then Some p else None | None \<Rightarrow> None)) \<and>
    (\<forall>bid \<in> set (reg_bands r'). \<exists>k p. reg_peer bid k r' = Some p) \<and>
    remaining = band_count r' \<and>
    evicted + hm_sum length (rg_bands r') = hm_sum length (rg_bands (hb_registry h))"
proof -
  let ?r = "hb_registry h"
  have inv: "registry_inv ?r" using hub_reachable_inv [OF assms(1)] by (simp add: hub_inv_def)
  then have wf: "wf_hm (rg_bands ?r)" by (simp add: registry_inv_def)
  have r': "rg_bands r' = fst (prune_bands now ttl (rg_bands ?r))" "evicted = snd (prune_bands now ttl (rg_bands ?r))"
    "remaining = length (rg_bands r')"
    using assms(2) by (auto simp: reg_prune_def split: prod.splits)
  have "reg_peer bid k r' = (case reg_peer bid k ?r of
      Some p \<Rightarrow> if fresh_peer now ttl (k, p) then Some p else None | None \<Rightarrow> None)" for bid k
  proof (cases "map_of (rg_bands ?r) bid")
    case (Some ps)
    then have "wf_hm ps" using registry_inv_band [OF inv] by (auto simp: peers_ok_def)
    then have "map_of (filter (fresh_peer now ttl) ps) k = (case map_of ps k of
        Some p \<Rightarrow> if fresh_peer now ttl (k, p) then Some p else None | None \<Rightarrow> None)"
      by (simp add: map_of_filter_hm)
    with Some show ?thesis by (auto simp: reg_peer_def r'(1) map_of_prune_bands [OF wf])
  qed (simp add: reg_peer_def r'(1) map_of_prune_bands [OF wf])
  moreover have "\<exists>k p. reg_peer bid k r' = Some p" if b: "bid \<in> set (reg_bands r')" for bid
  proof -
    have inv': "registry_inv r'" by (rule reg_prune_inv [OF inv assms(2)])
    from b have "bid \<in> fst ` set (rg_bands r')" by (simp add: reg_bands_def)
    then obtain ps where "(bid, ps) \<in> set (rg_bands r')" by auto
    then have m: "map_of (rg_bands r') bid = Some ps" using inv' by (simp add: registry_inv_def map_of_set_iff)
    from registry_inv_band [OF inv' m] obtain k p rest where "ps = (k, p) # rest" by (cases ps) (auto simp: peers_ok_def)
    with m have "reg_peer bid k r' = Some p" by (simp add: reg_peer_def)
    then show ?thesis by blast
  qed
  moreover have "evicted + hm_sum length (rg_bands r') = hm_sum length (rg_bands ?r)"
    using prune_bands_count [of now ttl "rg_bands ?r"] by (simp add: r')
  ultimately show ?thesis by (simp add: r'(3) band_count_def)
qed

section \<open>Witnesses\<close>

definition demo_limits :: limits where
  "demo_limits = \<lparr>lm_max_bands = 2, lm_max_peers_per_band = 3, lm_udp_validation_packets = 2\<rparr>"

definition demo_frame :: "u8 \<Rightarrow> u8 \<Rightarrow> bytes" where
  "demo_frame ty rid = replicate 16 5 @ [ty, 0, rid] @ replicate 24 0"

text \<open>Two connections in one band; the second declares the route id 9; and a UDP peer that is not validated yet.\<close>

definition demo_hub1 :: hub where "demo_hub1 = fst (conn_join 1 (replicate 16 5) (hub_start demo_limits 0))"
definition demo_hub2 :: hub where "demo_hub2 = fst (conn_join 2 (replicate 16 5) demo_hub1)"
definition demo_hub3 :: hub where "demo_hub3 = fst (conn_frame (\<lambda>_. ChanSent) 3 (replicate 16 5) 2 (demo_frame 5 9) demo_hub2)"
definition demo_hub4 :: hub where "demo_hub4 = fst (udp_datagram (\<lambda>_. ChanFull) 4 (SocketAddrV4 1 1) (demo_frame 5 9) demo_hub3)"

lemma demo_hub_steps:
  "hub_step\<^sup>*\<^sup>* (hub_start demo_limits 0) demo_hub2" "hub_step\<^sup>*\<^sup>* (hub_start demo_limits 0) demo_hub3"
  "hub_step\<^sup>*\<^sup>* (hub_start demo_limits 0) demo_hub4"
proof -
  have "hub_step (hub_start demo_limits 0) demo_hub1" unfolding demo_hub1_def by (rule hub_step.join [OF surjective_pairing])
  moreover have "hub_step demo_hub1 demo_hub2" unfolding demo_hub2_def by (rule hub_step.join [OF surjective_pairing])
  moreover have "hub_step demo_hub2 demo_hub3" unfolding demo_hub3_def by (rule hub_step.conn [OF surjective_pairing])
  moreover have "hub_step demo_hub3 demo_hub4" unfolding demo_hub4_def by (rule hub_step.udp [OF surjective_pairing])
  ultimately show "hub_step\<^sup>*\<^sup>* (hub_start demo_limits 0) demo_hub2" "hub_step\<^sup>*\<^sup>* (hub_start demo_limits 0) demo_hub3"
    "hub_step\<^sup>*\<^sup>* (hub_start demo_limits 0) demo_hub4" by (blast intro: converse_rtranclp_into_rtranclp)+
qed

definition demo_peers :: peers where
  "demo_peers = the (map_of (rg_bands (hb_registry demo_hub3)) (replicate 16 5))"

lemma demo_peers_band: "map_of (rg_bands (hb_registry demo_hub3)) (replicate 16 5) = Some demo_peers"
  by code_simp

theorem hub_within_limits_witness:
  "peer_count (replicate 16 5) (hb_registry demo_hub4) = 3 \<and> band_count (hb_registry demo_hub4) \<le> 2 \<and>
   is_eligible (replicate 16 5) (KeyUdp (SocketAddrV4 1 1)) (hb_registry demo_hub4) = Some False"
proof -
  have "band_count (hb_registry demo_hub4) \<le> 2"
    using hub_within_limits [OF demo_hub_steps(3)] by (simp add: demo_limits_def)
  moreover have "peer_count (replicate 16 5) (hb_registry demo_hub4) = 3 \<and>
    is_eligible (replicate 16 5) (KeyUdp (SocketAddrV4 1 1)) (hb_registry demo_hub4) = Some False" by code_simp
  ultimately show ?thesis by simp
qed

text \<open>A second datagram validates the UDP peer, and a frame of 43 bytes is queued for it.\<close>

definition demo_hub5 :: hub where "demo_hub5 = fst (udp_datagram (\<lambda>_. ChanFull) 5 (SocketAddrV4 1 1) (demo_frame 0 9) demo_hub4)"
definition demo_hub6 :: hub where "demo_hub6 = fst (conn_frame (\<lambda>_. ChanSent) 6 (replicate 16 5) 2 (demo_frame 0 9) demo_hub5)"

lemma demo_hub6_queued: "hb_queued demo_hub6 = [(3, demo_frame 0 9)]"
proof -
  let ?r = "reg_touch 6 (replicate 16 5) (KeyConn 2) (hb_registry demo_hub5)"
  let ?info = "\<lparr>ri_band_id = replicate 16 5, ri_channel_type = Some Control, ri_channel_id = 9\<rparr>"
  have f: "frame_route_info (demo_frame 0 9) = Some ?info" by code_simp
  have "map_option (\<lambda>ps. relay_targets ps (Some (KeyConn 2)) ?info) (map_of (rg_bands ?r) (replicate 16 5)) =
      Some [SinkConn 0, SinkUdp 3 (SocketAddrV4 1 1)]" by code_simp
  then obtain ps where ps: "map_of (rg_bands ?r) (replicate 16 5) = Some ps"
    "relay_targets ps (Some (KeyConn 2)) ?info = [SinkConn 0, SinkUdp 3 (SocketAddrV4 1 1)]" by auto
  have h: "hb_queued demo_hub5 = []" "hb_budget demo_hub5 = \<lparr>bb_used = 0, bb_limit = 0\<rparr>" by code_simp+
  have "length (demo_frame 0 9) = 43" by (simp add: demo_frame_def)
  then show ?thesis
    by (simp add: demo_hub6_def conn_frame_def f hub_forward_def reg_forward_def ps h try_reserve_def udp_frames_def
        map_filter_simps split_beta Let_def)
qed

theorem hub_budget_exact_witness:
  "length (hb_queued demo_hub6) = 1 \<and> unat (bb_used (hb_budget demo_hub6)) = 43"
proof -
  have "hub_step demo_hub4 demo_hub5" unfolding demo_hub5_def by (rule hub_step.udp [OF surjective_pairing])
  moreover have "hub_step demo_hub5 demo_hub6" unfolding demo_hub6_def by (rule hub_step.conn [OF surjective_pairing])
  ultimately have "hub_step\<^sup>*\<^sup>* (hub_start demo_limits 0) demo_hub6"
    using demo_hub_steps(3) by (meson rtranclp.rtrancl_into_rtrancl)
  from hub_budget_exact [OF this] have "unat (bb_used (hb_budget demo_hub6)) = sum_list (map (length \<circ> snd) (hb_queued demo_hub6))" ..
  moreover have "map (length \<circ> snd) (hb_queued demo_hub6) = [43]" by (simp add: demo_hub6_queued demo_frame_def)
  moreover from this have "length (hb_queued demo_hub6) = 1" by (metis length_map length_Cons list.size(3) One_nat_def)
  ultimately show ?thesis by simp
qed

theorem relay_reaches_band_witness:
  "fw_sent (snd (hub_forward (\<lambda>_. ChanSent) (replicate 16 5) (KeyConn 1) (demo_frame 6 9) demo_hub3)) = [SinkConn 1] \<and>
   hb_registry (fst (hub_forward (\<lambda>_. ChanSent) (replicate 16 5) (KeyConn 1) (demo_frame 6 9) demo_hub3)) = hb_registry demo_hub3"
proof
  have "frame_route_info (demo_frame 6 9) = Some \<lparr>ri_band_id = replicate 16 5, ri_channel_type = Some Addressed, ri_channel_id = 9\<rparr>"
    by code_simp
  from relay_reaches_band [OF demo_hub_steps(2) demo_peers_band this _ surjective_pairing]
  show "hb_registry (fst (hub_forward (\<lambda>_. ChanSent) (replicate 16 5) (KeyConn 1) (demo_frame 6 9) demo_hub3)) = hb_registry demo_hub3"
    by simp
qed code_simp

theorem addressed_not_lost_witness:
  "relay_targets demo_peers (Some (KeyConn 2)) \<lparr>ri_band_id = replicate 16 5, ri_channel_type = Some Addressed, ri_channel_id = 9\<rparr> \<noteq> []"
proof -
  have "(case map_of demo_peers (KeyConn 1) of Some p \<Rightarrow> hp_eligible p | None \<Rightarrow> False)" by code_simp
  then obtain p where "map_of demo_peers (KeyConn 1) = Some p" "hp_eligible p" by (auto split: option.splits)
  from addressed_not_lost [OF demo_hub_steps(2) demo_peers_band this(1) _ this(2)] show ?thesis by simp
qed

theorem route_declaration_witness:
  "route_of (replicate 16 5) (KeyConn 1) (fst (reg_forward (\<lambda>_. ChanSent) (replicate 16 5) (KeyConn 1) (demo_frame 5 9)
     (hb_budget demo_hub3) (hb_registry demo_hub3))) = Some 9"
proof -
  have "map_of demo_peers (KeyConn 1) \<noteq> None" by code_simp
  then obtain p where p: "map_of demo_peers (KeyConn 1) = Some p" by blast
  have "frame_route_info (demo_frame 5 9) = Some \<lparr>ri_band_id = replicate 16 5, ri_channel_type = Some Route, ri_channel_id = 9\<rparr>"
    by code_simp
  from route_declaration [OF demo_peers_band p this _ surjective_pairing] show ?thesis by simp
qed

theorem prune_exact_witness:
  "reg_peer (replicate 16 5) (KeyUdp (SocketAddrV4 1 1)) (fst (reg_prune 20 5 (hb_registry demo_hub4))) = None \<and>
   reg_peer (replicate 16 5) (KeyConn 1) (fst (reg_prune 20 5 (hb_registry demo_hub4))) \<noteq> None"
proof -
  obtain r' n m where p: "reg_prune 20 5 (hb_registry demo_hub4) = (r', n, m)" by (rule prod_cases3)
  have "(case reg_peer (replicate 16 5) (KeyUdp (SocketAddrV4 1 1)) (hb_registry demo_hub4) of
      Some q \<Rightarrow> \<not> fresh_peer 20 5 (KeyUdp (SocketAddrV4 1 1), q) | None \<Rightarrow> False) \<and>
    (case reg_peer (replicate 16 5) (KeyConn 1) (hb_registry demo_hub4) of
      Some q \<Rightarrow> fresh_peer 20 5 (KeyConn 1, q) | None \<Rightarrow> False)" by code_simp
  with prune_exact [OF demo_hub_steps(3) p] show ?thesis by (auto simp: p split: option.splits)
qed

end
