(* ===== verification/Federation.thy ===== *)
theory Federation
  imports Hub_Relay
begin

text \<open>
  \<open>rust/telesthitium/src/federation.rs\<close>: a link between two hubs. Messages are framed over a TCP byte
  stream; each end sends the shared secret, then advertises its bands and relays frames of bands the
  other end has. The byte stream is a list of bytes here; sockets and timers are outside the model.
\<close>

section \<open>Messages\<close>

definition T_HELLO :: u8 where "T_HELLO = 0x01"
definition T_BANDS :: u8 where "T_BANDS = 0x02"
definition T_RELAY :: u8 where "T_RELAY = 0x03"
definition MAX_MSG :: u32 where "MAX_MSG = 4 * 1024 * 1024"
definition BANDS_MARKER :: band_id where "BANDS_MARKER = replicate BAND_ID_LEN 0xFF"

definition msg_bytes :: "u8 \<times> bytes \<Rightarrow> bytes" where
  "msg_bytes m = to_be 4 (of_nat (1 + length (snd m)) :: u32) @ fst m # snd m"

definition write_msg :: "u8 \<Rightarrow> bytes \<Rightarrow> bytes option" where
  "write_msg t payload =
     (if (of_nat (1 + length payload) :: u32) > MAX_MSG then None else Some (msg_bytes (t, payload)))"

text \<open>Reading fails when the length is out of range or the stream ends first; then the link is closed.\<close>

definition read_msg :: "bytes \<Rightarrow> ((u8 \<times> bytes) \<times> bytes) option" where
  "read_msg bs =
     (if length bs < 4 then None
      else let len = from_be (take 4 bs) :: u32; rest = drop 4 bs in
        if len = 0 \<or> len > MAX_MSG then None
        else if length rest < unat len then None
        else Some ((rest ! 0, tl (take (unat len) rest)), drop (unat len) rest))"

definition encode_bands :: "band_id list \<Rightarrow> bytes" where
  "encode_bands bands =
     to_be 2 (of_nat (min (length bands) 65535) :: u16) @ concat (take 65535 bands)"

fun decode_loop :: "nat \<Rightarrow> bytes \<Rightarrow> band_id set" where
  "decode_loop 0 bs = {}"
| "decode_loop (Suc n) bs =
     (if length bs < BAND_ID_LEN then {}
      else insert (take BAND_ID_LEN bs) (decode_loop n (drop BAND_ID_LEN bs)))"

definition decode_bands :: "bytes \<Rightarrow> band_id set" where
  "decode_bands payload =
     (if length payload < 2 then {} else decode_loop (unat (from_be (take 2 payload) :: u16)) (drop 2 payload))"

section \<open>Links\<close>

record link_handle =
  lk_id :: u64
  lk_queue :: queue
  lk_bands :: "band_id set"
  lk_active :: bool

record link_set =
  ls_links :: "link_handle list"
  ls_next :: u64

definition link_set_new :: link_set where
  "link_set_new = \<lparr>ls_links = [], ls_next = 1\<rparr>"

definition link_add :: "link_handle \<Rightarrow> link_set \<Rightarrow> link_set" where
  "link_add h s = s\<lparr>ls_links := ls_links s @ [h]\<rparr>"

definition link_remove :: "u64 \<Rightarrow> link_set \<Rightarrow> link_set" where
  "link_remove i s = s\<lparr>ls_links := filter (\<lambda>h. lk_id h \<noteq> i) (ls_links s)\<rparr>"

text \<open>Which links a locally sourced frame is queued on.\<close>

definition fan_egress :: "(queue \<Rightarrow> chan_result) \<Rightarrow> band_id \<Rightarrow> link_set \<Rightarrow> u64 list" where
  "fan_egress chan bid s =
     map lk_id (filter (\<lambda>h. lk_active h \<and> bid \<in> lk_bands h \<and> chan (lk_queue h) = ChanSent) (ls_links s))"

text \<open>Opening: the own secret is written before anything is read, and the first message read must repeat it. The
  result has the bytes written and, for an accepted link, the link set, its handle and the unread input.\<close>

definition link_accepts :: "string \<Rightarrow> u8 \<times> bytes \<Rightarrow> bool" where
  "link_accepts secret m \<longleftrightarrow> fst m = T_HELLO \<and> snd m = str_bytes secret"

definition link_open ::
  "string \<Rightarrow> bool \<Rightarrow> queue \<Rightarrow> bytes \<Rightarrow> link_set \<Rightarrow> bytes \<times> (link_set \<times> link_handle \<times> bytes) option" where
  "link_open secret active q input s =
     (case write_msg T_HELLO (str_bytes secret) of
        None \<Rightarrow> ([], None)
      | Some hello \<Rightarrow>
          (case read_msg input of
             None \<Rightarrow> (hello, None)
           | Some (m, rest) \<Rightarrow>
               if \<not> link_accepts secret m then (hello, None)
               else let h = \<lparr>lk_id = ls_next s, lk_queue = q, lk_bands = {}, lk_active = active\<rparr>
                    in (hello, Some (link_add h (s\<lparr>ls_next := ls_next s + 1\<rparr>), h, rest))))"

text \<open>The writer: what is queued under the marker is an encoded BANDS message, anything else a frame.\<close>

definition link_write :: "band_id \<times> bytes \<Rightarrow> bytes option" where
  "link_write bf =
     (let (bid, fr) = bf in
      if bid = BANDS_MARKER then write_msg T_BANDS fr
      else write_msg T_RELAY (bid @ to_be 4 (of_nat (length fr) :: u32) @ fr))"

text \<open>One poll of the advertiser: it stops once the link's queue is closed; otherwise the own bands are offered
  to the queue when they changed or when 15 seconds passed, and count as sent whether or not it took them.\<close>

definition BANDS_POLL :: duration where "BANDS_POLL = 1000"
definition BANDS_KEEPALIVE :: duration where "BANDS_KEEPALIVE = 15000"

record advertiser =
  ad_last :: "band_id set option"
  ad_since_send :: duration

definition advertise_poll ::
  "chan_result \<Rightarrow> registry \<Rightarrow> advertiser \<Rightarrow> (advertiser \<times> (band_id \<times> bytes) option) option" where
  "advertise_poll res r a =
     (if res = ChanClosed then None
      else let bands = local_bands r; since = ad_since_send a + BANDS_POLL in
        if ad_last a \<noteq> Some (set bands) \<or> since \<ge> BANDS_KEEPALIVE
        then Some (\<lparr>ad_last = Some (set bands), ad_since_send = 0\<rparr>,
                   if res = ChanSent then Some (BANDS_MARKER, encode_bands bands) else None)
        else Some (a\<lparr>ad_since_send := since\<rparr>, None))"

text \<open>The reader: one message, applied to the link's handle and the hub.\<close>

definition link_read ::
  "(queue \<Rightarrow> chan_result) \<Rightarrow> u8 \<times> bytes \<Rightarrow> link_handle \<Rightarrow> hub \<Rightarrow> link_handle \<times> hub \<times> sink list" where
  "link_read chan m lh h =
     (let (t, payload) = m in
      if t = T_BANDS then (lh\<lparr>lk_bands := decode_bands payload\<rparr>, h, [])
      else if t = T_RELAY then
        if length payload < BAND_ID_LEN + 4 \<or> \<not> lk_active lh then (lh, h, [])
        else let bid = take BAND_ID_LEN payload;
                 flen = unat (from_be (take 4 (drop BAND_ID_LEN payload)) :: u32);
                 start = BAND_ID_LEN + 4
             in if length payload < start + flen then (lh, h, [])
                else let (h, sent) = link_frame chan bid (take flen (drop start payload)) h in (lh, h, sent)
      else (lh, h, []))"

section \<open>Framing\<close>

definition wf_msg :: "u8 \<times> bytes \<Rightarrow> bool" where
  "wf_msg m \<longleftrightarrow> 1 + length (snd m) \<le> unat MAX_MSG"

lemma MAX_MSG_nat: "unat MAX_MSG = 4194304"
  by (simp add: MAX_MSG_def)

lemma msg_len:
  assumes "wf_msg m"
  shows "unat (of_nat (1 + length (snd m)) :: u32) = 1 + length (snd m)"
    "(of_nat (1 + length (snd m)) :: u32) \<le> MAX_MSG" "(of_nat (1 + length (snd m)) :: u32) \<noteq> 0"
proof -
  have "1 + length (snd m) \<le> 4194304" using assms by (simp add: wf_msg_def MAX_MSG_nat)
  then show u: "unat (of_nat (1 + length (snd m)) :: u32) = 1 + length (snd m)"
    by (simp add: unat_of_nat take_bit_nat_eq_self del: of_nat_Suc)
  show "(of_nat (1 + length (snd m)) :: u32) \<le> MAX_MSG" using assms by (simp only: word_le_nat_alt u wf_msg_def)
  show "(of_nat (1 + length (snd m)) :: u32) \<noteq> 0" using u by (metis add_is_0 one_neq_zero unat_0)
qed

lemma read_msg_bytes:
  assumes "wf_msg m"
  shows "read_msg (msg_bytes m @ rest) = Some (m, rest)"
proof -
  obtain t payload where m: "m = (t, payload)" by (rule prod.exhaust)
  note l = msg_len [OF assms, unfolded m snd_conv]
  have e: "msg_bytes m @ rest = to_be 4 (of_nat (1 + length payload) :: u32) @ (t # payload) @ rest"
    by (simp add: msg_bytes_def m)
  show ?thesis
    unfolding read_msg_def e using l by (simp add: Let_def m not_less del: of_nat_Suc)
qed

lemma read_msg_shrinks: "read_msg bs = Some (m, rest) \<Longrightarrow> length rest < length bs"
  by (auto simp: read_msg_def Let_def unat_gt_0 split: if_splits)

interpretation fed: framed_codec msg_bytes read_msg wf_msg
  by unfold_locales (auto simp: read_msg_bytes read_msg_shrinks)

lemma write_msg_some: "wf_msg (t, payload) \<Longrightarrow> write_msg t payload = Some (msg_bytes (t, payload))"
  using msg_len(2) [of "(t, payload)"] by (simp add: write_msg_def not_less)

section \<open>The reader loop\<close>

text \<open>It reads until a read fails; then the link is removed and its writer stopped.\<close>

function link_loop ::
  "(queue \<Rightarrow> chan_result) \<Rightarrow> bytes \<Rightarrow> link_handle \<Rightarrow> hub \<Rightarrow> link_handle \<times> hub \<times> sink list" where
  "link_loop chan bs lh h =
     (case read_msg bs of
        None \<Rightarrow> (lh, h, [])
      | Some (m, rest) \<Rightarrow>
          (let (lh, h, sent) = link_read chan m lh h; (lh, h, sent') = link_loop chan rest lh h
           in (lh, h, sent @ sent')))"
  by pat_completeness auto
termination
  by (relation "measure (\<lambda>(_, bs, _). length bs)") (auto dest: read_msg_shrinks)

declare link_loop.simps [simp del]

fun link_reads ::
  "(queue \<Rightarrow> chan_result) \<Rightarrow> (u8 \<times> bytes) list \<Rightarrow> link_handle \<Rightarrow> hub \<Rightarrow> link_handle \<times> hub \<times> sink list" where
  "link_reads chan [] lh h = (lh, h, [])"
| "link_reads chan (m # ms) lh h =
     (let (lh, h, sent) = link_read chan m lh h; (lh, h, sent') = link_reads chan ms lh h
      in (lh, h, sent @ sent'))"

lemma link_loop_drain: "link_loop chan bs lh h = link_reads chan (fst (fed.drain bs)) lh h"
proof (induction chan bs lh h rule: link_loop.induct)
  case (1 chan bs lh h)
  show ?case
  proof (cases "read_msg bs")
    case None
    then show ?thesis by (simp add: link_loop.simps [of chan bs] fed.drain.simps [of bs])
  next
    case (Some mr)
    obtain m rest where mr: "mr = (m, rest)" by (rule prod.exhaust)
    obtain lh' h' sent where r: "link_read chan m lh h = (lh', h', sent)" by (rule prod_cases3)
    have "link_loop chan rest lh' h' = link_reads chan (fst (fed.drain rest)) lh' h'"
      by (rule 1 [OF Some mr [symmetric] r [symmetric] refl refl])
    with Some mr r show ?thesis
      by (simp add: link_loop.simps [of chan bs] fed.drain.simps [of bs] split_beta)
  qed
qed

lemma link_loop_msgs:
  assumes "\<And>m. m \<in> set ms \<Longrightarrow> wf_msg m"
  shows "link_loop chan (concat (map msg_bytes ms)) lh h = link_reads chan ms lh h"
proof -
  have "read_msg [] = None" by (simp add: read_msg_def)
  then show ?thesis using fed.drain_concat [where xs = ms and rest = "[]"] assms by (simp add: link_loop_drain)
qed

section \<open>Bands\<close>

lemma decode_loop_concat:
  "(\<And>b. b \<in> set bs \<Longrightarrow> length b = BAND_ID_LEN) \<Longrightarrow> decode_loop (length bs) (concat bs) = set bs"
  by (induction bs) auto

lemma decode_loop_bytes: "b \<in> decode_loop n bs \<Longrightarrow> set b \<subseteq> set bs"
  by (induction n bs rule: decode_loop.induct) (auto split: if_splits dest: in_set_takeD in_set_dropD)

lemma decode_bands_bytes: "b \<in> decode_bands bs \<Longrightarrow> set b \<subseteq> set bs"
  by (auto simp: decode_bands_def split: if_splits dest!: decode_loop_bytes dest: in_set_dropD)

lemma decode_encode_bands:
  assumes "length bs \<le> 65535" and "\<And>b. b \<in> set bs \<Longrightarrow> length b = BAND_ID_LEN"
  shows "decode_bands (encode_bands bs) = set bs"
  using assms decode_loop_concat [of bs]
  by (simp add: decode_bands_def encode_bands_def min_absorb1 unat_of_nat take_bit_nat_eq_self)

lemma length_concat_bands:
  "(\<And>b. b \<in> set bs \<Longrightarrow> length b = n) \<Longrightarrow> length (concat bs) = length bs * n"
  by (induction bs) auto

section \<open>A link from end to end\<close>

text \<open>What one end means to tell the other: its bands, or a frame of a band. The specification of a link applies
  these to the receiving hub directly.\<close>

datatype link_item = Advert "band_id list" | Relay band_id bytes

fun item_entry :: "link_item \<Rightarrow> band_id \<times> bytes" where
  "item_entry (Advert bs) = (BANDS_MARKER, encode_bands bs)"
| "item_entry (Relay bid fr) = (bid, fr)"

fun wf_item :: "link_item \<Rightarrow> bool" where
  "wf_item (Advert bs) \<longleftrightarrow> length bs \<le> 65535 \<and> (\<forall>b \<in> set bs. length b = BAND_ID_LEN)"
| "wf_item (Relay bid fr) \<longleftrightarrow>
     length bid = BAND_ID_LEN \<and> bid \<noteq> BANDS_MARKER \<and> length fr + BAND_ID_LEN + 5 \<le> unat MAX_MSG"

fun link_spec ::
  "(queue \<Rightarrow> chan_result) \<Rightarrow> link_item list \<Rightarrow> link_handle \<Rightarrow> hub \<Rightarrow> link_handle \<times> hub \<times> sink list" where
  "link_spec chan [] lh h = (lh, h, [])"
| "link_spec chan (Advert bs # items) lh h = link_spec chan items (lh\<lparr>lk_bands := set bs\<rparr>) h"
| "link_spec chan (Relay bid fr # items) lh h =
     (if lk_active lh
      then (let (h, sent) = link_frame chan bid fr h; (lh, h, sent') = link_spec chan items lh h in (lh, h, sent @ sent'))
      else link_spec chan items lh h)"

fun item_msg :: "link_item \<Rightarrow> u8 \<times> bytes" where
  "item_msg (Advert bs) = (T_BANDS, encode_bands bs)"
| "item_msg (Relay bid fr) = (T_RELAY, bid @ to_be 4 (of_nat (length fr) :: u32) @ fr)"

lemma wf_item_msg: "wf_item it \<Longrightarrow> wf_msg (item_msg it)"
proof (cases it)
  case (Advert bs)
  assume "wf_item it"
  then have "length bs \<le> 65535" "length (concat bs) = length bs * BAND_ID_LEN"
    using Advert by (auto intro: length_concat_bands)
  then show ?thesis by (simp add: Advert wf_msg_def encode_bands_def MAX_MSG_nat BAND_ID_LEN_def)
next
  case (Relay bid fr)
  assume "wf_item it"
  then show ?thesis by (simp add: Relay wf_msg_def)
qed

lemma link_write_item: "wf_item it \<Longrightarrow> link_write (item_entry it) = Some (msg_bytes (item_msg it))"
  using wf_item_msg [of it] by (cases it) (auto simp: link_write_def write_msg_some)

lemma link_read_advert:
  "wf_item (Advert bs) \<Longrightarrow> link_read chan (item_msg (Advert bs)) lh h = (lh\<lparr>lk_bands := set bs\<rparr>, h, [])"
  by (simp add: link_read_def decode_encode_bands)

lemma link_read_relay:
  assumes "wf_item (Relay bid fr)"
  shows "link_read chan (item_msg (Relay bid fr)) lh h =
    (if lk_active lh then (let (h, sent) = link_frame chan bid fr h in (lh, h, sent)) else (lh, h, []))"
proof -
  have n: "length bid = BAND_ID_LEN" "length fr < 2 ^ 32" using assms by (simp_all add: MAX_MSG_nat)
  then have "unat (of_nat (length fr) :: u32) = length fr" by (simp add: unat_of_nat take_bit_nat_eq_self)
  then show ?thesis using n by (simp add: link_read_def T_RELAY_def T_BANDS_def Let_def)
qed

lemma link_reads_spec:
  "(\<And>it. it \<in> set items \<Longrightarrow> wf_item it) \<Longrightarrow> link_reads chan (map item_msg items) lh h = link_spec chan items lh h"
proof (induction items arbitrary: lh h)
  case (Cons it items)
  have w: "wf_item it" using Cons.prems by simp
  have IH: "link_reads chan (map item_msg items) lh h = link_spec chan items lh h" for lh h
    by (rule Cons.IH) (simp add: Cons.prems)
  show ?case
  proof (cases it)
    case (Advert bs)
    with w link_read_advert [of bs chan lh h] IH show ?thesis by (simp add: split_beta del: wf_item.simps item_msg.simps)
  next
    case (Relay bid fr)
    with w link_read_relay [of bid fr chan lh h] IH show ?thesis
      by (simp add: split_beta Let_def del: wf_item.simps item_msg.simps)
  qed
qed simp

text \<open>C11. A link carries exactly what its sender queued. Whatever band advertisements of at most 65535 bands, and
  frames that fit a message and are of a band other than the marker of advertisements, one end's writer takes from its queue, each is written, and the reader at the other end, run on those bytes, has the effect of
  applying them in order: an advertisement replaces the bands the link is known to want, a frame is delivered to
  the local peers of the band it was sent in if the link is active, and nothing happens for it otherwise.\<close>

theorem federation_link_refines:
  assumes "\<And>it. it \<in> set items \<Longrightarrow> wf_item it"
  shows "(\<forall>it \<in> set items. link_write (item_entry it) \<noteq> None) \<and>
    link_loop chan (concat (map (\<lambda>it. the (link_write (item_entry it))) items)) lh h = link_spec chan items lh h"
proof -
  have w: "\<And>it. it \<in> set items \<Longrightarrow> link_write (item_entry it) = Some (msg_bytes (item_msg it))"
    by (simp add: assms link_write_item)
  then have e: "map (\<lambda>it. the (link_write (item_entry it))) items = map msg_bytes (map item_msg items)" by simp
  have "wf_msg m" if "m \<in> set (map item_msg items)" for m using that assms wf_item_msg by auto
  then have "link_loop chan (concat (map msg_bytes (map item_msg items))) lh h = link_reads chan (map item_msg items) lh h"
    by (rule link_loop_msgs)
  also have "\<dots> = link_spec chan items lh h" by (rule link_reads_spec [OF assms])
  finally show ?thesis unfolding e using w by simp
qed

definition demo_link :: link_handle where
  "demo_link = \<lparr>lk_id = 1, lk_queue = 7, lk_bands = {replicate 16 8}, lk_active = True\<rparr>"

definition demo_items :: "link_item list" where
  "demo_items = [Advert [replicate 16 5], Relay (replicate 16 5) (demo_frame 6 9)]"

theorem federation_link_refines_witness:
  "snd (snd (link_loop (\<lambda>_. ChanSent) (concat (map (\<lambda>it. the (link_write (item_entry it))) demo_items)) demo_link demo_hub3)) =
     [SinkConn 1]"
proof -
  have "wf_item it" if "it \<in> set demo_items" for it
    using that by (auto simp: demo_items_def demo_frame_def MAX_MSG_nat BAND_ID_LEN_def BANDS_MARKER_def replicate_eq_replicate)
  then have "link_loop (\<lambda>_. ChanSent) (concat (map (\<lambda>it. the (link_write (item_entry it))) demo_items)) demo_link demo_hub3 =
      link_spec (\<lambda>_. ChanSent) demo_items demo_link demo_hub3"
    using federation_link_refines [of demo_items] by blast
  moreover have "snd (snd (link_spec (\<lambda>_. ChanSent) demo_items demo_link demo_hub3)) = [SinkConn 1]" by code_simp
  ultimately show ?thesis by simp
qed

text \<open>C37. The shared secret does not authenticate a link. A hub writes its secret before it has read anything, so a
  client that knows nothing and sends the bytes it receives back to the hub is accepted, as an active link where
  the hub is configured so, under any secret.\<close>

theorem federation_echo_accepted:
  assumes "length secret < unat MAX_MSG"
  shows "\<exists>hello. (\<forall>input. fst (link_open secret active q input s) = hello) \<and>
    (\<exists>s' lh rest. link_open secret active q (hello @ tail) s = (hello, Some (s', lh, rest)) \<and>
       rest = tail \<and> lk_active lh = active \<and> lh \<in> set (ls_links s'))"
proof -
  have w: "wf_msg (T_HELLO, str_bytes secret)" using assms by (simp add: wf_msg_def str_bytes_def)
  show ?thesis
    by (rule exI [of _ "msg_bytes (T_HELLO, str_bytes secret)"])
      (use w in \<open>auto simp: link_open_def write_msg_some read_msg_bytes link_accepts_def Let_def link_add_def
         split: option.splits\<close>)
qed

theorem federation_echo_accepted_witness:
  "\<exists>hello s' lh. link_open ''secret'' True 3 (hello @ [9]) link_set_new = (hello, Some (s', lh, [9])) \<and> lk_active lh"
proof -
  have "length ''secret'' < unat MAX_MSG" by (simp add: MAX_MSG_nat)
  from federation_echo_accepted [OF this, of True 3 link_set_new "[9]"] show ?thesis by auto
qed

text \<open>C38. A frame of the band whose id is all ones is not relayed: the writer takes it for an advertisement, and the
  far hub replaces the bands it knows the link to want by what the frame decodes to. Frames of every band not
  in there no longer cross the link towards the hub that sent it.\<close>

theorem marker_band_clobbers_link:
  assumes "length fr < unat MAX_MSG"
  shows "\<exists>bs. link_write (BANDS_MARKER, fr) = Some bs \<and>
    link_loop chan bs lh h = (lh\<lparr>lk_bands := decode_bands fr\<rparr>, h, []) \<and>
    (\<forall>bid. bid \<notin> decode_bands fr \<longrightarrow>
       fan_egress chan bid \<lparr>ls_links = [fst (link_loop chan bs lh h)], ls_next = n\<rparr> = [])"
proof -
  have w: "wf_msg (T_BANDS, fr)" using assms by (simp add: wf_msg_def)
  then have "link_loop chan (msg_bytes (T_BANDS, fr)) lh h = (lh\<lparr>lk_bands := decode_bands fr\<rparr>, h, [])"
    using link_loop_msgs [of "[(T_BANDS, fr)]"] by (simp add: link_read_def)
  with w show ?thesis by (simp add: link_write_def write_msg_some fan_egress_def)
qed

theorem marker_band_clobbers_link_witness:
  "replicate 16 8 \<in> lk_bands demo_link \<and>
   (\<exists>bs. link_write (BANDS_MARKER, BANDS_MARKER @ [0, 0, 1] @ replicate 24 0) = Some bs \<and>
     fan_egress (\<lambda>_. ChanSent) (replicate 16 8)
       \<lparr>ls_links = [fst (link_loop (\<lambda>_. ChanSent) bs demo_link demo_hub3)], ls_next = 2\<rparr> = [])"
proof -
  have "length (BANDS_MARKER @ [0, 0, 1] @ replicate 24 0) < unat MAX_MSG" by (simp add: BANDS_MARKER_def BAND_ID_LEN_def MAX_MSG_nat)
  from marker_band_clobbers_link [OF this]
  obtain bs where "link_write (BANDS_MARKER, BANDS_MARKER @ [0, 0, 1] @ replicate 24 0) = Some bs"
    "\<And>bid. bid \<notin> decode_bands (BANDS_MARKER @ [0, 0, 1] @ replicate 24 0) \<Longrightarrow>
       fan_egress (\<lambda>_. ChanSent) bid \<lparr>ls_links = [fst (link_loop (\<lambda>_. ChanSent) bs demo_link demo_hub3)], ls_next = 2\<rparr> = []"
    by blast
  moreover have "replicate 16 8 \<notin> decode_bands (BANDS_MARKER @ [0, 0, 1] @ replicate 24 0)"
    using decode_bands_bytes [of "replicate 16 8" "BANDS_MARKER @ [0, 0, 1] @ replicate 24 0"] by (auto simp: BANDS_MARKER_def)
  ultimately show ?thesis by (auto simp: demo_link_def)
qed

end
