(* ===== verification/Hub_Wt.thy ===== *)
theory Hub_Wt
  imports Hub_Udp Codec "HOL-Library.Sublist"
begin

text \<open>
  \<open>rust/telesthitium/src/wt.rs\<close>: a WebTransport session of the hub. Frames leave on the carrier their channel
  type asks for: a datagram, one reliable stream per channel id, or one stream for everything else. Frames on
  streams have a two-byte length in front. The QUIC library is a parameter: whether a stream opens and under
  which number, how many bytes a stream takes before it fails, the size of the largest datagram.
\<close>

section \<open>Frames on streams\<close>

definition framed_bytes :: "bytes \<Rightarrow> bytes" where
  "framed_bytes fr = to_be 2 (of_nat (length fr) :: u16) @ fr"

text \<open>The library's \<open>write_all\<close>, by what the stream takes: everything, or \<open>n\<close> more bytes and then an error, so that a
  failed write leaves a part of the bytes behind.\<close>

definition write_all :: "nat option \<Rightarrow> bytes \<Rightarrow> bool \<times> bytes" where
  "write_all room bs =
     (case room of None \<Rightarrow> (True, bs) | Some n \<Rightarrow> if n < length bs then (False, take n bs) else (True, bs))"

text \<open>Whether the stream is to be kept, and the bytes written: the length, then the frame. A frame that is too long is
  dropped and the stream kept.\<close>

definition write_framed :: "nat option \<Rightarrow> bytes \<Rightarrow> bool \<times> bytes" where
  "write_framed room fr =
     (if length fr > 65535 then (True, [])
      else let len = to_be 2 (of_nat (length fr) :: u16) in
        case write_all room len of
          (False, bs) \<Rightarrow> (False, bs)
        | (True, bs) \<Rightarrow>
            (let (ok, bs') = write_all (map_option (\<lambda>n. n - length len) room) fr in (ok, bs @ bs')))"

definition read_one_frame :: "bytes \<Rightarrow> (bytes \<times> bytes) option" where
  "read_one_frame bs =
     (if length bs < 2 then None
      else let len = unat (from_be (take 2 bs) :: u16); rest = drop 2 bs
           in if length rest < len then None else Some (take len rest, drop len rest))"

section \<open>Egress\<close>

definition MAX_EGRESS_CHANNELS :: nat where "MAX_EGRESS_CHANNELS = 64"

type_synonym stream_no = nat

record wt_net =
  wn_max_datagram :: "nat option"
  wn_datagram :: bool
  wn_open :: "stream_no option"
  wn_write :: "stream_no \<Rightarrow> nat option"

record wt_egress =
  we_channels :: "(u16, stream_no) hashmap"
  we_order :: "u16 list"
  we_control :: "stream_no option"

definition wt_egress_new :: wt_egress where
  "wt_egress_new = \<lparr>we_channels = [], we_order = [], we_control = None\<rparr>"

datatype carrier = Datagram bytes | OnStream stream_no bytes

fun evict_channels :: "u16 list \<Rightarrow> (u16, stream_no) hashmap \<Rightarrow> u16 list \<times> (u16, stream_no) hashmap" where
  "evict_channels [] m = ([], m)"
| "evict_channels (old # ord) m =
     (if length m \<ge> MAX_EGRESS_CHANNELS then evict_channels ord (hm_remove old m) else (old # ord, m))"

definition open_channel :: "wt_net \<Rightarrow> u16 \<Rightarrow> wt_egress \<Rightarrow> wt_egress" where
  "open_channel N cid e =
     (if map_of (we_channels e) cid \<noteq> None then e
      else let (ord, m) = evict_channels (we_order e) (we_channels e) in
        case wn_open N of
          None \<Rightarrow> e\<lparr>we_order := ord, we_channels := m\<rparr>
        | Some s \<Rightarrow> e\<lparr>we_order := ord @ [cid], we_channels := hm_insert cid s m\<rparr>)"

definition egress_channel :: "wt_net \<Rightarrow> u16 \<Rightarrow> bytes \<Rightarrow> wt_egress \<Rightarrow> wt_egress \<times> carrier list" where
  "egress_channel N cid fr e =
     (let e = open_channel N cid e in
      case map_of (we_channels e) cid of
        None \<Rightarrow> (e, [])
      | Some s \<Rightarrow>
          (case write_framed (wn_write N s) fr of
             (True, bs) \<Rightarrow> (e, [OnStream s bs])
           | (False, bs) \<Rightarrow> (e\<lparr>we_channels := hm_remove cid (we_channels e)\<rparr>, [OnStream s bs])))"

definition egress_control :: "wt_net \<Rightarrow> bytes \<Rightarrow> wt_egress \<Rightarrow> wt_egress \<times> carrier list" where
  "egress_control N fr e =
     (let e = (if we_control e = None then e\<lparr>we_control := wn_open N\<rparr> else e) in
      case we_control e of
        None \<Rightarrow> (e, [])
      | Some s \<Rightarrow>
          (case write_framed (wn_write N s) fr of
             (True, bs) \<Rightarrow> (e, [OnStream s bs])
           | (False, bs) \<Rightarrow> (e\<lparr>we_control := None\<rparr>, [OnStream s bs])))"

definition egress_frame :: "wt_net \<Rightarrow> bytes \<Rightarrow> wt_egress \<Rightarrow> wt_egress \<times> carrier list" where
  "egress_frame N fr e =
     (case frame_route_info fr of
        None \<Rightarrow> (e, [])
      | Some info \<Rightarrow>
          (case ri_channel_type info of
             Some Stream \<Rightarrow>
               if (case wn_max_datagram N of None \<Rightarrow> False | Some n \<Rightarrow> length fr > n) then (e, [])
               else (e, if wn_datagram N then [Datagram fr] else [])
           | Some Channel \<Rightarrow> egress_channel N (ri_channel_id info) fr e
           | _ \<Rightarrow> egress_control N fr e))"

fun egress_writer :: "(wt_net \<times> bytes) list \<Rightarrow> wt_egress \<Rightarrow> wt_egress \<times> carrier list" where
  "egress_writer [] e = (e, [])"
| "egress_writer ((N, fr) # xs) e =
     (let (e, out) = egress_frame N fr e; (e, outs) = egress_writer xs e in (e, out @ outs))"

section \<open>Framing lemmas\<close>

lemma read_framed_bytes:
  assumes "length fr \<le> 65535"
  shows "read_one_frame (framed_bytes fr @ rest) = Some (fr, rest)"
proof -
  have "unat (of_nat (length fr) :: u16) = length fr" using assms by (simp add: unat_of_nat take_bit_nat_eq_self)
  then show ?thesis by (simp add: read_one_frame_def framed_bytes_def)
qed

lemma read_one_frame_shrinks: "read_one_frame bs = Some (fr, rest) \<Longrightarrow> length rest < length bs"
  by (auto simp: read_one_frame_def Let_def split: if_splits)

interpretation wtf: framed_codec framed_bytes read_one_frame "\<lambda>fr. length fr \<le> 65535"
  by unfold_locales (auto simp: read_framed_bytes read_one_frame_shrinks)

section \<open>Ingress\<close>

text \<open>The reader of one stream: each frame is treated as any frame of the session; \<open>clock i\<close> is the time at
  which the \<open>i\<close>-th frame arrives. It stops when a read fails.\<close>

function read_framed_stream ::
  "(queue \<Rightarrow> chan_result) \<Rightarrow> (nat \<Rightarrow> instant) \<Rightarrow> nat \<Rightarrow> band_id \<Rightarrow> u64 \<Rightarrow> bytes \<Rightarrow> hub \<Rightarrow> hub \<times> forward_result option list" where
  "read_framed_stream chan clock i bid cid bs h =
     (case read_one_frame bs of
        None \<Rightarrow> (h, [])
      | Some (fr, rest) \<Rightarrow>
          (let (h, f) = conn_frame chan (clock i) bid cid fr h;
               (h, fs) = read_framed_stream chan clock (Suc i) bid cid rest h
           in (h, f # fs)))"
  by pat_completeness auto
termination
  by (relation "measure (\<lambda>(_, _, _, _, _, bs, _). length bs)") (auto dest: read_one_frame_shrinks)

section \<open>What a stream carries\<close>

definition stream_bytes :: "stream_no \<Rightarrow> carrier list \<Rightarrow> bytes" where
  "stream_bytes s outs = concat (map (\<lambda>c. case c of OnStream s' bs \<Rightarrow> if s' = s then bs else [] | Datagram _ \<Rightarrow> []) outs)"

lemma stream_bytes_simps [simp]:
  "stream_bytes s [] = []" "stream_bytes s (xs @ ys) = stream_bytes s xs @ stream_bytes s ys"
  "stream_bytes s (OnStream s' bs # xs) = (if s' = s then bs else []) @ stream_bytes s xs"
  "stream_bytes s (Datagram fr # xs) = stream_bytes s xs"
  by (simp_all add: stream_bytes_def)

text \<open>Which stream a frame belongs on: that of its channel id, or the common one.\<close>

definition stream_kind :: "bytes \<Rightarrow> u16 option" where
  "stream_kind fr =
     (case frame_route_info fr of
        None \<Rightarrow> None
      | Some info \<Rightarrow> if ri_channel_type info = Some Channel then Some (ri_channel_id info) else None)"

text \<open>The streams in use, under \<open>own\<close>: what each stream ever opened was opened for.\<close>

definition egress_owned :: "(stream_no \<rightharpoonup> u16 option) \<Rightarrow> wt_egress \<Rightarrow> bool" where
  "egress_owned own e \<longleftrightarrow>
     (\<forall>cid s. map_of (we_channels e) cid = Some s \<longrightarrow> own s = Some (Some cid)) \<and>
     (\<forall>s. we_control e = Some s \<longrightarrow> own s = Some None)"

definition egress_bounded :: "wt_egress \<Rightarrow> bool" where
  "egress_bounded e \<longleftrightarrow>
     wf_hm (we_channels e) \<and> length (we_channels e) \<le> MAX_EGRESS_CHANNELS \<and> fst ` set (we_channels e) \<subseteq> set (we_order e)"

lemma evict_channels_sub:
  "evict_channels ord m = (ord', m') \<Longrightarrow> map_of m' k = Some v \<Longrightarrow> map_of m k = Some v"
  by (induction ord m arbitrary: ord' m' rule: evict_channels.induct) (auto split: if_splits simp: delete_conv')

lemma evict_channels_room:
  assumes "wf_hm m" "length m \<le> MAX_EGRESS_CHANNELS" "fst ` set m \<subseteq> set ord" "evict_channels ord m = (ord', m')"
  shows "wf_hm m' \<and> length m' < MAX_EGRESS_CHANNELS \<and> fst ` set m' \<subseteq> set ord'"
  using assms
proof (induction ord m arbitrary: ord' m' rule: evict_channels.induct)
  case (1 m)
  then show ?case by (simp add: MAX_EGRESS_CHANNELS_def)
next
  case (2 old ord m)
  have r: "wf_hm (hm_remove old m)" "length (hm_remove old m) \<le> length m" "fst ` set (hm_remove old m) \<subseteq> fst ` set m - {old}"
    using 2(2) by (auto simp: set_hm_remove length_hm_remove)
  show ?case
  proof (cases "length m \<ge> MAX_EGRESS_CHANNELS")
    case True
    have "fst ` set (hm_remove old m) \<subseteq> set ord" using r(3) 2(4) by auto
    then show ?thesis using 2(1) [OF True r(1)] 2(3,5) r(2) True by simp
  next
    case False
    with 2 show ?thesis by auto
  qed
qed

lemma egress_control_bounded: "egress_bounded (fst (egress_control N fr e)) = egress_bounded e"
  by (auto simp: egress_control_def Let_def egress_bounded_def split: option.split prod.split bool.split)

lemma open_channel_bounded: "egress_bounded e \<Longrightarrow> egress_bounded (open_channel N cid e)"
proof -
  assume e: "egress_bounded e"
  obtain ord m where x: "evict_channels (we_order e) (we_channels e) = (ord, m)" by fastforce
  have "wf_hm m \<and> length m < MAX_EGRESS_CHANNELS \<and> fst ` set m \<subseteq> set ord"
    using evict_channels_room [OF _ _ _ x] e by (simp add: egress_bounded_def)
  then show ?thesis using e
    by (auto simp: open_channel_def x egress_bounded_def length_hm_insert set_hm_insert split: option.split)
qed

lemma egress_channel_bounded: "egress_bounded e \<Longrightarrow> egress_bounded (fst (egress_channel N cid fr e))"
proof -
  assume "egress_bounded e"
  then have "egress_bounded (open_channel N cid e)" by (rule open_channel_bounded)
  then show ?thesis
    by (auto simp: egress_channel_def Let_def egress_bounded_def set_hm_remove length_hm_remove
        split: option.split prod.split bool.split)
qed

lemma egress_frame_bounded: "egress_bounded e \<Longrightarrow> egress_bounded (fst (egress_frame N fr e))"
  by (auto simp: egress_frame_def egress_channel_bounded egress_control_bounded split: option.split channel_type.split)

lemma egress_writer_bounded: "egress_bounded e \<Longrightarrow> egress_bounded (fst (egress_writer xs e))"
proof (induction xs arbitrary: e)
  case (Cons x xs)
  then show ?case using egress_frame_bounded [of e "fst x" "snd x"] by (cases x) (simp add: split_beta Let_def)
qed simp

text \<open>The streams the session still writes to.\<close>

definition in_use :: "wt_egress \<Rightarrow> stream_no \<Rightarrow> bool" where
  "in_use e s \<longleftrightarrow> (\<exists>cid. map_of (we_channels e) cid = Some s) \<or> we_control e = Some s"

text \<open>One frame: it goes out whole on a stream of its kind, or a part of it does and the stream is given up, or it goes
  out on no stream.\<close>

definition placed :: "(stream_no \<rightharpoonup> u16 option) \<Rightarrow> bytes \<Rightarrow> wt_egress \<Rightarrow> carrier list \<Rightarrow> bool" where
  "placed own fr e out \<longleftrightarrow> (\<forall>s. stream_bytes s out = []) \<or>
     (\<exists>s bs. out = [OnStream s bs] \<and> own s = Some (stream_kind fr) \<and> length fr \<le> 65535 \<and>
        (bs = framed_bytes fr \<or> strict_prefix bs (framed_bytes fr) \<and> \<not> in_use e s))"

definition owns_more :: "wt_net \<Rightarrow> (stream_no \<rightharpoonup> u16 option) \<Rightarrow> (stream_no \<rightharpoonup> u16 option) \<Rightarrow> bool" where
  "owns_more N own own' \<longleftrightarrow> own \<subseteq>\<^sub>m own' \<and> dom own' \<subseteq> dom own \<union> set_option (wn_open N)"

lemma owns_more_refl [simp]: "owns_more N own own"
  by (simp add: owns_more_def)

lemma owns_more_open: "wn_open N = Some s \<Longrightarrow> own s = None \<Longrightarrow> owns_more N own (own(s \<mapsto> k))"
  by (auto simp: owns_more_def map_le_def)

lemma open_channel_owned:
  assumes "egress_owned own e" "\<And>s. wn_open N = Some s \<Longrightarrow> own s = None"
  shows "\<exists>own'. owns_more N own own' \<and> egress_owned own' (open_channel N cid e)"
proof -
  obtain ord m where x: "evict_channels (we_order e) (we_channels e) = (ord, m)" by fastforce
  note sub = evict_channels_sub [OF x]
  show ?thesis
  proof (cases "map_of (we_channels e) cid = None \<and> wn_open N \<noteq> None")
    case True
    then obtain s where s: "wn_open N = Some s" by blast
    have "map_of m k \<noteq> Some s" for k using sub [of k s] assms(1) assms(2) [OF s] by (auto simp: egress_owned_def)
    then have "egress_owned (own(s \<mapsto> Some cid)) (open_channel N cid e)"
      using assms True s sub by (auto simp: egress_owned_def open_channel_def x update_conv')
    then show ?thesis using owns_more_open [OF s] assms(2) [OF s] by blast
  next
    case False
    then have "egress_owned own (open_channel N cid e)"
      using assms(1) sub by (auto simp: egress_owned_def open_channel_def x)
    then show ?thesis by (intro exI [of _ own]) simp
  qed
qed

lemma write_framed_cases:
  assumes "write_framed room fr = (ok, bs)"
  obtains "ok" "bs = []" | "ok" "length fr \<le> 65535" "bs = framed_bytes fr"
  | "\<not> ok" "length fr \<le> 65535" "strict_prefix bs (framed_bytes fr)"
proof -
  let ?len = "to_be 2 (of_nat (length fr) :: u16)"
  have part: "strict_prefix (take n xs) xs" if "n < length xs" for n and xs :: bytes
    using that by (metis length_take less_irrefl min.absorb4 strict_prefix_def take_is_prefix)
  have "strict_prefix (?len @ bs') (framed_bytes fr)" if "strict_prefix bs' fr" for bs'
    using that by (simp add: framed_bytes_def strict_prefix_def)
  moreover have "strict_prefix bs' (framed_bytes fr)" if "strict_prefix bs' ?len" for bs'
    using that by (auto simp: framed_bytes_def strict_prefix_def)
  ultimately show thesis
    using assms that part
    by (auto simp: write_framed_def write_all_def Let_def framed_bytes_def split: if_splits option.splits)
qed

lemma placed_nothing [simp]: "placed own fr e []" "placed own fr e [Datagram fr']"
  by (simp_all add: placed_def)

lemma write_framed_placed:
  assumes "write_framed room fr = (ok, bs)" "own s = Some (stream_kind fr)" "\<not> ok \<Longrightarrow> \<not> in_use e s"
  shows "placed own fr e [OnStream s bs]"
  using assms(1) by (rule write_framed_cases) (use assms(2,3) in \<open>auto simp: placed_def\<close>)

lemma egress_channel_owned:
  assumes "egress_owned own e" "\<And>s. wn_open N = Some s \<Longrightarrow> own s = None" "stream_kind fr = Some cid"
    and out: "egress_channel N cid fr e = (e', out)"
  shows "\<exists>own'. owns_more N own own' \<and> egress_owned own' e' \<and> placed own' fr e' out"
proof -
  obtain own' where o: "owns_more N own own'" "egress_owned own' (open_channel N cid e)"
    using open_channel_owned [OF assms(1,2)] by blast
  have "egress_owned own' e'"
    using o(2) out by (auto simp: egress_channel_def Let_def egress_owned_def delete_conv' split: option.splits prod.splits bool.splits if_splits)
  moreover have "placed own' fr e' out"
  proof (cases "map_of (we_channels (open_channel N cid e)) cid")
    case None
    then show ?thesis using out by (auto simp: egress_channel_def Let_def)
  next
    case (Some s)
    obtain ok bs where w: "write_framed (wn_write N s) fr = (ok, bs)" by fastforce
    have "out = [OnStream s bs]" using out Some w by (auto simp: egress_channel_def Let_def split: bool.splits)
    moreover have k: "own' s = Some (stream_kind fr)" using o(2) Some assms(3) by (simp add: egress_owned_def)
    moreover have "\<not> in_use e' s" if "\<not> ok"
    proof -
      let ?e = "open_channel N cid e"
      have "e' = ?e\<lparr>we_channels := hm_remove cid (we_channels ?e)\<rparr>"
        using that out Some w by (auto simp: egress_channel_def Let_def)
      then show ?thesis using o(2) k assms(3) unfolding in_use_def egress_owned_def
        by (fastforce simp: delete_conv' split: if_splits)
    qed
    ultimately show ?thesis using write_framed_placed [OF w] by simp
  qed
  ultimately show ?thesis using o(1) by blast
qed

lemma egress_owned_drop: "egress_owned own e \<Longrightarrow> egress_owned own (e\<lparr>we_control := None\<rparr>)"
  by (simp add: egress_owned_def)

lemma egress_control_owned:
  assumes "egress_owned own e" "\<And>s. wn_open N = Some s \<Longrightarrow> own s = None" "stream_kind fr = None"
    and out: "egress_control N fr e = (e', out)"
  shows "\<exists>own'. owns_more N own own' \<and> egress_owned own' e' \<and> placed own' fr e' out"
proof -
  define f where "f = (if we_control e = None then e\<lparr>we_control := wn_open N\<rparr> else e)"
  define own' where "own' = (case wn_open N of Some s \<Rightarrow> if we_control e = None then own(s \<mapsto> None) else own | None \<Rightarrow> own)"
  have m: "owns_more N own own'" using assms(2) by (auto simp: own'_def owns_more_open split: option.split)
  have o: "egress_owned own' f" using assms(1,2) by (auto simp: f_def own'_def egress_owned_def split: option.splits)
  show ?thesis
  proof (cases "we_control f")
    case None
    then have "e' = f" "out = []" using out by (auto simp: egress_control_def Let_def f_def [symmetric])
    then show ?thesis using m o by auto
  next
    case (Some s)
    obtain ok bs where w: "write_framed (wn_write N s) fr = (ok, bs)" by fastforce
    have e': "e' = (if ok then f else f\<lparr>we_control := None\<rparr>)" "out = [OnStream s bs]"
      using out Some w by (auto simp: egress_control_def Let_def f_def [symmetric] split: bool.splits)
    have "own' s = Some (stream_kind fr)" using o Some assms(3) by (simp add: egress_owned_def)
    moreover have "\<not> in_use e' s" if "\<not> ok" using that o Some e'(1) by (auto simp: in_use_def egress_owned_def)
    ultimately have "placed own' fr e' out" using write_framed_placed [OF w] e'(2) by simp
    moreover have "egress_owned own' e'" using o e'(1) by (simp add: egress_owned_drop)
    ultimately show ?thesis using m by blast
  qed
qed

lemma egress_frame_owned:
  assumes "egress_owned own e" "\<And>s. wn_open N = Some s \<Longrightarrow> own s = None" "egress_frame N fr e = (e', out)"
  shows "\<exists>own'. owns_more N own own' \<and> egress_owned own' e' \<and> placed own' fr e' out"
proof (cases "frame_route_info fr")
  case None
  with assms show ?thesis by (intro exI [of _ own]) (auto simp: egress_frame_def)
next
  case (Some info)
  consider "ri_channel_type info = Some Channel" | "ri_channel_type info = Some Stream"
    | "ri_channel_type info \<noteq> Some Channel" "ri_channel_type info \<noteq> Some Stream" by blast
  then show ?thesis
  proof cases
    case 1
    then show ?thesis using egress_channel_owned [where own = own and e = e and N = N and fr = fr and cid = "ri_channel_id info"] assms Some
      by (simp add: egress_frame_def stream_kind_def)
  next
    case 2
    then show ?thesis using assms(1,3) Some
      by (intro exI [of _ own]) (auto simp: egress_frame_def split: if_splits)
  next
    case 3
    then have "egress_control N fr e = (e', out)" "stream_kind fr = None"
      using Some assms(3) by (auto simp: egress_frame_def stream_kind_def split: option.splits channel_type.splits)
    then show ?thesis using egress_control_owned [where own = own and e = e and N = N and fr = fr] assms by simp
  qed
qed

definition opened :: "(wt_net \<times> bytes) list \<Rightarrow> stream_no list" where
  "opened xs = List.map_filter (\<lambda>x. wn_open (fst x)) xs"

lemma opened_Cons: "opened (x # xs) = (case wn_open (fst x) of None \<Rightarrow> opened xs | Some s \<Rightarrow> s # opened xs)"
  by (simp add: opened_def map_filter_simps split: option.split)

text \<open>A stream that was given up is never written to again.\<close>

lemma open_channel_given_up: "\<not> in_use e s \<Longrightarrow> wn_open N \<noteq> Some s \<Longrightarrow> \<not> in_use (open_channel N cid e) s"
  using evict_channels_sub [of "we_order e" "we_channels e"]
  by (fastforce simp: in_use_def open_channel_def update_conv' split: option.splits prod.splits if_splits)

lemma egress_frame_given_up:
  assumes "egress_frame N fr e = (e', out)" "\<not> in_use e s" "wn_open N \<noteq> Some s"
  shows "\<not> in_use e' s \<and> stream_bytes s out = []"
proof -
  have "\<not> in_use e' s \<and> stream_bytes s out = []" if "egress_channel N cid fr e = (e', out)" for cid
    using that open_channel_given_up [OF assms(2,3), of cid]
    by (auto simp: egress_channel_def Let_def in_use_def delete_conv' split: option.splits prod.splits bool.splits if_splits)
  moreover have "\<not> in_use e' s \<and> stream_bytes s out = []" if "egress_control N fr e = (e', out)"
    using that assms(2,3)
    by (auto simp: egress_control_def Let_def in_use_def split: option.splits prod.splits bool.splits if_splits)
  ultimately show ?thesis
    using assms(1,2) by (auto simp: egress_frame_def split: option.splits channel_type.splits if_splits)
qed

lemma egress_writer_given_up:
  assumes "egress_writer xs e = (e', outs)" "\<not> in_use e s" "s \<notin> set (opened xs)"
  shows "\<not> in_use e' s \<and> stream_bytes s outs = []"
  using assms
proof (induction xs arbitrary: e outs)
  case (Cons x xs)
  obtain N fr where x: "x = (N, fr)" by (rule prod.exhaust)
  obtain e1 out where f: "egress_frame N fr e = (e1, out)" by fastforce
  obtain outs' where w: "egress_writer xs e1 = (e', outs')" "outs = out @ outs'"
    using Cons.prems(1) by (auto simp: x f split: prod.splits)
  have "wn_open N \<noteq> Some s" "s \<notin> set (opened xs)" using Cons.prems(3) by (auto simp: x opened_Cons split: option.splits)
  with Cons.IH [OF w(1)] egress_frame_given_up [OF f Cons.prems(2)] w(2) show ?case by simp
qed simp

text \<open>What a stream carries of the frames given: whole frames of one kind, in order, and at most a part of one more,
  after which the stream is given up.\<close>

definition stream_log :: "u16 option option \<Rightarrow> bytes list \<Rightarrow> bool \<Rightarrow> bytes list \<Rightarrow> bytes \<Rightarrow> bool" where
  "stream_log kind given used frs rest \<longleftrightarrow>
     (\<forall>f \<in> set frs. length f \<le> 65535 \<and> kind = Some (stream_kind f)) \<and>
     (if rest = [] then subseq frs given
      else \<not> used \<and> (\<exists>fr. subseq (frs @ [fr]) given \<and> kind = Some (stream_kind fr) \<and> length fr \<le> 65535 \<and>
        strict_prefix rest (framed_bytes fr)))"

lemma stream_log_skip: "stream_log k given u frs rest \<Longrightarrow> stream_log k (fr # given) u frs rest"
  by (auto simp: stream_log_def split: if_splits)

lemma stream_log_whole:
  "stream_log k given u frs rest \<Longrightarrow> length fr \<le> 65535 \<Longrightarrow> k = Some (stream_kind fr) \<Longrightarrow> stream_log k (fr # given) u (fr # frs) rest"
  by (auto simp: stream_log_def split: if_splits)

lemma stream_log_part:
  "length fr \<le> 65535 \<Longrightarrow> k = Some (stream_kind fr) \<Longrightarrow> strict_prefix rest (framed_bytes fr) \<Longrightarrow> stream_log k (fr # given) False [] rest"
  by (auto simp: stream_log_def intro!: exI [of _ fr])

lemma egress_writer_placed:
  assumes "egress_owned own e" "distinct (opened xs)" "set (opened xs) \<inter> dom own = {}" "egress_writer xs e = (e', outs)"
  shows "\<exists>own'. own \<subseteq>\<^sub>m own' \<and>
    (\<forall>s. \<exists>frs rest. stream_log (own' s) (map snd xs) (in_use e' s) frs rest \<and>
       stream_bytes s outs = concat (map framed_bytes frs) @ rest)"
  using assms
proof (induction xs arbitrary: own e outs)
  case Nil
  then show ?case by (intro exI [of _ own] conjI allI exI [of _ "[]"]) (auto simp: stream_log_def)
next
  case (Cons x xs)
  obtain N fr where x: "x = (N, fr)" by (rule prod.exhaust)
  obtain e1 out where f: "egress_frame N fr e = (e1, out)" by fastforce
  obtain outs' where w: "egress_writer xs e1 = (e', outs')" "outs = out @ outs'"
    using Cons.prems(4) by (auto simp: x f split: prod.splits)
  have fresh: "\<And>s. wn_open N = Some s \<Longrightarrow> own s = None" using Cons.prems(3) by (auto simp: x opened_Cons)
  obtain own1 where o: "owns_more N own own1" "egress_owned own1 e1" "placed own1 fr e1 out"
    using egress_frame_owned [OF Cons.prems(1) fresh f] by blast
  have "set (opened xs) \<inter> (dom own \<union> set_option (wn_open N)) = {}" and d: "distinct (opened xs)"
    using Cons.prems(2,3) by (auto simp: x opened_Cons split: option.splits)
  then have new: "set (opened xs) \<inter> dom own1 = {}" using o(1) unfolding owns_more_def by blast
  from Cons.IH [OF o(2) d this w(1)] obtain own' where sub: "own1 \<subseteq>\<^sub>m own'" and
    rest: "\<And>s. \<exists>frs rest. stream_log (own' s) (map snd xs) (in_use e' s) frs rest \<and>
       stream_bytes s outs' = concat (map framed_bytes frs) @ rest" by blast
  have "own \<subseteq>\<^sub>m own'" using o(1) sub by (auto simp: owns_more_def intro: map_le_trans)
  moreover have "\<exists>frs rest. stream_log (own' s) (map snd (x # xs)) (in_use e' s) frs rest \<and>
       stream_bytes s outs = concat (map framed_bytes frs) @ rest" for s
  proof -
    from rest [of s] obtain frs r where frs: "stream_log (own' s) (map snd xs) (in_use e' s) frs r"
      "stream_bytes s outs' = concat (map framed_bytes frs) @ r" by blast
    show ?thesis
    proof (cases "stream_bytes s out = []")
      case True
      then show ?thesis using frs w(2) stream_log_skip [OF frs(1), of fr] by (auto simp: x)
    next
      case False
      with o(3) obtain bs where p: "own1 s = Some (stream_kind fr)" "length fr \<le> 65535" "out = [OnStream s bs]"
        "bs = framed_bytes fr \<or> strict_prefix bs (framed_bytes fr) \<and> \<not> in_use e1 s"
        by (auto simp: placed_def split: if_splits)
      have k: "own' s = Some (stream_kind fr)" using p(1) sub by (auto simp: map_le_def dom_def)
      from p(4) show ?thesis
      proof
        assume "bs = framed_bytes fr"
        then show ?thesis using stream_log_whole [OF frs(1) p(2) k] frs(2) w(2) p(3)
          by (intro exI [of _ "fr # frs"] exI [of _ r]) (auto simp: x)
      next
        assume part: "strict_prefix bs (framed_bytes fr) \<and> \<not> in_use e1 s"
        have "s \<notin> set (opened xs)" using new p(1) by auto
        with egress_writer_given_up [OF w(1)] part have "\<not> in_use e' s" "stream_bytes s outs' = []" by simp_all
        then show ?thesis using stream_log_part [OF p(2) k] part w(2) p(3)
          by (intro exI [of _ "[]"] exI [of _ bs]) (auto simp: x)
      qed
    qed
  qed
  ultimately show ?case by blast
qed

lemma strict_prefix_read:
  assumes "length fr \<le> 65535" "strict_prefix bs (framed_bytes fr)"
  shows "read_one_frame bs = None"
proof (cases "read_one_frame bs")
  case (Some p)
  then obtain f r where p: "read_one_frame bs = Some (f, r)" by (cases p) simp
  obtain more' where m: "framed_bytes fr = bs @ more'" "more' \<noteq> []" using assms(2) by (auto simp: strict_prefix_def prefix_def)
  have "read_one_frame (bs @ more') = Some (f, r @ more')"
    using p by (auto simp: read_one_frame_def Let_def split: if_splits)
  moreover have "read_one_frame (framed_bytes fr @ []) = Some (fr, [])" by (rule read_framed_bytes [OF assms(1)])
  ultimately show ?thesis using m by simp
qed

text \<open>C35. A WebTransport session holds at most 64 channel streams, and each of its streams carries frames of one
  channel, or of no channel: whatever frames the session is given and however opening and writing fail, what was
  written on a stream decodes to a subsequence of the given frames, in order. What is left over is nothing, or a
  proper part of the next frame after a failed write; then the session has given the stream up. All of them belong
  on the same stream. The library's part is that it never opens two streams under one number.\<close>

theorem wt_streams_sound:
  assumes "distinct (opened xs)" "egress_writer xs wt_egress_new = (e, outs)"
  shows "length (we_channels e) \<le> MAX_EGRESS_CHANNELS \<and>
    (\<forall>s. \<exists>frs rest. wtf.drain (stream_bytes s outs) = (frs, rest) \<and>
       (\<forall>f \<in> set frs. \<forall>g \<in> set frs. stream_kind f = stream_kind g) \<and>
       (if rest = [] then subseq frs (map snd xs)
        else \<not> in_use e s \<and> (\<exists>fr. subseq (frs @ [fr]) (map snd xs) \<and> strict_prefix rest (framed_bytes fr) \<and>
          (\<forall>f \<in> set frs. stream_kind f = stream_kind fr))))"
proof -
  have "egress_bounded wt_egress_new" by (simp add: egress_bounded_def wt_egress_new_def)
  then have "length (we_channels e) \<le> MAX_EGRESS_CHANNELS"
    using egress_writer_bounded [of wt_egress_new xs] assms(2) by (simp add: egress_bounded_def)
  moreover have "egress_owned Map.empty wt_egress_new" by (simp add: egress_owned_def wt_egress_new_def)
  from egress_writer_placed [OF this assms(1) _ assms(2)] obtain own where
    o: "\<And>s. \<exists>frs rest. stream_log (own s) (map snd xs) (in_use e s) frs rest \<and>
       stream_bytes s outs = concat (map framed_bytes frs) @ rest" by auto
  have "\<exists>frs rest. wtf.drain (stream_bytes s outs) = (frs, rest) \<and>
       (\<forall>f \<in> set frs. \<forall>g \<in> set frs. stream_kind f = stream_kind g) \<and>
       (if rest = [] then subseq frs (map snd xs)
        else \<not> in_use e s \<and> (\<exists>fr. subseq (frs @ [fr]) (map snd xs) \<and> strict_prefix rest (framed_bytes fr) \<and>
          (\<forall>f \<in> set frs. stream_kind f = stream_kind fr)))" for s
  proof -
    from o [of s] obtain frs rest where l: "stream_log (own s) (map snd xs) (in_use e s) frs rest"
      and b: "stream_bytes s outs = concat (map framed_bytes frs) @ rest" by blast
    have "read_one_frame rest = None"
      using l strict_prefix_read [of _ rest] by (cases "rest = []") (auto simp: stream_log_def read_one_frame_def)
    then have "wtf.drain (stream_bytes s outs) = (frs, rest)"
      unfolding b by (rule wtf.drain_concat [rotated]) (use l in \<open>auto simp: stream_log_def\<close>)
    moreover have "stream_kind f = stream_kind g" if "f \<in> set frs" "g \<in> set frs" for f g
      using that l unfolding stream_log_def by (metis option.inject)
    moreover have "if rest = [] then subseq frs (map snd xs)
        else \<not> in_use e s \<and> (\<exists>fr. subseq (frs @ [fr]) (map snd xs) \<and> strict_prefix rest (framed_bytes fr) \<and>
          (\<forall>f \<in> set frs. stream_kind f = stream_kind fr))"
      using l by (auto simp: stream_log_def split: if_splits)
    ultimately show ?thesis by (intro exI conjI ballI)
  qed
  ultimately show ?thesis by blast
qed

text \<open>Three frames of two channels; the write of the last one fails after five bytes.\<close>

definition demo_wt :: "nat \<Rightarrow> u8 \<Rightarrow> u8 \<Rightarrow> nat option \<Rightarrow> wt_net \<times> bytes" where
  "demo_wt s ty cid room =
     (\<lparr>wn_max_datagram = None, wn_datagram = True, wn_open = Some s, wn_write = (\<lambda>_. room)\<rparr>,
      replicate 16 5 @ [ty, 0, cid] @ replicate 24 0)"

definition demo_run :: "(wt_net \<times> bytes) list" where
  "demo_run = [demo_wt 1 2 7 None, demo_wt 2 2 8 None, demo_wt 3 2 7 (Some 5)]"

lemma demo_wt_frame:
  "frame_route_info (snd (demo_wt s 2 cid room)) =
     Some \<lparr>ri_band_id = replicate 16 5, ri_channel_type = Some Channel, ri_channel_id = from_be [0, cid]\<rparr>"
  by (simp add: demo_wt_def frame_route_info_def ct_from_u8_def nth_append BAND_ID_LEN_def MIN_PACKET_LEN_def HEADER_LEN_def TAG_LEN_def)

lemma demo_wt_write:
  "write_framed None (snd (demo_wt s ty cid room)) = (True, framed_bytes (snd (demo_wt s ty cid room)))"
  "write_framed (Some 5) (snd (demo_wt s ty cid room)) = (False, take 5 (framed_bytes (snd (demo_wt s ty cid room))))"
proof -
  have "length (snd (demo_wt s ty cid room)) = 43" by (simp add: demo_wt_def)
  then show "write_framed None (snd (demo_wt s ty cid room)) = (True, framed_bytes (snd (demo_wt s ty cid room)))"
    "write_framed (Some 5) (snd (demo_wt s ty cid room)) = (False, take 5 (framed_bytes (snd (demo_wt s ty cid room))))"
    by (simp_all add: write_framed_def write_all_def framed_bytes_def)
qed

lemma demo_run_out:
  "egress_writer demo_run wt_egress_new =
     (\<lparr>we_channels = [(8, 2)], we_order = [7, 8], we_control = None\<rparr>,
      [OnStream 1 (framed_bytes (snd (demo_wt 1 2 7 None))), OnStream 2 (framed_bytes (snd (demo_wt 2 2 8 None))),
       OnStream 1 (take 5 (framed_bytes (snd (demo_wt 3 2 7 (Some 5)))))])"
proof -
  have d: "egress_writer (x # xs) e = (let (e, out) = egress_frame (fst x) (snd x) e; (e, outs) = egress_writer xs e in (e, out @ outs))"
    for x xs e by (cases x) simp
  have n: "wn_open (fst (demo_wt s ty cid room)) = Some s" "wn_write (fst (demo_wt s ty cid room)) = (\<lambda>_. room)"
    for s ty cid room by (simp_all add: demo_wt_def)
  have c: "from_be [0, 7 :: u8] = (7 :: u16)" "from_be [0, 8 :: u8] = (8 :: u16)" by code_simp+
  show ?thesis unfolding demo_run_def
    by (simp add: d egress_frame_def demo_wt_frame egress_channel_def open_channel_def demo_wt_write n c wt_egress_new_def MAX_EGRESS_CHANNELS_def)
qed

theorem wt_streams_sound_witness:
  "\<exists>frs rest. wtf.drain (stream_bytes 1 (snd (egress_writer demo_run wt_egress_new))) = (frs, rest) \<and>
     length frs = 1 \<and> length rest = 5 \<and> \<not> in_use (fst (egress_writer demo_run wt_egress_new)) 1"
proof -
  let ?fr = "snd (demo_wt 1 2 7 None)" and ?rest = "take 5 (framed_bytes (snd (demo_wt 3 2 7 (Some 5))))"
  let ?bytes = "stream_bytes 1 (snd (egress_writer demo_run wt_egress_new))"
  have l: "length ?fr = 43" "length (snd (demo_wt 3 2 7 (Some 5))) = 43" by (simp_all add: demo_wt_def)
  then have r: "length ?rest = 5" by (simp add: framed_bytes_def)
  have "strict_prefix ?rest (framed_bytes (snd (demo_wt 3 2 7 (Some 5))))"
    using write_framed_cases [OF demo_wt_write(2)] by blast
  then have none: "read_one_frame ?rest = None" using l(2) by (intro strict_prefix_read) simp_all
  have "?bytes = concat (map framed_bytes [?fr]) @ ?rest" by (simp add: demo_run_out)
  moreover have "wtf.drain (concat (map framed_bytes [?fr]) @ ?rest) = ([?fr], ?rest)"
    by (rule wtf.drain_concat [OF _ none]) (use l(1) in simp)
  ultimately have w: "wtf.drain ?bytes = ([?fr], ?rest)" by (simp only:)
  have "distinct (opened demo_run)" by (simp add: opened_def map_filter_simps demo_wt_def demo_run_def)
  from wt_streams_sound [OF this surjective_pairing] obtain frs rest where t: "wtf.drain ?bytes = (frs, rest)"
    "if rest = [] then subseq frs (map snd demo_run) else \<not> in_use (fst (egress_writer demo_run wt_egress_new)) 1 \<and>
      (\<exists>fr. subseq (frs @ [fr]) (map snd demo_run) \<and> strict_prefix rest (framed_bytes fr) \<and> (\<forall>f \<in> set frs. stream_kind f = stream_kind fr))"
    by blast
  have "frs = [?fr]" "rest = ?rest" using w t(1) by simp_all
  moreover have "?rest \<noteq> []" using r by auto
  ultimately have "\<not> in_use (fst (egress_writer demo_run wt_egress_new)) 1" using t(2) by (auto split: if_splits)
  with w r show ?thesis by (intro exI [of _ "[?fr]"] exI [of _ ?rest]) simp
qed

text \<open>A peer that refuses every stream of one channel makes the eviction list grow by an entry per frame, although no
  stream is held: entries are taken off only when 64 streams are.\<close>

lemma wt_order_grows:
  assumes "frame_route_info fr = Some info" "ri_channel_type info = Some Channel" "length fr \<le> 65535"
    "wn_open N = Some s" "wn_write N s = Some n" "n < length fr + 2" "we_channels e = []"
  shows "we_channels (fst (egress_writer (replicate k (N, fr)) e)) = [] \<and>
    length (we_order (fst (egress_writer (replicate k (N, fr)) e))) = length (we_order e) + k"
  using assms(7)
proof (induction k arbitrary: e)
  case (Suc k)
  have "evict_channels (we_order e) [] = (we_order e, [])" by (cases "we_order e") (simp_all add: MAX_EGRESS_CHANNELS_def)
  moreover have "\<not> fst (write_framed (wn_write N s) fr)"
    using assms(3,5,6) by (auto simp: write_framed_def write_all_def Let_def split: if_splits)
  ultimately have "fst (egress_frame N fr e) = e\<lparr>we_order := we_order e @ [ri_channel_id info]\<rparr>"
    using assms Suc.prems by (auto simp: egress_frame_def egress_channel_def open_channel_def Let_def split: prod.split bool.split)
  with Suc.IH [of "e\<lparr>we_order := we_order e @ [ri_channel_id info]\<rparr>"] Suc.prems show ?case by (simp add: split_beta Let_def)
qed simp

section \<open>What the hub reads\<close>

fun conn_frames ::
  "(queue \<Rightarrow> chan_result) \<Rightarrow> (nat \<Rightarrow> instant) \<Rightarrow> nat \<Rightarrow> band_id \<Rightarrow> u64 \<Rightarrow> bytes list \<Rightarrow> hub \<Rightarrow> hub \<times> forward_result option list" where
  "conn_frames chan clock i bid cid [] h = (h, [])"
| "conn_frames chan clock i bid cid (fr # frs) h =
     (let (h, f) = conn_frame chan (clock i) bid cid fr h; (h, fs) = conn_frames chan clock (Suc i) bid cid frs h
      in (h, f # fs))"

declare read_framed_stream.simps [simp del]

lemma read_framed_stream_frames:
  assumes "\<And>f. f \<in> set frs \<Longrightarrow> length f \<le> 65535" "read_one_frame rest = None"
  shows "read_framed_stream chan clock i bid cid (concat (map framed_bytes frs) @ rest) h = conn_frames chan clock i bid cid frs h"
  using assms(1)
proof (induction frs arbitrary: i h)
  case Nil
  then show ?case using assms(2) by (simp add: read_framed_stream.simps)
next
  case (Cons fr frs)
  then have "read_one_frame (framed_bytes fr @ concat (map framed_bytes frs) @ rest) = Some (fr, concat (map framed_bytes frs) @ rest)"
    by (intro read_framed_bytes) simp
  with Cons show ?case
    by (simp add: read_framed_stream.simps [of _ _ _ _ _ "framed_bytes fr @ concat (map framed_bytes frs) @ rest"])
qed

end
