(* ===== verification/Dmabuf.thy ===== *)
theory Dmabuf
  imports Streams
begin

text \<open>
  \<open>rust/telesthete/src/wire/dmabuf.rs\<close>: the descriptor of a GPU buffer that a Stream packet carries when its
  \<open>DMABUF\<close> flag is set. The file descriptors themselves travel beside the packet; a plane names one by its
  index. Parsing is shown to accept exactly the encodings of well-formed descriptors, followed by anything.
\<close>

definition MAX_PLANES :: nat where "MAX_PLANES = 4"
definition MAX_FDS_PER_PACKET :: nat where "MAX_FDS_PER_PACKET = 5"
definition HEADER_BYTES :: nat where "HEADER_BYTES = 22"
definition PLANE_BYTES :: nat where "PLANE_BYTES = 9"

record dmabuf_plane =
  dp_offset :: u32
  dp_stride :: u32
  dp_fd_index :: u8

record dmabuf_descriptor =
  dd_width :: u32
  dd_height :: u32
  dd_fourcc :: u32
  dd_modifier :: u64
  dd_planes :: "dmabuf_plane list"
  dd_fd_count :: u8

datatype dmabuf_error =
    DmabufTooShort nat nat
  | PlaneCountOutOfRange u8
  | FdCountOutOfRange u8
  | FdIndexOutOfRange u8 u8
  | ReuseFdMismatch u8

definition encoded_len :: "nat \<Rightarrow> nat" where
  "encoded_len n = HEADER_BYTES + PLANE_BYTES * n"

definition plane_bytes :: "dmabuf_plane \<Rightarrow> bytes" where
  "plane_bytes p = to_be 4 (dp_offset p) @ to_be 4 (dp_stride p) @ [dp_fd_index p]"

definition descriptor_bytes :: "dmabuf_descriptor \<Rightarrow> bytes" where
  "descriptor_bytes d =
     to_be 4 (dd_width d) @ to_be 4 (dd_height d) @ to_le 4 (dd_fourcc d) @ to_be 8 (dd_modifier d) @
     [of_nat (length (dd_planes d)), dd_fd_count d] @ concat (map plane_bytes (dd_planes d))"

definition dmabuf_write :: "dmabuf_descriptor \<Rightarrow> bytes \<Rightarrow> dmabuf_error + bytes \<times> nat" where
  "dmabuf_write d out =
     (let n = length (dd_planes d); need = encoded_len n in
      if length out < need then Inl (DmabufTooShort (length out) need)
      else if \<not> (1 \<le> n \<and> n \<le> MAX_PLANES) then Inl (PlaneCountOutOfRange (of_nat (min n 255)))
      else if unat (dd_fd_count d) > MAX_FDS_PER_PACKET then Inl (FdCountOutOfRange (dd_fd_count d))
      else Inr (descriptor_bytes d @ drop need out, need))"

text \<open>The plane loop of \<open>parse\<close>, on the bytes from the current offset on.\<close>

definition plane_at :: "bytes \<Rightarrow> dmabuf_plane" where
  "plane_at bs = \<lparr>dp_offset = from_be (slice_of 0 4 bs), dp_stride = from_be (slice_of 4 8 bs), dp_fd_index = bs ! 8\<rparr>"

fun parse_planes :: "u8 \<Rightarrow> nat \<Rightarrow> bytes \<Rightarrow> dmabuf_error + dmabuf_plane list" where
  "parse_planes fd_count 0 bs = Inr []"
| "parse_planes fd_count (Suc n) bs =
     (let p = plane_at bs in
      if fd_count > 0 \<and> dp_fd_index p \<ge> fd_count then Inl (FdIndexOutOfRange fd_count (dp_fd_index p))
      else case parse_planes fd_count n (drop PLANE_BYTES bs) of
             Inl e \<Rightarrow> Inl e
           | Inr ps \<Rightarrow> Inr (p # ps))"

definition dmabuf_parse :: "bytes \<Rightarrow> dmabuf_error + dmabuf_descriptor" where
  "dmabuf_parse input =
     (if length input < HEADER_BYTES then Inl (DmabufTooShort (length input) HEADER_BYTES)
      else let plane_count = input ! 20; fd_count = input ! 21 in
        if \<not> (1 \<le> plane_count \<and> plane_count \<le> of_nat MAX_PLANES) then Inl (PlaneCountOutOfRange plane_count)
        else if unat fd_count > MAX_FDS_PER_PACKET then Inl (FdCountOutOfRange fd_count)
        else if length input < encoded_len (unat plane_count)
        then Inl (DmabufTooShort (length input) (encoded_len (unat plane_count)))
        else case parse_planes fd_count (unat plane_count) (drop HEADER_BYTES input) of
               Inl e \<Rightarrow> Inl e
             | Inr planes \<Rightarrow>
                 Inr \<lparr>dd_width = from_be (slice_of 0 4 input), dd_height = from_be (slice_of 4 8 input),
                      dd_fourcc = from_le (slice_of 8 12 input), dd_modifier = from_be (slice_of 12 20 input),
                      dd_planes = planes, dd_fd_count = fd_count\<rparr>)"

definition stream_flags_contains :: "u8 \<Rightarrow> u8 \<Rightarrow> bool" where
  "stream_flags_contains flags f \<longleftrightarrow> flags AND f = f"

definition fence_fds :: "u8 \<Rightarrow> u8" where
  "fence_fds flags = (if stream_flags_contains flags WITH_FENCE then 1 else 0)"

definition plane_fds_needed :: "dmabuf_plane list \<Rightarrow> u16" where
  "plane_fds_needed ps = foldr max (map (\<lambda>p. ucast (dp_fd_index p) + 1) ps) 0"

definition check_flags :: "u8 \<Rightarrow> dmabuf_descriptor \<Rightarrow> dmabuf_error + unit" where
  "check_flags flags d =
     (if stream_flags_contains flags REUSE then
        (if dd_fd_count d \<noteq> fence_fds flags then Inl (ReuseFdMismatch (dd_fd_count d)) else Inr ())
      else
        (let available = (if dd_fd_count d < fence_fds flags then 0 else dd_fd_count d - fence_fds flags);
             needed = plane_fds_needed (dd_planes d)
         in if needed > ucast available then Inl (FdIndexOutOfRange (dd_fd_count d) (ucast (needed - 1)))
            else Inr ()))"

definition fourcc_to_str :: "u32 \<Rightarrow> bytes" where
  "fourcc_to_str fourcc = to_le 4 fourcc"

section \<open>Parsing is exact\<close>

definition planes_ok :: "u8 \<Rightarrow> dmabuf_plane list \<Rightarrow> bool" where
  "planes_ok fd_count ps \<longleftrightarrow> (fd_count > 0 \<longrightarrow> (\<forall>p \<in> set ps. dp_fd_index p < fd_count))"

definition wf_descriptor :: "dmabuf_descriptor \<Rightarrow> bool" where
  "wf_descriptor d \<longleftrightarrow> 1 \<le> length (dd_planes d) \<and> length (dd_planes d) \<le> MAX_PLANES \<and>
     unat (dd_fd_count d) \<le> MAX_FDS_PER_PACKET \<and> planes_ok (dd_fd_count d) (dd_planes d)"

lemma length_plane_bytes [simp]: "length (plane_bytes p) = PLANE_BYTES"
  by (simp add: plane_bytes_def PLANE_BYTES_def)

lemma length_planes_bytes [simp]: "length (concat (map plane_bytes ps)) = PLANE_BYTES * length ps"
  by (induction ps) simp_all

lemma length_descriptor_bytes [simp]: "length (descriptor_bytes d) = encoded_len (length (dd_planes d))"
  by (simp add: descriptor_bytes_def encoded_len_def HEADER_BYTES_def)

lemma plane_at_bytes: "plane_at (plane_bytes p @ rest) = p"
  by (simp add: plane_at_def plane_bytes_def slice_of_def nth_append)

lemma plane_bytes_at:
  assumes "PLANE_BYTES \<le> length bs"
  shows "plane_bytes (plane_at bs) = take PLANE_BYTES bs"
proof -
  have "take 9 bs = slice_of 0 4 bs @ slice_of 4 8 bs @ [bs ! 8]"
    using assms by (intro nth_equalityI) (auto simp: slice_of_def PLANE_BYTES_def nth_append less_Suc_eq numeral_eq_Suc)
  then show ?thesis
    using assms by (simp add: plane_bytes_def plane_at_def PLANE_BYTES_def byte_simps slice_of_def)
qed

lemma parse_planes_exact:
  assumes "PLANE_BYTES * n \<le> length bs"
  shows "parse_planes fc n bs = Inr ps \<longleftrightarrow>
    length ps = n \<and> concat (map plane_bytes ps) = take (PLANE_BYTES * n) bs \<and> planes_ok fc ps"
  using assms
proof (induction n arbitrary: bs ps)
  case (Suc n)
  have l: "PLANE_BYTES \<le> length bs" "PLANE_BYTES * n \<le> length (drop PLANE_BYTES bs)" using Suc.prems by auto
  have t: "take (PLANE_BYTES * Suc n) bs = plane_bytes (plane_at bs) @ take (PLANE_BYTES * n) (drop PLANE_BYTES bs)"
    using l(1) by (simp add: plane_bytes_at take_add)
  have first: "p = plane_at bs" if "plane_bytes p = plane_bytes (plane_at bs)" for p
    using that plane_at_bytes [of p "[]"] plane_at_bytes [of "plane_at bs" "[]"] by simp
  note IH = Suc.IH [OF l(2)]
  show ?case
  proof (cases ps)
    case Nil
    then show ?thesis by (auto simp: Let_def split: sum.split)
  next
    case (Cons p qs)
    have "parse_planes fc (Suc n) bs = Inr ps \<longleftrightarrow>
        p = plane_at bs \<and> \<not> (fc > 0 \<and> dp_fd_index p \<ge> fc) \<and> parse_planes fc n (drop PLANE_BYTES bs) = Inr qs"
      by (auto simp: Cons Let_def split: sum.split)
    also have "\<dots> \<longleftrightarrow> length ps = Suc n \<and> concat (map plane_bytes ps) = take (PLANE_BYTES * Suc n) bs \<and> planes_ok fc ps"
      unfolding IH t Cons using first by (auto simp: planes_ok_def not_le)
    finally show ?thesis .
  qed
qed (auto simp: planes_ok_def)

lemma plane_count_u8: "n \<le> MAX_PLANES \<Longrightarrow> unat (of_nat n :: u8) = n"
  by (simp add: MAX_PLANES_def unat_of_nat take_bit_nat_eq_self)

lemma plane_count_range: "1 \<le> (c :: u8) \<and> c \<le> of_nat MAX_PLANES \<longleftrightarrow> 1 \<le> unat c \<and> unat c \<le> MAX_PLANES"
  by (simp add: word_le_nat_alt MAX_PLANES_def)

text \<open>Parsing an encoding comes down to the plane loop.\<close>

lemma parse_descriptor_planes:
  assumes "1 \<le> length (dd_planes d)" "length (dd_planes d) \<le> MAX_PLANES" "unat (dd_fd_count d) \<le> MAX_FDS_PER_PACKET"
  shows "dmabuf_parse (descriptor_bytes d @ rest) =
    (case parse_planes (dd_fd_count d) (length (dd_planes d)) (concat (map plane_bytes (dd_planes d)) @ rest) of
       Inl e \<Rightarrow> Inl e | Inr ps \<Rightarrow> Inr (d\<lparr>dd_planes := ps\<rparr>))"
proof -
  let ?b = "descriptor_bytes d @ rest" and ?n = "length (dd_planes d)"
  note n = plane_count_u8 [OF assms(2)]
  have f: "?b ! 20 = of_nat ?n" "?b ! 21 = dd_fd_count d" "slice_of 0 4 ?b = to_be 4 (dd_width d)"
    "slice_of 4 8 ?b = to_be 4 (dd_height d)" "slice_of 8 12 ?b = to_le 4 (dd_fourcc d)"
    "slice_of 12 20 ?b = to_be 8 (dd_modifier d)"
    "drop HEADER_BYTES ?b = concat (map plane_bytes (dd_planes d)) @ rest"
    by (simp_all add: descriptor_bytes_def slice_of_def nth_append HEADER_BYTES_def)
  have l: "encoded_len ?n \<le> length ?b" "HEADER_BYTES \<le> length ?b" by (auto simp: encoded_len_def)
  have c: "1 \<le> (of_nat ?n :: u8) \<and> (of_nat ?n :: u8) \<le> of_nat MAX_PLANES"
    unfolding plane_count_range n using assms by simp
  have g: "(length ?b < HEADER_BYTES) = False" "(length ?b < encoded_len ?n) = False"
    "(MAX_FDS_PER_PACKET < unat (dd_fd_count d)) = False" "(1 \<le> (of_nat ?n :: u8) \<and> (of_nat ?n :: u8) \<le> of_nat MAX_PLANES) = True"
    using l assms(3) c by auto
  show ?thesis unfolding dmabuf_parse_def Let_def f n g by (simp split: sum.split)
qed

lemma parse_descriptor_bytes:
  assumes "wf_descriptor d"
  shows "dmabuf_parse (descriptor_bytes d @ rest) = Inr d"
proof -
  let ?n = "length (dd_planes d)"
  have "parse_planes (dd_fd_count d) ?n (concat (map plane_bytes (dd_planes d)) @ rest) = Inr (dd_planes d)"
    by (subst parse_planes_exact) (use assms in \<open>simp_all add: wf_descriptor_def\<close>)
  with assms show ?thesis by (simp add: wf_descriptor_def parse_descriptor_planes)
qed

lemma planes_bytes_inj:
  "length ps = length qs \<Longrightarrow> concat (map plane_bytes ps) = concat (map plane_bytes qs) \<Longrightarrow> ps = qs"
proof (induction ps qs rule: list_induct2)
  case (Cons p ps q qs)
  then have "plane_bytes p = plane_bytes q" "concat (map plane_bytes ps) = concat (map plane_bytes qs)" by simp_all
  with Cons show ?case using plane_at_bytes [of p "[]"] plane_at_bytes [of q "[]"] by simp
qed simp

lemma take_header:
  assumes "HEADER_BYTES \<le> length bs"
  shows "take HEADER_BYTES bs = slice_of 0 4 bs @ slice_of 4 8 bs @ slice_of 8 12 bs @ slice_of 12 20 bs @ [bs ! 20, bs ! 21]"
proof -
  have "[bs ! 20, bs ! 21] = slice_of 20 22 bs"
    using assms by (simp add: slice_of_def HEADER_BYTES_def Cons_nth_drop_Suc [symmetric] numeral_eq_Suc)
  then show ?thesis by (simp add: slice_split) (simp add: slice_of_def HEADER_BYTES_def)
qed

lemma dmabuf_parse_bytes:
  assumes "dmabuf_parse bs = Inr d"
  shows "wf_descriptor d \<and> take (encoded_len (length (dd_planes d))) bs = descriptor_bytes d"
proof -
  have l: "HEADER_BYTES \<le> length bs" and c: "1 \<le> unat (bs ! 20) \<and> unat (bs ! 20) \<le> MAX_PLANES"
    and fd: "unat (bs ! 21) \<le> MAX_FDS_PER_PACKET" and e: "encoded_len (unat (bs ! 20)) \<le> length bs"
    and p: "parse_planes (bs ! 21) (unat (bs ! 20)) (drop HEADER_BYTES bs) = Inr (dd_planes d)"
    and d: "dd_width d = from_be (slice_of 0 4 bs)" "dd_height d = from_be (slice_of 4 8 bs)"
      "dd_fourcc d = from_le (slice_of 8 12 bs)" "dd_modifier d = from_be (slice_of 12 20 bs)" "dd_fd_count d = bs ! 21"
    using assms unfolding plane_count_range [symmetric]
    by (auto simp: dmabuf_parse_def Let_def split: if_splits sum.splits)
  have "PLANE_BYTES * unat (bs ! 20) \<le> length (drop HEADER_BYTES bs)" using e by (simp add: encoded_len_def)
  from p [unfolded parse_planes_exact [OF this]] have ps: "length (dd_planes d) = unat (bs ! 20)"
    "concat (map plane_bytes (dd_planes d)) = take (PLANE_BYTES * unat (bs ! 20)) (drop HEADER_BYTES bs)"
    "planes_ok (bs ! 21) (dd_planes d)" by auto
  have "22 \<le> length bs" using l by (simp add: HEADER_BYTES_def)
  then have "descriptor_bytes d = take HEADER_BYTES bs @ take (PLANE_BYTES * unat (bs ! 20)) (drop HEADER_BYTES bs)"
    unfolding descriptor_bytes_def take_header [OF l] ps d by (simp add: byte_simps)
  also have "\<dots> = take (encoded_len (unat (bs ! 20))) bs" by (simp add: encoded_len_def take_add)
  finally show ?thesis using c fd ps by (simp add: wf_descriptor_def d)
qed

interpretation dmb: wire_codec descriptor_bytes "\<lambda>bs. result_ok (dmabuf_parse bs)" wf_descriptor
  by unfold_locales (use parse_descriptor_bytes [where rest = "[]"] in \<open>simp add: result_ok_def\<close>)

text \<open>C27. The descriptor format is exact: parsing a byte string gives a descriptor if and only if the descriptor has
  one to four planes, at most five file descriptors and no plane that names one beyond their number, and the
  string begins with what \<open>write\<close> puts out for it. Every field survives, for every plane count.\<close>

theorem dmabuf_parse_exact:
  "dmabuf_parse bs = Inr d \<longleftrightarrow>
     wf_descriptor d \<and> take (encoded_len (length (dd_planes d))) bs = descriptor_bytes d"
  by (metis append_take_drop_id dmabuf_parse_bytes parse_descriptor_bytes)

section \<open>Validation against the flags\<close>

lemma plane_fds_needed_le:
  "unat (plane_fds_needed ps) \<le> k \<longleftrightarrow> (\<forall>p \<in> set ps. unat (dp_fd_index p) < k)"
proof (induction ps)
  case (Cons p ps)
  have "unat (dp_fd_index p) < 256" using unsigned_less [of "dp_fd_index p", where 'a = nat] by simp
  then have "unat (ucast (dp_fd_index p) + 1 :: u16) = Suc (unat (dp_fd_index p))"
    by (simp add: unat_word_ariths unsigned_ucast_eq take_bit_nat_eq_self)
  then have "unat (plane_fds_needed (p # ps)) = max (Suc (unat (dp_fd_index p))) (unat (plane_fds_needed ps))"
    by (simp add: plane_fds_needed_def max_def word_le_nat_alt)
  then show ?case using Cons by auto
qed (simp add: plane_fds_needed_def)

lemma check_flags_iff:
  "check_flags flags d = Inr () \<longleftrightarrow>
     (if stream_flags_contains flags REUSE then dd_fd_count d = fence_fds flags
      else \<forall>p \<in> set (dd_planes d). unat (dp_fd_index p) + unat (fence_fds flags) < unat (dd_fd_count d))"
proof (cases "stream_flags_contains flags REUSE")
  case True
  then show ?thesis by (simp add: check_flags_def)
next
  case False
  let ?a = "if dd_fd_count d < fence_fds flags then 0 else dd_fd_count d - fence_fds flags"
  have a: "unat ?a = unat (dd_fd_count d) - unat (fence_fds flags)"
    by (auto simp: word_less_nat_alt unat_sub word_le_nat_alt not_less)
  have "unat (ucast ?a :: u16) = unat ?a"
    using unsigned_less [of ?a, where 'a = nat] by (simp add: unsigned_ucast_eq take_bit_nat_eq_self)
  then have "check_flags flags d = Inr () \<longleftrightarrow> unat (plane_fds_needed (dd_planes d)) \<le> unat ?a"
    using False by (simp add: check_flags_def Let_def word_less_nat_alt not_less)
  also have "\<dots> \<longleftrightarrow> (\<forall>p \<in> set (dd_planes d). unat (dp_fd_index p) < unat ?a)" by (rule plane_fds_needed_le)
  finally show ?thesis using False a by (simp add: less_diff_conv)
qed

text \<open>C28. After parsing and validation a consumer can take its file descriptors: in a packet that is not a reuse, every
  plane names one of the descriptors that came with it and none names the fence, which is the last of them; a
  reuse brings the fence or nothing. Nothing else passes.\<close>

theorem dmabuf_fds_resolve:
  "check_flags flags d = Inr () \<longleftrightarrow>
     (if stream_flags_contains flags REUSE then dd_fd_count d = fence_fds flags
      else \<forall>p \<in> set (dd_planes d). unat (dp_fd_index p) + unat (fence_fds flags) < unat (dd_fd_count d))"
  by (rule check_flags_iff)

theorem dmabuf_fds_resolve_witness:
  "check_flags 0x30 \<lparr>dd_width = 1, dd_height = 1, dd_fourcc = 0, dd_modifier = 0,
     dd_planes = [\<lparr>dp_offset = 0, dp_stride = 4, dp_fd_index = 0\<rparr>], dd_fd_count = 2\<rparr> = Inr ()"
proof -
  have "\<not> stream_flags_contains 0x30 REUSE" "unat (fence_fds 0x30) = 1" by code_simp+
  then show ?thesis by (subst dmabuf_fds_resolve) simp
qed

text \<open>C39. A reused buffer with a fence cannot use more than one plane descriptor: a packet of a reused image whose
  planes lie in two buffers, with one new fence, is what the flags allow and the writer produces, but the parser
  refuses it, because it checks the plane indices against the one descriptor that came along.\<close>

theorem dmabuf_reuse_fence_refused:
  assumes "stream_flags_contains flags REUSE" "stream_flags_contains flags WITH_FENCE"
    and "1 \<le> length (dd_planes d)" "length (dd_planes d) \<le> MAX_PLANES" "dd_fd_count d = 1"
    and "p \<in> set (dd_planes d)" "dp_fd_index p \<noteq> 0"
  shows "check_flags flags d = Inr () \<and>
    (\<exists>out. dmabuf_write d (replicate (encoded_len (length (dd_planes d))) 0) = Inr (out, encoded_len (length (dd_planes d))) \<and>
       (\<forall>d'. dmabuf_parse out \<noteq> Inr d'))"
proof -
  have "\<not> planes_ok (dd_fd_count d) (dd_planes d)"
    using assms(5-7) unat_gt_0 [of "dp_fd_index p"] by (auto simp: planes_ok_def word_less_nat_alt intro!: bexI [of _ p])
  then have "dmabuf_parse (descriptor_bytes d) \<noteq> Inr d'" for d'
    using parse_descriptor_planes [of d "[]"] assms(3-5) planes_bytes_inj [of _ "dd_planes d"]
    by (auto simp: parse_planes_exact MAX_FDS_PER_PACKET_def split: sum.splits)
  moreover have "dmabuf_write d (replicate (encoded_len (length (dd_planes d))) 0) = Inr (descriptor_bytes d, encoded_len (length (dd_planes d)))"
    using assms(3-5) by (simp add: dmabuf_write_def MAX_FDS_PER_PACKET_def)
  ultimately show ?thesis using assms(1,2,5) by (auto simp: check_flags_def fence_fds_def)
qed

definition demo_planes :: dmabuf_descriptor where
  "demo_planes = \<lparr>dd_width = 64, dd_height = 32, dd_fourcc = 0x3231564E, dd_modifier = 0,
     dd_planes = [\<lparr>dp_offset = 0, dp_stride = 64, dp_fd_index = 0\<rparr>, \<lparr>dp_offset = 0, dp_stride = 64, dp_fd_index = 1\<rparr>],
     dd_fd_count = 1\<rparr>"

theorem dmabuf_reuse_fence_refused_witness:
  "check_flags 0x70 demo_planes = Inr () \<and>
   (\<exists>out. dmabuf_write demo_planes (replicate (encoded_len 2) 0) = Inr (out, encoded_len 2) \<and> (\<forall>d'. dmabuf_parse out \<noteq> Inr d'))"
proof -
  have "stream_flags_contains 0x70 REUSE" "stream_flags_contains 0x70 WITH_FENCE" by code_simp+
  moreover have "1 \<le> length (dd_planes demo_planes)" "length (dd_planes demo_planes) \<le> MAX_PLANES" "dd_fd_count demo_planes = 1"
    "dd_planes demo_planes ! 1 \<in> set (dd_planes demo_planes)" "dp_fd_index (dd_planes demo_planes ! 1) \<noteq> 0"
    by (simp_all add: demo_planes_def MAX_PLANES_def)
  moreover have "length (dd_planes demo_planes) = 2" by (simp add: demo_planes_def)
  ultimately show ?thesis using dmabuf_reuse_fence_refused [of "0x70" demo_planes] by metis
qed

end
