(* ===== verification/Unix_Transport.thy ===== *)
theory Unix_Transport
  imports Transport Dmabuf
begin

text \<open>
  \<open>rust/telesthete/src/unix_transport.rs\<close>: the transport over Unix sockets, which carries file descriptors beside
  a packet. \<open>unix_transport\<close> is the datagram socket and \<open>unix_seq_client\<close> the connected one. The system calls are
  outside the model: their results are arguments. A file descriptor is a number; the kernel has installed the
  descriptors a received message brings, and the result of a step says which were closed and which were handed
  on.
\<close>

type_synonym fd = nat
type_synonym path = string

record unix_inbound =
  ui_from :: path
  ui_header :: header
  ui_payload :: bytes
  ui_fds :: "fd list"

record unix_outbound =
  uo_to :: path
  uo_channel_type :: channel_type
  uo_channel_id :: u16
  uo_plaintext :: bytes
  uo_priority :: u8
  uo_fds :: "fd list"

datatype unix_error =
    UnixIo
  | UnixNix
  | UnixFraming framing_error
  | UnixTooManyFds nat
  | UnixInvalidPath string
  | UnixClosed

record unix_transport =
  ut_path :: path
  ut_key :: key
  ut_band_id :: band_id
  ut_seq :: u64
  ut_routes :: "(channel_type, nat) hashmap"

section \<open>Binding and routes\<close>

datatype remove_result = Removed | RemoveNotFound | RemoveFailed

definition unix_bind ::
  "remove_result \<Rightarrow> bool \<Rightarrow> path \<Rightarrow> key \<Rightarrow> band_id \<Rightarrow> bytes \<Rightarrow> unix_error + unix_transport" where
  "unix_bind removed bind_ok p k bid random =
     (if removed = RemoveFailed \<or> \<not> bind_ok then Inl UnixIo
      else Inr \<lparr>ut_path = p, ut_key = k, ut_band_id = bid, ut_seq = sequence_random random, ut_routes = []\<rparr>)"

text \<open>Connecting: the address and then the call itself may be refused; a connect in progress is waited for.\<close>

definition seq_connect ::
  "bool \<Rightarrow> bool \<Rightarrow> bool \<Rightarrow> path \<Rightarrow> key \<Rightarrow> band_id \<Rightarrow> bytes \<Rightarrow> unix_error + unix_transport" where
  "seq_connect addr_ok connected ready_ok p k bid random =
     (if \<not> addr_ok \<or> \<not> connected then Inl UnixNix
      else if \<not> ready_ok then Inl UnixIo
      else Inr \<lparr>ut_path = p, ut_key = k, ut_band_id = bid, ut_seq = sequence_random random, ut_routes = []\<rparr>)"

definition unix_route :: "channel_type \<Rightarrow> nat \<Rightarrow> unix_transport \<Rightarrow> unix_transport" where
  "unix_route ty sub t = t\<lparr>ut_routes := hm_insert ty sub (ut_routes t)\<rparr>"

section \<open>Sending\<close>

text \<open>The packet handed to the socket and the descriptors sent with it. A destination that is no socket address is
  found only after the packet was encrypted.\<close>

definition unix_encode ::
  "crypto_ops \<Rightarrow> unix_outbound \<Rightarrow> unix_transport \<Rightarrow> unix_transport \<times> (unix_error + bytes)" where
  "unix_encode C out t =
     (if length (uo_fds out) > MAX_FDS_PER_PACKET then (t, Inl (UnixTooManyFds (length (uo_fds out))))
      else let seq = ut_seq t; t = t\<lparr>ut_seq := ut_seq t + 1\<rparr> in
        case encode_packet C (ut_key t) (ut_band_id t) (uo_channel_type out) (uo_channel_id out) seq (uo_plaintext out) of
          Inl e \<Rightarrow> (t, Inl (UnixFraming e))
        | Inr pkt \<Rightarrow> (t, Inr pkt))"

definition unix_send ::
  "crypto_ops \<Rightarrow> (path \<Rightarrow> bool) \<Rightarrow> bool \<Rightarrow> unix_outbound \<Rightarrow> unix_transport \<Rightarrow>
     unix_transport \<times> (unix_error + path \<times> bytes \<times> fd list)" where
  "unix_send C addr_ok io_ok out t =
     (case unix_encode C out t of
        (t, Inl e) \<Rightarrow> (t, Inl e)
      | (t, Inr pkt) \<Rightarrow>
          (t, if \<not> addr_ok (uo_to out) then Inl UnixNix
              else if io_ok then Inr (uo_to out, pkt, uo_fds out) else Inl UnixIo))"

definition seq_send ::
  "crypto_ops \<Rightarrow> bool \<Rightarrow> unix_outbound \<Rightarrow> unix_transport \<Rightarrow> unix_transport \<times> (unix_error + bytes \<times> fd list)" where
  "seq_send C io_ok out t =
     (case unix_encode C out t of
        (t, Inl e) \<Rightarrow> (t, Inl e)
      | (t, Inr pkt) \<Rightarrow> (t, if io_ok then Inr (pkt, uo_fds out) else Inl UnixIo))"

section \<open>Receiving\<close>

datatype cmsg = ScmRights "fd list" | OtherCmsg

definition collect_fds :: "cmsg list \<Rightarrow> fd list" where
  "collect_fds cs = concat (map (\<lambda>c. case c of ScmRights fds \<Rightarrow> fds | OtherCmsg \<Rightarrow> []) cs)"

text \<open>The control data \<open>recvmsg\<close> leaves: the messages, whose descriptors the kernel has installed in the process, and
  whether \<open>cmsgs()\<close> returns them; the library refuses control data the kernel flagged as truncated. Refused control
  data counts as no descriptors. A sender without an address has the empty path.\<close>

record control_data =
  cd_messages :: "cmsg list"
  cd_parses :: bool

definition received_fds :: "control_data \<Rightarrow> fd list" where
  "received_fds cs = (if cd_parses cs then collect_fds (cd_messages cs) else [])"

definition parse_addr :: "path option \<Rightarrow> path" where
  "parse_addr a = (case a of Some p \<Rightarrow> p | None \<Rightarrow> [])"

text \<open>What becomes of one message: the subscriber that got it, and the descriptors closed because it was dropped.
  \<open>sub_open\<close> says whether a subscriber still listens.\<close>

definition unix_dispatch ::
  "crypto_ops \<Rightarrow> (nat \<Rightarrow> bool) \<Rightarrow> path \<Rightarrow> bytes \<Rightarrow> fd list \<Rightarrow> unix_transport \<Rightarrow> (nat \<times> unix_inbound) option \<times> fd list" where
  "unix_dispatch C sub_open from data fds t =
     (case decode_packet C (ut_key t) data of
        Inl e \<Rightarrow> (None, fds)
      | Inr (h, payload) \<Rightarrow>
          if h_band_id h \<noteq> ut_band_id t then (None, fds)
          else case map_of (ut_routes t) (h_channel_type h) of
                 None \<Rightarrow> (None, fds)
               | Some sub \<Rightarrow>
                   if sub_open sub
                   then (Some (sub, \<lparr>ui_from = from, ui_header = h, ui_payload = payload, ui_fds = fds\<rparr>), [])
                   else (None, fds))"

text \<open>The datagram loop reads into a buffer of 65535 bytes.\<close>

definition unix_recv ::
  "crypto_ops \<Rightarrow> (nat \<Rightarrow> bool) \<Rightarrow> path option \<Rightarrow> bytes \<Rightarrow> control_data \<Rightarrow> unix_transport \<Rightarrow>
     (nat \<times> unix_inbound) option \<times> fd list" where
  "unix_recv C sub_open addr data cs t =
     unix_dispatch C sub_open (parse_addr addr) (take 65535 data) (received_fds cs) t"

text \<open>The loop of the connected client ends on an empty message, the close of the other end; its buffer has 131072
  bytes and the sender is the server.\<close>

datatype seq_result = SeqClosed "fd list" | SeqMessage "(nat \<times> unix_inbound) option" "fd list"

definition seq_recv ::
  "crypto_ops \<Rightarrow> (nat \<Rightarrow> bool) \<Rightarrow> bytes \<Rightarrow> control_data \<Rightarrow> unix_transport \<Rightarrow> seq_result" where
  "seq_recv C sub_open data cs t =
     (if data = [] then SeqClosed (received_fds cs)
      else case unix_dispatch C sub_open (ut_path t) (take 131072 data) (received_fds cs) t of
             (m, closed) \<Rightarrow> SeqMessage m closed)"

section \<open>Correctness\<close>

text \<open>Ownership: every descriptor taken out of a message is handed over or closed, never both.\<close>

lemma unix_dispatch_fds:
  "unix_dispatch C sub_open from data fds t = (m, closed) \<Longrightarrow>
     (case m of None \<Rightarrow> closed = fds | Some (_, i) \<Rightarrow> closed = [] \<and> ui_fds i = fds)"
  by (auto simp: unix_dispatch_def split: sum.splits if_splits option.splits)

lemma unix_encode_dispatch:
  assumes "crypto_ok C" "length (ut_band_id a) = BAND_ID_LEN" "ut_key b = ut_key a" "ut_band_id b = ut_band_id a"
    and "map_of (ut_routes b) (uo_channel_type out) = Some sub" "sub_open sub"
    and "unix_encode C out a = (a', Inr pkt)"
  shows "unix_dispatch C sub_open from pkt fds b =
    (Some (sub, \<lparr>ui_from = from, ui_header = \<lparr>h_band_id = ut_band_id a, h_channel_type = uo_channel_type out,
        h_channel_id = uo_channel_id out, h_sequence = ut_seq a\<rparr>, ui_payload = uo_plaintext out, ui_fds = fds\<rparr>), []) \<and>
     length pkt = MIN_PACKET_LEN + length (uo_plaintext out) \<and> a' = a\<lparr>ut_seq := ut_seq a + 1\<rparr> \<and>
     length (uo_fds out) \<le> MAX_FDS_PER_PACKET"
proof -
  let ?h = "\<lparr>h_band_id = ut_band_id a, h_channel_type = uo_channel_type out, h_channel_id = uo_channel_id out, h_sequence = ut_seq a\<rparr>"
  have e: "encode_packet_suite C ChaCha20Poly1305 (ut_key a) (ut_band_id a) (uo_channel_type out) (uo_channel_id out) (ut_seq a)
      (uo_plaintext out) = Inr pkt"
    and a': "a' = a\<lparr>ut_seq := ut_seq a + 1\<rparr>" "length (uo_fds out) \<le> MAX_FDS_PER_PACKET"
    using assms(7) by (auto simp: unix_encode_def encode_packet_def Let_def split: if_splits sum.splits)
  then have "decode_packet C (ut_key b) pkt = Inr (?h, uo_plaintext out)"
    unfolding decode_packet_def using decode_packet_iff [OF assms(1), of ChaCha20Poly1305 "ut_key a" pkt ?h] assms(2,3)
    by (simp add: wf_header_def)
  then show ?thesis
    using assms(4-6) a' length_encode_packet [OF assms(1,2) e] by (simp add: unix_dispatch_def)
qed

text \<open>A packet sent over a Unix socket arrives with its file descriptors: when the two ends share key and band and
  the channel type has a listening subscriber, a packet that fits the receive buffer, with at most five
  descriptors, is handed to that subscriber with the same channel, plaintext and descriptors in the same order,
  and no descriptor is closed.\<close>

lemma unix_send_recv:
  assumes "crypto_ok C" "length (ut_band_id a) = BAND_ID_LEN" "ut_key b = ut_key a" "ut_band_id b = ut_band_id a"
    and "map_of (ut_routes b) (uo_channel_type out) = Some sub" "sub_open sub"
    and "MIN_PACKET_LEN + length (uo_plaintext out) \<le> 65535"
    and "unix_send C addr_ok io_ok out a = (a', Inr (dest, pkt, fds))"
  shows "dest = uo_to out \<and> length fds \<le> MAX_FDS_PER_PACKET \<and>
    unix_recv C sub_open (Some (ut_path a)) pkt \<lparr>cd_messages = [ScmRights fds], cd_parses = True\<rparr> b =
    (Some (sub, \<lparr>ui_from = ut_path a, ui_header = \<lparr>h_band_id = ut_band_id a, h_channel_type = uo_channel_type out,
        h_channel_id = uo_channel_id out, h_sequence = ut_seq a\<rparr>, ui_payload = uo_plaintext out, ui_fds = uo_fds out\<rparr>), [])"
proof -
  have e: "unix_encode C out a = (a', Inr pkt)" "dest = uo_to out" "fds = uo_fds out"
    using assms(8) by (auto simp: unix_send_def split: prod.splits sum.splits if_splits)
  from unix_encode_dispatch [where sub_open = sub_open, OF assms(1-6) e(1), of "ut_path a" fds] assms(7) e(2,3) show ?thesis
    by (simp add: unix_recv_def parse_addr_def received_fds_def collect_fds_def)
qed

text \<open>How often the kernel installed a descriptor for a message, and how often it was handed on or closed.\<close>

definition installed :: "control_data \<Rightarrow> fd \<Rightarrow> nat" where
  "installed cs fd = sum_list (map (\<lambda>c. case c of ScmRights fds \<Rightarrow> count_list fds fd | OtherCmsg \<Rightarrow> 0) (cd_messages cs))"

definition settled :: "(nat \<times> unix_inbound) option \<Rightarrow> fd list \<Rightarrow> fd \<Rightarrow> nat" where
  "settled m closed fd = count_list closed fd + (case m of None \<Rightarrow> 0 | Some (_, i) \<Rightarrow> count_list (ui_fds i) fd)"

lemma collect_fds_count:
  "count_list (collect_fds cs) fd = sum_list (map (\<lambda>c. case c of ScmRights fds \<Rightarrow> count_list fds fd | OtherCmsg \<Rightarrow> 0) cs)"
  by (induction cs) (auto simp: collect_fds_def split: cmsg.split)

lemma received_fds_count: "count_list (received_fds cs) fd = (if cd_parses cs then installed cs fd else 0)"
  by (simp add: received_fds_def installed_def collect_fds_count)

lemma unix_dispatch_settled:
  "unix_dispatch C sub_open from data fds t = (m, closed) \<Longrightarrow> settled m closed fd = count_list fds fd"
  by (auto simp: settled_def dest!: unix_dispatch_fds split: option.splits)

text \<open>C26. Where the file descriptors of a message go, on either kind of socket and whether or not the message decodes,
  belongs to the band or finds a listening subscriber: when the control data is accepted, each descriptor the kernel
  installed is handed over with the packet or closed, exactly once; when the library refuses the control data,
  none of them is, so they stay open with no owner.\<close>

theorem unix_fds_owned:
  "(case unix_recv C sub_open addr data cs t of (m, closed) \<Rightarrow>
      settled m closed fd = (if cd_parses cs then installed cs fd else 0)) \<and>
   (case seq_recv C sub_open data cs t of
      SeqClosed closed \<Rightarrow> settled None closed fd = (if cd_parses cs then installed cs fd else 0)
    | SeqMessage m closed \<Rightarrow> settled m closed fd = (if cd_parses cs then installed cs fd else 0))"
proof -
  have "settled None (received_fds cs) fd = count_list (received_fds cs) fd" by (simp add: settled_def)
  then show ?thesis
    by (simp add: unix_recv_def seq_recv_def received_fds_count unix_dispatch_settled split: prod.split)
qed

end
