(* ===== verification/Producer.thy ===== *)
theory Producer
  imports Unix_Transport
begin

text \<open>
  \<open>rust/telesthete-c/src/lib.rs\<close>: the C interface of a producer of GPU frames. A null pointer is \<open>None\<close>; a C string
  that is not UTF-8 is \<open>Some None\<close>. The environment, the file system and the runtime are arguments. What the
  consumer's transport, stream header and descriptor parser make of a frame is the last theorem.
\<close>

section \<open>Return codes and limits\<close>

definition TLT_OK :: "32 word" where "TLT_OK = 0"
definition TLT_ERR_NULL_HANDLE :: "32 word" where "TLT_ERR_NULL_HANDLE = - 1"
definition TLT_ERR_HEADER_WRITE :: "32 word" where "TLT_ERR_HEADER_WRITE = - 2"
definition TLT_ERR_DESCRIPTOR_WRITE :: "32 word" where "TLT_ERR_DESCRIPTOR_WRITE = - 3"
definition TLT_ERR_PLANE_COUNT :: "32 word" where "TLT_ERR_PLANE_COUNT = - 4"
definition TLT_ERR_FD_COUNT :: "32 word" where "TLT_ERR_FD_COUNT = - 5"
definition TLT_ERR_SEND :: "32 word" where "TLT_ERR_SEND = - 10"
definition TLT_MAX_PLANES :: u8 where "TLT_MAX_PLANES = 4"
definition TLT_MAX_FDS :: u8 where "TLT_MAX_FDS = 5"

record tlt_producer =
  tp_transport :: unix_transport
  tp_target :: path

section \<open>Paths\<close>

definition SOCKET_DIR_FALLBACK :: string where "SOCKET_DIR_FALLBACK = ''/tmp''"

text \<open>\<open>PathBuf::push\<close> of a relative name.\<close>

definition path_push :: "string \<Rightarrow> path \<Rightarrow> path" where
  "path_push name p = (if p = [] \<or> last p = CHR ''/'' then p @ name else p @ CHR ''/'' # name)"

definition socket_name :: "band_id \<Rightarrow> string" where
  "socket_name bid = concat (map hex_byte bid) @ ''.sock''"

text \<open>The first of the two candidate paths that exists; failing both, the one in the runtime directory.\<close>

definition default_target_for :: "crypto_ops \<Rightarrow> string option \<Rightarrow> (path \<Rightarrow> bool) \<Rightarrow> bytes \<Rightarrow> path" where
  "default_target_for C xdg fs_exists psk =
     (let name = socket_name (derive_band_id C psk);
          xdg_path = map_option (\<lambda>dir. path_push name (path_push ''telesthete'' dir)) xdg;
          tmp_path = path_push name (path_push ''telesthete'' SOCKET_DIR_FALLBACK)
      in if (case xdg_path of Some p \<Rightarrow> fs_exists p | None \<Rightarrow> False) then the xdg_path
         else if fs_exists tmp_path then tmp_path
         else (case xdg_path of Some p \<Rightarrow> p | None \<Rightarrow> tmp_path))"

text \<open>\<open>pid\<close> is the process id in decimal.\<close>

definition producer_socket_path :: "string option \<Rightarrow> string \<Rightarrow> path" where
  "producer_socket_path xdg pid =
     path_push (''tlt-c-'' @ pid @ ''.sock'')
       (path_push ''telesthete'' (case xdg of Some d \<Rightarrow> d | None \<Rightarrow> SOCKET_DIR_FALLBACK))"

section \<open>Opening\<close>

record tlt_env =
  te_xdg :: "string option"
  te_pid :: string
  te_exists :: "path \<Rightarrow> bool"
  te_runtime_ok :: bool
  te_removed :: remove_result
  te_bind_ok :: bool
  te_random :: bytes

definition open_internal :: "crypto_ops \<Rightarrow> tlt_env \<Rightarrow> bytes \<Rightarrow> path option \<Rightarrow> tlt_producer option" where
  "open_internal C E psk target_override =
     (if \<not> te_runtime_ok E then None
      else case unix_bind (te_removed E) (te_bind_ok E) (producer_socket_path (te_xdg E) (te_pid E))
                  (derive_key C psk) (derive_band_id C psk) (te_random E) of
             Inl _ \<Rightarrow> None
           | Inr t \<Rightarrow>
               Some \<lparr>tp_transport = t,
                     tp_target = (case target_override of Some p \<Rightarrow> p
                                  | None \<Rightarrow> default_target_for C (te_xdg E) (te_exists E) psk)\<rparr>)"

definition tlt_open_with_psk ::
  "crypto_ops \<Rightarrow> tlt_env \<Rightarrow> bytes option \<Rightarrow> nat \<Rightarrow> path option option \<Rightarrow> tlt_producer option" where
  "tlt_open_with_psk C E psk psk_len target_path =
     (if psk_len \<noteq> 0 \<and> psk = None then None
      else let psk_slice = (if psk_len = 0 then [] else take psk_len (the psk)) in
        case target_path of
          None \<Rightarrow> open_internal C E psk_slice None
        | Some None \<Rightarrow> None
        | Some (Some p) \<Rightarrow> open_internal C E psk_slice (Some p))"

definition LOCAL_PSK :: string where "LOCAL_PSK = ''telesthete-local''"

definition tlt_open :: "crypto_ops \<Rightarrow> tlt_env \<Rightarrow> path option option \<Rightarrow> tlt_producer option" where
  "tlt_open C E target_path =
     (case target_path of
        None \<Rightarrow> open_internal C E (str_bytes LOCAL_PSK) None
      | Some None \<Rightarrow> None
      | Some (Some p) \<Rightarrow> open_internal C E (str_bytes LOCAL_PSK) (Some p))"

section \<open>Sending a frame\<close>

record dmabuf_frame =
  fr_channel_id :: u16
  fr_frame_id :: u32
  fr_flags :: u32
  fr_width :: u32
  fr_height :: u32
  fr_fourcc :: u32
  fr_modifier :: u64
  fr_planes :: "dmabuf_plane list"
  fr_plane_count :: u8
  fr_fds :: "fd list"
  fr_fd_count :: u8

definition frame_descriptor :: "dmabuf_frame \<Rightarrow> dmabuf_descriptor" where
  "frame_descriptor f =
     \<lparr>dd_width = fr_width f, dd_height = fr_height f, dd_fourcc = fr_fourcc f, dd_modifier = fr_modifier f,
      dd_planes = take (unat (fr_plane_count f)) (fr_planes f), dd_fd_count = fr_fd_count f\<rparr>"

definition frame_flags :: "dmabuf_frame \<Rightarrow> u8" where
  "frame_flags f =
     (case stream_flags_from_bits (ucast (fr_flags f AND 0xFF) OR DMABUF) of Some b \<Rightarrow> b | None \<Rightarrow> DMABUF)"

definition frame_payload :: "dmabuf_frame \<Rightarrow> 32 word + bytes" where
  "frame_payload f =
     (let payload = replicate (STREAM_HEADER_LEN + encoded_len (unat (fr_plane_count f))) 0 in
      case stream_header_write \<lparr>sh_flags = frame_flags f, sh_frame_id = fr_frame_id f\<rparr> payload of
        Inl _ \<Rightarrow> Inl TLT_ERR_HEADER_WRITE
      | Inr (payload, _) \<Rightarrow>
          (case dmabuf_write (frame_descriptor f) (drop STREAM_HEADER_LEN payload) of
             Inl _ \<Rightarrow> Inl TLT_ERR_DESCRIPTOR_WRITE
           | Inr (body, _) \<Rightarrow> Inr (take STREAM_HEADER_LEN payload @ body)))"

text \<open>The return code, and what reached the socket: destination, packet and file descriptors.\<close>

definition tlt_send_dmabuf ::
  "crypto_ops \<Rightarrow> (path \<Rightarrow> bool) \<Rightarrow> bool \<Rightarrow> dmabuf_frame \<Rightarrow> tlt_producer option \<Rightarrow>
     tlt_producer option \<times> 32 word \<times> (path \<times> bytes \<times> fd list) option" where
  "tlt_send_dmabuf C addr_ok io_ok f handle =
     (case handle of
        None \<Rightarrow> (None, TLT_ERR_NULL_HANDLE, None)
      | Some h \<Rightarrow>
          if fr_plane_count f = 0 \<or> fr_plane_count f > TLT_MAX_PLANES then (handle, TLT_ERR_PLANE_COUNT, None)
          else if fr_fd_count f > TLT_MAX_FDS then (handle, TLT_ERR_FD_COUNT, None)
          else case frame_payload f of
                 Inl e \<Rightarrow> (handle, e, None)
               | Inr payload \<Rightarrow>
                   (case unix_send C addr_ok io_ok
                           \<lparr>uo_to = tp_target h, uo_channel_type = Stream, uo_channel_id = fr_channel_id f,
                            uo_plaintext = payload, uo_priority = 0,
                            uo_fds = (if fr_fd_count f = 0 then [] else take (unat (fr_fd_count f)) (fr_fds f))\<rparr>
                           (tp_transport h) of
                      (t, Inl _) \<Rightarrow> (Some (h\<lparr>tp_transport := t\<rparr>), TLT_ERR_SEND, None)
                    | (t, Inr sent) \<Rightarrow> (Some (h\<lparr>tp_transport := t\<rparr>), TLT_OK, Some sent)))"

section \<open>From the producer to the consumer\<close>

lemma frame_flags_eq: "frame_flags f = ucast (fr_flags f AND 0xFF) OR DMABUF"
  by (simp add: frame_flags_def)

lemma frame_flags_dmabuf: "stream_flags_contains (frame_flags f) DMABUF"
  by (simp add: frame_flags_eq stream_flags_contains_def)

lemma frame_payload_bytes:
  assumes "unat (fr_plane_count f) \<le> length (fr_planes f)" "frame_payload f = Inr payload"
  shows "payload = stream_packet_bytes (\<lparr>sh_flags = frame_flags f, sh_frame_id = fr_frame_id f\<rparr>, descriptor_bytes (frame_descriptor f))"
proof -
  have n: "length (dd_planes (frame_descriptor f)) = unat (fr_plane_count f)"
    using assms(1) by (simp add: frame_descriptor_def)
  show ?thesis
    using assms(2) n
    by (auto simp: frame_payload_def stream_header_write_def dmabuf_write_def STREAM_HEADER_LEN_def Let_def
        stream_packet_bytes_eq split: if_splits)
qed

text \<open>What a successful call sends.\<close>

lemma tlt_send_ok:
  assumes "tlt_send_dmabuf C addr_ok io_ok f (Some h) = (h', rc, Some sent)"
  obtains payload t where "frame_payload f = Inr payload" "fr_plane_count f \<noteq> 0" "fr_plane_count f \<le> TLT_MAX_PLANES"
    "fr_fd_count f \<le> TLT_MAX_FDS"
    "unix_send C addr_ok io_ok \<lparr>uo_to = tp_target h, uo_channel_type = Stream, uo_channel_id = fr_channel_id f,
       uo_plaintext = payload, uo_priority = 0, uo_fds = take (unat (fr_fd_count f)) (fr_fds f)\<rparr> (tp_transport h) = (t, Inr sent)"
  using assms by (auto simp: tlt_send_dmabuf_def not_less split: if_splits sum.splits prod.splits)

lemma frame_descriptor_wf:
  assumes "fr_plane_count f \<noteq> 0" "fr_plane_count f \<le> TLT_MAX_PLANES" "fr_fd_count f \<le> TLT_MAX_FDS"
    and "unat (fr_plane_count f) \<le> length (fr_planes f)"
    and "planes_ok (fr_fd_count f) (take (unat (fr_plane_count f)) (fr_planes f))"
  shows "wf_descriptor (frame_descriptor f)"
proof -
  have "1 \<le> unat (fr_plane_count f)" using assms(1) unat_gt_0 [of "fr_plane_count f"] by linarith
  then show ?thesis
    using assms by (simp add: wf_descriptor_def frame_descriptor_def MAX_PLANES_def MAX_FDS_PER_PACKET_def
        TLT_MAX_PLANES_def TLT_MAX_FDS_def word_le_nat_alt)
qed

text \<open>C15. A frame sent through the C interface arrives: when the call succeeds and each plane names one of the file
  descriptors passed (or none was passed), a consumer of the same pre-shared key that listens for streams
  receives the packet with exactly those descriptors, its stream header parses to the frame id and to the flags
  with \<open>DMABUF\<close> set, and its body parses to the descriptor with the caller's geometry, format and planes. The
  consumer's check of that descriptor against the flags then passes exactly when the caller left the fence to
  itself: no plane names the last of the descriptors of a frame with a fence, and a reuse brings the fence or
  nothing. The call itself does not check this.\<close>

theorem dmabuf_frame_arrives:
  assumes "crypto_ok C" and sent: "tlt_send_dmabuf C addr_ok io_ok f (Some h) = (h', rc, Some (dest, pkt, fds))"
    and planes: "unat (fr_plane_count f) \<le> length (fr_planes f)"
      "planes_ok (fr_fd_count f) (take (unat (fr_plane_count f)) (fr_planes f))"
    and consumer: "length (ut_band_id (tp_transport h)) = BAND_ID_LEN" "ut_key b = ut_key (tp_transport h)"
      "ut_band_id b = ut_band_id (tp_transport h)" "map_of (ut_routes b) Stream = Some sub" "sub_open sub"
  shows "rc = TLT_OK \<and> dest = tp_target h \<and> fds = take (unat (fr_fd_count f)) (fr_fds f) \<and>
    (\<exists>i body. unix_recv C sub_open (Some (ut_path (tp_transport h))) pkt \<lparr>cd_messages = [ScmRights fds], cd_parses = True\<rparr> b = (Some (sub, i), []) \<and>
       ui_fds i = fds \<and> h_channel_id (ui_header i) = fr_channel_id f \<and>
       stream_header_parse (ui_payload i) = Inr (\<lparr>sh_flags = frame_flags f, sh_frame_id = fr_frame_id f\<rparr>, body) \<and>
       stream_flags_contains (frame_flags f) DMABUF \<and> dmabuf_parse body = Inr (frame_descriptor f) \<and>
       (check_flags (frame_flags f) (frame_descriptor f) = Inr () \<longleftrightarrow>
          (if stream_flags_contains (frame_flags f) REUSE then fr_fd_count f = fence_fds (frame_flags f)
           else \<forall>p \<in> set (take (unat (fr_plane_count f)) (fr_planes f)).
             unat (dp_fd_index p) + unat (fence_fds (frame_flags f)) < unat (fr_fd_count f))))"
proof -
  obtain payload t where p: "frame_payload f = Inr payload" "fr_plane_count f \<noteq> 0" "fr_plane_count f \<le> TLT_MAX_PLANES"
    "fr_fd_count f \<le> TLT_MAX_FDS" and s: "unix_send C addr_ok io_ok \<lparr>uo_to = tp_target h, uo_channel_type = Stream,
       uo_channel_id = fr_channel_id f, uo_plaintext = payload, uo_priority = 0,
       uo_fds = take (unat (fr_fd_count f)) (fr_fds f)\<rparr> (tp_transport h) = (t, Inr (dest, pkt, fds))"
    by (rule tlt_send_ok [OF sent])
  note w = frame_descriptor_wf [OF p(2-4) planes]
  note pl = frame_payload_bytes [OF planes(1) p(1)]
  have "length (dd_planes (frame_descriptor f)) \<le> 4" using w by (simp add: wf_descriptor_def MAX_PLANES_def)
  then have "MIN_PACKET_LEN + length payload \<le> 65535"
    by (simp add: pl stream_packet_bytes_eq encoded_len_def HEADER_BYTES_def PLANE_BYTES_def MIN_PACKET_LEN_def HEADER_LEN_def TAG_LEN_def)
  moreover have "rc = TLT_OK" using sent by (auto simp: tlt_send_dmabuf_def split: if_splits sum.splits prod.splits)
  moreover have "dmabuf_parse (descriptor_bytes (frame_descriptor f)) = Inr (frame_descriptor f)"
    using parse_descriptor_bytes [OF w, of "[]"] by simp
  moreover have "fds = take (unat (fr_fd_count f)) (fr_fds f)"
    using s by (auto simp: unix_send_def split: prod.splits sum.splits if_splits)
  moreover have ch: "check_flags (frame_flags f) (frame_descriptor f) = Inr () \<longleftrightarrow>
      (if stream_flags_contains (frame_flags f) REUSE then fr_fd_count f = fence_fds (frame_flags f)
       else \<forall>p \<in> set (take (unat (fr_plane_count f)) (fr_planes f)).
         unat (dp_fd_index p) + unat (fence_fds (frame_flags f)) < unat (fr_fd_count f))"
    unfolding check_flags_iff by (simp add: frame_descriptor_def)
  ultimately show ?thesis
    using unix_send_recv [where sub_open = sub_open, OF assms(1) consumer(1-3) _ consumer(5) _ s] consumer(4)
    by (simp add: pl stream_header_parse_bytes frame_flags_dmabuf ch)
qed

definition demo_frame_args :: dmabuf_frame where
  "demo_frame_args = \<lparr>fr_channel_id = 3, fr_frame_id = 9, fr_flags = 0x20, fr_width = 64, fr_height = 32, fr_fourcc = 1,
     fr_modifier = 0, fr_planes = [\<lparr>dp_offset = 0, dp_stride = 256, dp_fd_index = 0\<rparr>], fr_plane_count = 1,
     fr_fds = [11, 12], fr_fd_count = 2\<rparr>"

definition demo_producer :: tlt_producer where
  "demo_producer = \<lparr>tp_transport = \<lparr>ut_path = ''a'', ut_key = replicate 32 1, ut_band_id = replicate 16 2, ut_seq = 5, ut_routes = []\<rparr>,
     tp_target = ''b''\<rparr>"

definition demo_consumer :: unix_transport where
  "demo_consumer = \<lparr>ut_path = ''b'', ut_key = replicate 32 1, ut_band_id = replicate 16 2, ut_seq = 0, ut_routes = [(Stream, 4)]\<rparr>"

theorem dmabuf_frame_arrives_witness:
  "\<exists>h' rc dest pkt fds i. tlt_send_dmabuf demo_ops (\<lambda>_. True) True demo_frame_args (Some demo_producer) = (h', rc, Some (dest, pkt, fds)) \<and>
     unix_recv demo_ops (\<lambda>_. True) (Some ''a'') pkt \<lparr>cd_messages = [ScmRights fds], cd_parses = True\<rparr> demo_consumer = (Some (4, i), []) \<and> ui_fds i = [11, 12] \<and>
     check_flags (frame_flags demo_frame_args) (frame_descriptor demo_frame_args) = Inr ()"
proof -
  have "snd (snd (tlt_send_dmabuf demo_ops (\<lambda>_. True) True demo_frame_args (Some demo_producer))) \<noteq> None" by code_simp
  then obtain h' rc dest pkt fds where s:
    "tlt_send_dmabuf demo_ops (\<lambda>_. True) True demo_frame_args (Some demo_producer) = (h', rc, Some (dest, pkt, fds))"
    by (cases "tlt_send_dmabuf demo_ops (\<lambda>_. True) True demo_frame_args (Some demo_producer)") auto
  have "unat (fr_plane_count demo_frame_args) \<le> length (fr_planes demo_frame_args)"
    "planes_ok (fr_fd_count demo_frame_args) (take (unat (fr_plane_count demo_frame_args)) (fr_planes demo_frame_args))"
    by (simp_all add: demo_frame_args_def planes_ok_def)
  moreover have "length (ut_band_id (tp_transport demo_producer)) = BAND_ID_LEN" "map_of (ut_routes demo_consumer) Stream = Some 4"
    "ut_key demo_consumer = ut_key (tp_transport demo_producer)" "ut_band_id demo_consumer = ut_band_id (tp_transport demo_producer)"
    by (simp_all add: demo_producer_def demo_consumer_def BAND_ID_LEN_def)
  moreover have "\<not> stream_flags_contains (frame_flags demo_frame_args) REUSE" "unat (fence_fds (frame_flags demo_frame_args)) = 1"
    by code_simp+
  ultimately show ?thesis
    using dmabuf_frame_arrives [where sub_open = "\<lambda>_. True" and b = demo_consumer and sub = 4, OF demo_ops_ok s] s
    by (auto simp: demo_producer_def demo_frame_args_def)
qed

end
