(* ===== verification/Discovery.thy ===== *)
theory Discovery
  imports Codec "HOL-Library.Sublist"
begin

text \<open>
  \<open>rust/telesthete/src/discovery.rs\<close>: announcements on the local network. The announcement format, and the receive
  task, which reports each peer it has not seen among the last 4096 reported ones. The socket is outside
  the model. A host name is a Rust string, the list of its UTF-8 bytes.
\<close>

section \<open>UTF-8\<close>

definition utf8_cont :: "u8 \<Rightarrow> u8 \<Rightarrow> u8 \<Rightarrow> bool" where
  "utf8_cont lo hi b \<longleftrightarrow> lo \<le> b \<and> b \<le> hi"

text \<open>The length of the first character, if there is a well-formed one; the rules are those of \<open>std::str::from_utf8\<close>.\<close>

definition utf8_first :: "bytes \<Rightarrow> nat option" where
  "utf8_first bs =
     (let a = bs ! 0; len = length bs;
          tail = (\<lambda>n. \<forall>i \<in> set [2..<n]. utf8_cont 0x80 0xBF (bs ! i));
          char = (\<lambda>n lo hi. if n \<le> len \<and> utf8_cont lo hi (bs ! 1) \<and> tail n then Some n else None)
      in if len = 0 then None
         else if a < 0x80 then Some 1
         else if a < 0xC2 then None
         else if a \<le> 0xDF then char 2 0x80 0xBF
         else if a = 0xE0 then char 3 0xA0 0xBF
         else if a = 0xED then char 3 0x80 0x9F
         else if a \<le> 0xEF then char 3 0x80 0xBF
         else if a = 0xF0 then char 4 0x90 0xBF
         else if a \<le> 0xF3 then char 4 0x80 0xBF
         else if a = 0xF4 then char 4 0x80 0x8F
         else None)"

lemma utf8_first_pos: "utf8_first bs = Some n \<Longrightarrow> 0 < n \<and> bs \<noteq> []"
  by (auto simp: utf8_first_def Let_def split: if_splits)

function valid_utf8 :: "bytes \<Rightarrow> bool" where
  "valid_utf8 bs = (bs = [] \<or> (case utf8_first bs of None \<Rightarrow> False | Some n \<Rightarrow> valid_utf8 (drop n bs)))"
  by pat_completeness auto
termination
  by (relation "measure length") (auto dest: utf8_first_pos)

declare valid_utf8.simps [simp del]

definition bytes_str :: "bytes \<Rightarrow> string" where
  "bytes_str bs = map (\<lambda>b. char_of (unat b)) bs"

section \<open>Announcements\<close>

definition MAGIC :: bytes where "MAGIC = str_bytes ''TELE''"
definition PROTOCOL_VERSION :: u8 where "PROTOCOL_VERSION = 3"

definition pack_announce :: "string \<Rightarrow> u16 \<Rightarrow> bytes" where
  "pack_announce hostname port =
     (let hb = take (min (length hostname) 255) (str_bytes hostname)
      in MAGIC @ [PROTOCOL_VERSION, of_nat (length hb)] @ hb @ to_be 2 port)"

definition parse_announce :: "bytes \<Rightarrow> (string \<times> u16) option" where
  "parse_announce data =
     (if length data < 8 \<or> take 4 data \<noteq> MAGIC \<or> data ! 4 \<noteq> PROTOCOL_VERSION then None
      else let stop = 6 + unat (data ! 5) in
        if length data < stop + 2 then None
        else if \<not> valid_utf8 (slice_of 6 stop data) then None
        else Some (bytes_str (slice_of 6 stop data), from_be [data ! stop, data ! (stop + 1)]))"

section \<open>The receive task\<close>

record discovered_peer =
  dp_hostname :: string
  dp_ip :: ip_addr
  dp_port :: u16

definition MAX_SEEN :: nat where "MAX_SEEN = 4096"

record discovery =
  ds_seen :: "discovered_peer set"
  ds_order :: "discovered_peer list"

definition discovery_new :: discovery where
  "discovery_new = \<lparr>ds_seen = {}, ds_order = []\<rparr>"

text \<open>The loop that evicts the oldest entries.\<close>

fun trim_seen :: "discovered_peer list \<Rightarrow> discovered_peer set \<Rightarrow> discovered_peer list \<times> discovered_peer set" where
  "trim_seen [] seen = ([], seen)"
| "trim_seen (old # ord) seen =
     (if length (old # ord) > MAX_SEEN then trim_seen ord (seen - {old}) else (old # ord, seen))"

text \<open>One datagram, of which the first 1024 bytes are read: the peer reported, if any.\<close>

definition discovery_recv ::
  "string \<Rightarrow> ip_addr \<Rightarrow> bytes \<Rightarrow> discovery \<Rightarrow> discovery \<times> discovered_peer option" where
  "discovery_recv own_hostname ip data st =
     (case parse_announce (take 1024 data) of
        None \<Rightarrow> (st, None)
      | Some (hostname, port) \<Rightarrow>
          if hostname = own_hostname then (st, None)
          else let peer = \<lparr>dp_hostname = hostname, dp_ip = ip, dp_port = port\<rparr> in
            if peer \<in> ds_seen st then (st, None)
            else let (ord, seen) = trim_seen (ds_order st @ [peer]) (insert peer (ds_seen st))
                 in (\<lparr>ds_seen = seen, ds_order = ord\<rparr>, Some peer))"

fun discovery_run ::
  "string \<Rightarrow> (ip_addr \<times> bytes) list \<Rightarrow> discovery \<Rightarrow> discovery \<times> discovered_peer list" where
  "discovery_run own [] st = (st, [])"
| "discovery_run own ((ip, data) # xs) st =
     (let (st, r) = discovery_recv own ip data st; (st, rs) = discovery_run own xs st
      in (st, (case r of None \<Rightarrow> [] | Some p \<Rightarrow> [p]) @ rs))"

section \<open>The format\<close>

lemma bytes_str_bytes [simp]: "bytes_str (str_bytes s) = s"
proof -
  have "char_of (unat (of_char c :: u8)) = c" for c :: char
  proof -
    have "unat (of_char c :: u8) = (of_char c :: nat)"
      unfolding of_nat_of_char [symmetric, where 'a = u8] by (simp add: unat_of_nat take_bit_eq_mod del: of_nat_of_char)
    then show ?thesis by simp
  qed
  then show ?thesis by (simp add: bytes_str_def str_bytes_def comp_def)
qed

lemma pack_announce_parse:
  "parse_announce (pack_announce hostname port @ rest) =
     (if valid_utf8 (str_bytes (take 255 hostname)) then Some (take 255 hostname, port) else None)"
proof -
  define hb where "hb = str_bytes (take 255 hostname)"
  let ?d = "pack_announce hostname port @ rest"
  have d: "?d = MAGIC @ [PROTOCOL_VERSION, of_nat (length hb)] @ hb @ to_be 2 port @ rest"
    by (simp add: pack_announce_def hb_def str_bytes_def take_map min_def)
  have m: "length MAGIC = 4" by (simp add: MAGIC_def)
  have "length hb \<le> 255" by (simp add: hb_def)
  then have n: "unat (of_nat (length hb) :: u8) = length hb" by (simp add: unat_of_nat take_bit_nat_eq_self)
  obtain x y where p: "to_be 2 port = [x, y]" by (auto simp: to_be_def to_le_def numeral_eq_Suc)
  have f: "?d ! 4 = PROTOCOL_VERSION" "?d ! 5 = of_nat (length hb)" "take 4 ?d = MAGIC"
    "slice_of 6 (6 + length hb) ?d = hb" "?d ! (6 + length hb) = x" "?d ! (6 + length hb + 1) = y"
    unfolding d p by (simp_all add: m nth_append slice_of_def)
  have "from_be [x, y] = port" using from_be_words(1) [of port] by (simp add: p)
  moreover have "8 \<le> length ?d" "6 + length hb + 2 \<le> length ?d" by (simp_all add: d m)
  moreover have "bytes_str hb = take 255 hostname" by (simp add: hb_def)
  ultimately show ?thesis unfolding hb_def [symmetric] parse_announce_def Let_def f n by (simp add: not_less)
qed

text \<open>An announcement is read back: whatever follows it, the packet of a host name of at most 255 bytes and a port
  parses to that name and that port.\<close>

theorem announce_round_trip:
  assumes "length hostname \<le> 255" "valid_utf8 (str_bytes hostname)"
  shows "parse_announce (pack_announce hostname port @ rest) = Some (hostname, port)"
  using assms by (simp add: pack_announce_parse)

theorem announce_round_trip_witness: "parse_announce (pack_announce ''host'' 20001 @ [1, 2]) = Some (''host'', 20001)"
proof -
  have "valid_utf8 (str_bytes ''host'')" by code_simp
  then show ?thesis by (intro announce_round_trip) simp_all
qed

text \<open>A host name of more than 255 bytes is not announced: the cut at 255 bytes either splits a character, and then
  nobody can parse the announcement, or gives another name, and then the host takes its own broadcast for that
  of a new peer.\<close>

theorem long_hostname_misannounced:
  assumes "255 < length hostname"
  shows "parse_announce (pack_announce hostname port) \<noteq> Some (hostname, port) \<and>
    (if valid_utf8 (str_bytes (take 255 hostname))
     then snd (discovery_recv hostname ip (pack_announce hostname port) discovery_new) =
       Some \<lparr>dp_hostname = take 255 hostname, dp_ip = ip, dp_port = port\<rparr>
     else parse_announce (pack_announce hostname port) = None)"
proof -
  have "length (take 255 hostname) < length hostname" using assms by simp
  then have t: "take 255 hostname \<noteq> hostname" by (metis less_irrefl)
  have "length (pack_announce hostname port) \<le> 1024" by (simp add: pack_announce_def Let_def MAGIC_def)
  then have "take 1024 (pack_announce hostname port) = pack_announce hostname port" by simp
  with t show ?thesis using pack_announce_parse [of hostname port "[]"]
    by (simp add: discovery_recv_def discovery_new_def MAX_SEEN_def Let_def)
qed

theorem long_hostname_misannounced_witness:
  "parse_announce (pack_announce (replicate 300 (CHR ''a'')) 7) \<noteq> Some (replicate 300 (CHR ''a''), 7)"
  using long_hostname_misannounced [of "replicate 300 (CHR ''a'')" 7] by simp

section \<open>What is reported\<close>

lemma trim_seen_eq:
  assumes "distinct ord" "seen = set ord"
  shows "trim_seen ord seen = (drop (length ord - MAX_SEEN) ord, set (drop (length ord - MAX_SEEN) ord))"
  using assms
proof (induction ord arbitrary: seen)
  case (Cons x ord)
  show ?case
  proof (cases "length (x # ord) > MAX_SEEN")
    case True
    then have "length (x # ord) - MAX_SEEN = Suc (length ord - MAX_SEEN)" by simp
    moreover have "seen - {x} = set ord" using Cons.prems by auto
    ultimately show ?thesis using Cons.IH [of "seen - {x}"] Cons.prems(1) True by simp
  next
    case False
    then have "length (x # ord) - MAX_SEEN = 0" by simp
    then show ?thesis using False Cons.prems(2) by simp
  qed
qed simp

definition recent :: "'a list \<Rightarrow> 'a list" where
  "recent R = drop (length R - MAX_SEEN) R"

definition spaced :: "'a list \<Rightarrow> bool" where
  "spaced R \<longleftrightarrow> (\<forall>i j. i < j \<and> j < length R \<and> R ! i = R ! j \<longrightarrow> i + MAX_SEEN < j)"

lemma spaced_recent: "spaced R \<Longrightarrow> distinct (recent R)"
proof -
  assume sp: "spaced R"
  let ?k = "length R - MAX_SEEN"
  have "R ! (?k + i) \<noteq> R ! (?k + j)" if "i < j" "j < length R - ?k" for i j
  proof
    assume "R ! (?k + i) = R ! (?k + j)"
    then have "?k + i + MAX_SEEN < ?k + j" using sp that unfolding spaced_def by (metis add_less_cancel_left less_diff_conv add.commute)
    then show False using that by linarith
  qed
  then show ?thesis by (simp add: recent_def distinct_conv_nth) (metis nat_neq_iff)
qed

lemma recent_member: "i < length R \<Longrightarrow> length R \<le> i + MAX_SEEN \<Longrightarrow> R ! i \<in> set (recent R)"
proof -
  assume "i < length R" "length R \<le> i + MAX_SEEN"
  then have "R ! i = recent R ! (i - (length R - MAX_SEEN))" "i - (length R - MAX_SEEN) < length (recent R)"
    by (auto simp: recent_def)
  then show ?thesis by (metis nth_mem)
qed

lemma spaced_snoc: "spaced R \<Longrightarrow> p \<notin> set (recent R) \<Longrightarrow> spaced (R @ [p])"
  using recent_member [of _ R] by (fastforce simp: spaced_def nth_append less_Suc_eq not_le)

lemma recent_snoc: "recent (recent R @ [p]) = recent (R @ [p])"
  by (cases "length R < MAX_SEEN") (auto simp: recent_def Suc_diff_le)

lemma trim_seen_recent: "distinct ord \<Longrightarrow> trim_seen ord (set ord) = (recent ord, set (recent ord))"
  by (simp add: recent_def trim_seen_eq)

definition discovery_inv :: "discovered_peer list \<Rightarrow> discovery \<Rightarrow> bool" where
  "discovery_inv R st \<longleftrightarrow> spaced R \<and> ds_order st = recent R \<and> ds_seen st = set (recent R)"

lemma discovery_recv_inv:
  assumes "discovery_inv R st" "discovery_recv own ip data st = (st', r)"
  shows "discovery_inv (R @ (case r of None \<Rightarrow> [] | Some p \<Rightarrow> [p])) st'"
proof (cases r)
  case None
  with assms show ?thesis by (auto simp: discovery_recv_def Let_def split: option.splits if_splits prod.splits)
next
  case (Some p)
  have new: "p \<notin> set (recent R)" and st': "st' = (let (ord, seen) = trim_seen (recent R @ [p]) (insert p (set (recent R))) in \<lparr>ds_seen = seen, ds_order = ord\<rparr>)"
    using assms Some by (auto simp: discovery_recv_def discovery_inv_def Let_def split: option.splits if_splits prod.splits)
  have sp: "spaced R" using assms(1) by (simp add: discovery_inv_def)
  have "distinct (recent R @ [p])" "insert p (set (recent R)) = set (recent R @ [p])"
    using spaced_recent [OF sp] new by auto
  then have "st' = \<lparr>ds_seen = set (recent (R @ [p])), ds_order = recent (R @ [p])\<rparr>"
    unfolding st' by (simp only: trim_seen_recent recent_snoc Let_def prod.case)
  then show ?thesis using spaced_snoc [OF sp new] Some by (simp add: discovery_inv_def)
qed

lemma discovery_run_inv:
  "discovery_inv R st \<Longrightarrow> discovery_run own xs st = (st', rs) \<Longrightarrow> discovery_inv (R @ rs) st'"
proof (induction xs arbitrary: R st rs)
  case (Cons x xs)
  obtain ip data where x: "x = (ip, data)" by (rule prod.exhaust)
  obtain st1 r where r: "discovery_recv own ip data st = (st1, r)" by fastforce
  obtain rs' where rs: "discovery_run own xs st1 = (st', rs')" "rs = (case r of None \<Rightarrow> [] | Some p \<Rightarrow> [p]) @ rs'"
    using Cons.prems(2) by (auto simp: x r split: prod.splits)
  from Cons.IH [OF discovery_recv_inv [OF Cons.prems(1) r] rs(1)] rs(2) show ?case by simp
qed simp

text \<open>C29. The memory of the receive task is bounded and exact: after any traffic it holds the last 4096 reports, in
  order and each once, and the same peer is reported twice only with at least 4096 other reports in between.\<close>

theorem discovery_reports_spaced:
  assumes "discovery_run own xs discovery_new = (st, rs)"
  shows "ds_order st = drop (length rs - MAX_SEEN) rs \<and> ds_seen st = set (ds_order st) \<and> distinct (ds_order st) \<and>
    (\<forall>i j. i < j \<and> j < length rs \<and> rs ! i = rs ! j \<longrightarrow> i + MAX_SEEN < j)"
proof -
  have "discovery_inv [] discovery_new" by (simp add: discovery_inv_def discovery_new_def spaced_def recent_def)
  from discovery_run_inv [OF this assms] have "discovery_inv rs st" by simp
  then show ?thesis using spaced_recent [of rs] by (simp add: discovery_inv_def spaced_def recent_def)
qed

theorem discovery_reports_spaced_witness:
  "distinct (ds_order (fst (discovery_run ''me'' [(V4 1, pack_announce ''host'' 7), (V4 1, pack_announce ''host'' 7)] discovery_new)))"
  using discovery_reports_spaced [OF surjective_pairing] by blast

end
