(* ===== verification/Rook_Crypto.thy ===== *)
theory Rook_Crypto
  imports Framing
begin

text \<open>
  \<open>src/src/crypto.rs\<close> of the thin-client transport: the three-message handshake that mixes an ephemeral
  Diffie-Hellman secret with the pre-shared key, and the encryption of TCP records and UDP datagrams. Key
  exchange, key derivation and message authentication are crates: they are the fields of \<open>rook_ops\<close>, which
  extends the primitives of the main crate; \<open>rook_ok\<close> states their documented lengths and that the two ends of an
  exchange compute the same secret. Random bytes are arguments. A panic of \<open>seal\<close> is \<open>None\<close>.
\<close>

record rook_ops = crypto_ops +
  x25519_public :: "bytes \<Rightarrow> bytes"
  x25519_shared :: "bytes \<Rightarrow> bytes \<Rightarrow> bytes"
  hkdf_expand :: "bytes \<Rightarrow> bytes \<Rightarrow> bytes \<Rightarrow> bytes"
  hmac_sha256 :: "bytes \<Rightarrow> bytes \<Rightarrow> bytes"

definition rook_ok :: "rook_ops \<Rightarrow> bool" where
  "rook_ok R \<longleftrightarrow>
     (\<forall>a b. x25519_shared R a (x25519_public R b) = x25519_shared R b (x25519_public R a)) \<and>
     (\<forall>a. length (x25519_public R a) = 32) \<and>
     (\<forall>k m. length (hmac_sha256 R k m) = 32) \<and>
     aead_ok (chacha_encrypt R) (chacha_decrypt R)"

section \<open>Handshake\<close>

definition ROOK_VERSION :: u8 where "ROOK_VERSION = 1"

datatype hs_error = BadVersion | ShortMessage | BadConfirm

record rook_session =
  k_tcp_tx :: bytes
  k_tcp_rx :: bytes
  k_udp_tx :: bytes
  k_udp_rx :: bytes
  rs_session_id :: bytes

text \<open>The keys of both directions, for TCP and for UDP, and the session id.\<close>

definition rook_derive :: "rook_ops \<Rightarrow> bytes \<Rightarrow> bytes \<Rightarrow> bytes \<Rightarrow> bytes \<times> bytes \<times> bytes \<times> bytes \<times> bytes" where
  "rook_derive R dh psk transcript =
     (let okm = hkdf_expand R transcript (dh @ psk) (str_bytes ''telesthete-v1'')
      in (slice_of 0 32 okm, slice_of 32 64 okm, slice_of 64 96 okm, slice_of 96 128 okm, slice_of 128 144 okm))"

definition confirm :: "rook_ops \<Rightarrow> bytes \<Rightarrow> string \<Rightarrow> bytes \<Rightarrow> bytes" where
  "confirm R k label transcript = hmac_sha256 R k (str_bytes label @ transcript)"

definition transcript :: "bytes \<Rightarrow> bytes \<Rightarrow> bytes \<Rightarrow> bytes \<Rightarrow> bytes" where
  "transcript ec eh nc nh = ROOK_VERSION # ec @ eh @ nc @ nh"

text \<open>The comparison that does not stop at the first difference.\<close>

unbundle bit_operations_syntax

definition ct_eq :: "bytes \<Rightarrow> bytes \<Rightarrow> bool" where
  "ct_eq a b =
     (if length a \<noteq> length b then False
      else fold (\<lambda>i d. d OR (a ! i XOR b ! i)) [0..<length a] 0 = 0)"

record client_handshake =
  ch_secret :: bytes
  ch_ec_pub :: bytes
  ch_nc :: bytes
  ch_psk :: bytes

definition client_new :: "rook_ops \<Rightarrow> bytes \<Rightarrow> bytes \<Rightarrow> bytes \<Rightarrow> client_handshake" where
  "client_new R secret nc psk = \<lparr>ch_secret = secret, ch_ec_pub = x25519_public R secret, ch_nc = nc, ch_psk = psk\<rparr>"

definition hello1 :: "u16 \<Rightarrow> client_handshake \<Rightarrow> bytes" where
  "hello1 udp_port c = ROOK_VERSION # ch_ec_pub c @ ch_nc c @ to_le 2 udp_port"

definition recv_hello2 :: "rook_ops \<Rightarrow> bytes \<Rightarrow> client_handshake \<Rightarrow> hs_error + rook_session \<times> u16 \<times> bytes" where
  "recv_hello2 R m c =
     (if length m < 82 then Inl ShortMessage
      else let eh = slice_of 0 32 m; nh = slice_of 32 48 m;
               dh = x25519_shared R (ch_secret c) eh;
               t = transcript (ch_ec_pub c) eh (ch_nc c) nh;
               (c2h, h2c, uc2h, uh2c, sid) = rook_derive R dh (ch_psk c) t
           in if \<not> ct_eq (confirm R h2c ''host-confirm'' t) (slice_of 48 80 m) then Inl BadConfirm
              else Inr (\<lparr>k_tcp_tx = c2h, k_tcp_rx = h2c, k_udp_tx = uc2h, k_udp_rx = uh2c, rs_session_id = sid\<rparr>,
                        from_le [m ! 80, m ! 81], confirm R c2h ''client-confirm'' t))"

record pending_confirm =
  pc_c2h :: bytes
  pc_transcript :: bytes

definition host_respond ::
  "rook_ops \<Rightarrow> bytes \<Rightarrow> bytes \<Rightarrow> bytes \<Rightarrow> bytes \<Rightarrow> u16 \<Rightarrow>
     hs_error + bytes \<times> rook_session \<times> pending_confirm \<times> u16" where
  "host_respond R secret nh m psk host_udp_port =
     (if m = [] \<or> m ! 0 \<noteq> ROOK_VERSION then Inl BadVersion
      else if length m < 51 then Inl ShortMessage
      else let ec = slice_of 1 33 m; nc = slice_of 33 49 m;
               eh = x25519_public R secret;
               dh = x25519_shared R secret ec;
               t = transcript ec eh nc nh;
               (c2h, h2c, uc2h, uh2c, sid) = rook_derive R dh psk t
           in Inr (eh @ nh @ confirm R h2c ''host-confirm'' t @ to_le 2 host_udp_port,
                   \<lparr>k_tcp_tx = h2c, k_tcp_rx = c2h, k_udp_tx = uh2c, k_udp_rx = uc2h, rs_session_id = sid\<rparr>,
                   \<lparr>pc_c2h = c2h, pc_transcript = t\<rparr>, from_le [m ! 49, m ! 50]))"

definition verify :: "rook_ops \<Rightarrow> bytes \<Rightarrow> pending_confirm \<Rightarrow> hs_error + unit" where
  "verify R m p =
     (if length m < 32 then Inl ShortMessage
      else if ct_eq (confirm R (pc_c2h p) ''client-confirm'' (pc_transcript p)) (take 32 m) then Inr () else Inl BadConfirm)"

section \<open>Records and datagrams\<close>

record record_key =
  rk_key :: bytes
  rk_counter :: u64

definition record_key_new :: "bytes \<Rightarrow> record_key" where
  "record_key_new k = \<lparr>rk_key = k, rk_counter = 0\<rparr>"

definition record_nonce :: "u64 \<Rightarrow> bytes" where
  "record_nonce n = replicate 4 0 @ to_le 8 n"

definition record_seal :: "rook_ops \<Rightarrow> bytes \<Rightarrow> record_key \<Rightarrow> (record_key \<times> bytes) option" where
  "record_seal R plaintext k =
     map_option (Pair (k\<lparr>rk_counter := rk_counter k + 1\<rparr>)) (chacha_encrypt R (rk_key k) (record_nonce (rk_counter k)) [] plaintext)"

text \<open>The counter moves only when the record opens.\<close>

definition record_open :: "rook_ops \<Rightarrow> bytes \<Rightarrow> record_key \<Rightarrow> (record_key \<times> bytes) option" where
  "record_open R ct k =
     map_option (Pair (k\<lparr>rk_counter := rk_counter k + 1\<rparr>)) (chacha_decrypt R (rk_key k) (record_nonce (rk_counter k)) [] ct)"

definition datagram_nonce :: "u8 \<Rightarrow> u8 \<Rightarrow> u32 \<Rightarrow> bytes" where
  "datagram_nonce dtype channel seq = [dtype, channel, 0] @ to_le 4 seq @ replicate 5 0"

definition datagram_seal :: "rook_ops \<Rightarrow> bytes \<Rightarrow> u8 \<Rightarrow> u8 \<Rightarrow> u32 \<Rightarrow> bytes \<Rightarrow> bytes option" where
  "datagram_seal R k dtype channel seq plaintext =
     chacha_encrypt R k (datagram_nonce dtype channel seq) [dtype, channel] plaintext"

definition datagram_open :: "rook_ops \<Rightarrow> bytes \<Rightarrow> u8 \<Rightarrow> u8 \<Rightarrow> u32 \<Rightarrow> bytes \<Rightarrow> bytes option" where
  "datagram_open R k dtype channel seq ct =
     chacha_decrypt R k (datagram_nonce dtype channel seq) [dtype, channel] ct"

section \<open>Lemmas\<close>

lemma or_eq_zero_iff: "(v :: 'a::len word) OR w = 0 \<longleftrightarrow> v = 0 \<and> w = 0"
  by (auto simp: bit_eq_iff bit_or_iff)

lemma xor_eq_zero_iff: "(v :: 'a::len word) XOR w = 0 \<longleftrightarrow> v = w"
  by (auto simp: bit_eq_iff bit_xor_iff)

lemma ct_fold_zero:
  "fold (\<lambda>i d. d OR (a ! i XOR b ! i)) is (d :: u8) = 0 \<longleftrightarrow> d = 0 \<and> (\<forall>i \<in> set is. a ! i = b ! i)"
  by (induction "is" arbitrary: d) (auto simp: or_eq_zero_iff xor_eq_zero_iff)

lemma ct_eq_iff: "ct_eq a b \<longleftrightarrow> a = b"
  by (auto simp: ct_eq_def ct_fold_zero intro: nth_equalityI)

lemma record_open_seal:
  assumes "rook_ok R" "record_seal R pt k = Some (k', ct)"
  shows "record_open R ct k = Some (k', pt)"
  using assms by (auto simp: rook_ok_def aead_ok_def record_seal_def record_open_def)

lemma datagram_open_iff:
  "rook_ok R \<Longrightarrow> datagram_open R k ty ch n ct = Some pt \<longleftrightarrow> datagram_seal R k ty ch n pt = Some ct"
  by (simp add: rook_ok_def aead_ok_def datagram_open_def datagram_seal_def)

lemma datagram_nonce_inj: "datagram_nonce ty ch m = datagram_nonce ty' ch' n \<longleftrightarrow> ty = ty' \<and> ch = ch' \<and> m = n"
  by (auto simp: datagram_nonce_def dest: arg_cong [where f = "from_le :: bytes \<Rightarrow> u32"])

section \<open>The handshake\<close>

definition mirrored :: "rook_session \<Rightarrow> rook_session \<Rightarrow> bool" where
  "mirrored s s' \<longleftrightarrow> k_tcp_tx s = k_tcp_rx s' \<and> k_tcp_rx s = k_tcp_tx s' \<and> k_udp_tx s = k_udp_rx s' \<and>
     k_udp_rx s = k_udp_tx s' \<and> rs_session_id s = rs_session_id s'"

lemma host_respond_hello1:
  assumes "rook_ok R" "length nc = 16"
  shows "host_respond R sh nh (hello1 cport (client_new R sc nc psk)) psk' hport =
    (let t = transcript (x25519_public R sc) (x25519_public R sh) nc nh;
         (c2h, h2c, uc2h, uh2c, sid) = rook_derive R (x25519_shared R sh (x25519_public R sc)) psk' t
     in Inr (x25519_public R sh @ nh @ confirm R h2c ''host-confirm'' t @ to_le 2 hport,
          \<lparr>k_tcp_tx = h2c, k_tcp_rx = c2h, k_udp_tx = uh2c, k_udp_rx = uc2h, rs_session_id = sid\<rparr>,
          \<lparr>pc_c2h = c2h, pc_transcript = t\<rparr>, cport))"
proof -
  let ?m = "hello1 cport (client_new R sc nc psk)"
  have l: "length (x25519_public R sc) = 32" using assms(1) by (simp add: rook_ok_def)
  obtain x y where p: "to_le 2 cport = [x, y]" by (auto simp: to_le_def numeral_eq_Suc)
  have "from_le [x, y] = cport" using from_le_words(1) [of cport] by (simp add: p)
  moreover have "length ?m = 51" "?m ! 0 = ROOK_VERSION" "slice_of 1 33 ?m = x25519_public R sc" "slice_of 33 49 ?m = nc"
    "?m ! 49 = x" "?m ! 50 = y"
    using l assms(2) by (simp_all add: hello1_def client_new_def slice_of_def p nth_append nth_Cons')
  ultimately show ?thesis unfolding host_respond_def by (auto simp: Let_def split: prod.split)
qed

lemma recv_hello2_bytes:
  assumes "length eh = 32" "length nh = 16" "length tag = 32"
  shows "recv_hello2 R (eh @ nh @ tag @ to_le 2 hport) c =
    (let t = transcript (ch_ec_pub c) eh (ch_nc c) nh;
         (c2h, h2c, uc2h, uh2c, sid) = rook_derive R (x25519_shared R (ch_secret c) eh) (ch_psk c) t
     in if confirm R h2c ''host-confirm'' t \<noteq> tag then Inl BadConfirm
        else Inr (\<lparr>k_tcp_tx = c2h, k_tcp_rx = h2c, k_udp_tx = uc2h, k_udp_rx = uh2c, rs_session_id = sid\<rparr>,
               hport, confirm R c2h ''client-confirm'' t))"
proof -
  let ?m = "eh @ nh @ tag @ to_le 2 hport"
  obtain x y where p: "to_le 2 hport = [x, y]" by (auto simp: to_le_def numeral_eq_Suc)
  have "from_le [x, y] = hport" using from_le_words(1) [of hport] by (simp add: p)
  moreover have "length ?m = 82" "slice_of 0 32 ?m = eh" "slice_of 32 48 ?m = nh" "slice_of 48 80 ?m = tag" "?m ! 80 = x" "?m ! 81 = y"
    using assms by (simp_all add: slice_of_def p nth_append)
  ultimately show ?thesis unfolding recv_hello2_def by (auto simp: Let_def ct_eq_iff split: prod.split)
qed

text \<open>C14. The handshake of the thin-client transport agrees: a client and a host with the same pre-shared key accept
  each other's confirmations, learn each other's UDP ports, and hold mirrored sessions, each receiving with the
  keys the other sends with. A host with another pre-shared key is refused exactly when its authentication tag of
  the transcript is not the client's own.\<close>

theorem rook_handshake_agrees:
  assumes "rook_ok R" "length nc = 16" "length nh = 16"
    and "t = transcript (x25519_public R sc) (x25519_public R sh) nc nh" "dh = x25519_shared R sc (x25519_public R sh)"
  shows "\<exists>h2 hs pend ss c3. host_respond R sh nh (hello1 cport (client_new R sc nc psk)) psk' hport = Inr (h2, hs, pend, cport) \<and>
    (if psk' = psk
     then recv_hello2 R h2 (client_new R sc nc psk) = Inr (ss, hport, c3) \<and> verify R c3 pend = Inr () \<and> mirrored ss hs
     else recv_hello2 R h2 (client_new R sc nc psk) = Inl BadConfirm \<longleftrightarrow>
       confirm R (fst (snd (rook_derive R dh psk t))) ''host-confirm'' t \<noteq> confirm R (fst (snd (rook_derive R dh psk' t))) ''host-confirm'' t)"
proof -
  have dh: "x25519_shared R sh (x25519_public R sc) = dh"
    and l: "length (x25519_public R sh) = 32" "length (confirm R k lab t) = 32" for k lab t
    using assms(1,5) by (simp_all add: rook_ok_def confirm_def)
  obtain a b c d e where d': "rook_derive R dh psk' t = (a, b, c, d, e)" by (rule prod_cases5)
  obtain a' b' c' d' e' where d: "rook_derive R dh psk t = (a', b', c', d', e')" by (rule prod_cases5)
  note h = host_respond_hello1 [OF assms(1,2), of sh nh cport sc psk psk' hport, folded assms(4), unfolded dh d' Let_def prod.case]
  have r: "recv_hello2 R (x25519_public R sh @ nh @ confirm R b ''host-confirm'' t @ to_le 2 hport) (client_new R sc nc psk) =
    (if confirm R b' ''host-confirm'' t \<noteq> confirm R b ''host-confirm'' t then Inl BadConfirm
     else Inr (\<lparr>k_tcp_tx = a', k_tcp_rx = b', k_udp_tx = c', k_udp_rx = d', rs_session_id = e'\<rparr>, hport, confirm R a' ''client-confirm'' t))"
    using recv_hello2_bytes [OF l(1) assms(3) l(2), of R b "''host-confirm''" t hport "client_new R sc nc psk"] d assms(4,5)
    by (simp add: client_new_def)
  show ?thesis
  proof (cases "psk' = psk")
    case True
    with d d' have "a = a'" "b = b'" "c = c'" "d = d'" "e = e'" by auto
    moreover from this r have "recv_hello2 R (x25519_public R sh @ nh @ confirm R b' ''host-confirm'' t @ to_le 2 hport) (client_new R sc nc psk) =
      Inr (\<lparr>k_tcp_tx = a', k_tcp_rx = b', k_udp_tx = c', k_udp_rx = d', rs_session_id = e'\<rparr>, hport, confirm R a' ''client-confirm'' t)"
      by simp
    ultimately show ?thesis using True unfolding h by (simp add: verify_def ct_eq_iff mirrored_def l)
  next
    case False
    then show ?thesis unfolding h by (auto simp: r d d')
  qed
qed

section \<open>Concrete primitives\<close>

definition demo_pad :: "bytes \<Rightarrow> bytes" where
  "demo_pad a = take 32 (a @ replicate 32 0)"

definition demo_rook :: rook_ops where
  "demo_rook = crypto_ops.extend demo_ops
     \<lparr>x25519_public = demo_pad, x25519_shared = (\<lambda>a b. map2 (XOR) (demo_pad a) (demo_pad b)),
      hkdf_expand = (\<lambda>s i n. take 144 (i @ s @ n @ replicate 144 0)),
      hmac_sha256 = (\<lambda>k m. demo_pad (k @ m))\<rparr>"

lemma demo_rook_ok: "rook_ok demo_rook"
proof -
  have p: "length (demo_pad a) = 32" "demo_pad (demo_pad a) = demo_pad a" for a by (simp_all add: demo_pad_def)
  have "map2 (XOR) xs ys = map2 (XOR) ys xs" for xs ys :: bytes
    by (simp add: list_eq_iff_nth_eq xor.commute min.commute)
  with p show ?thesis
    using demo_aead by (simp add: rook_ok_def demo_rook_def crypto_ops.defs demo_ops_def)
qed

theorem rook_handshake_agrees_witness:
  "\<exists>h2 hs pend ss c3. host_respond demo_rook [1] (replicate 16 2) (hello1 700 (client_new demo_rook [3] (replicate 16 4) [5])) [5] 800
       = Inr (h2, hs, pend, 700) \<and>
     recv_hello2 demo_rook h2 (client_new demo_rook [3] (replicate 16 4) [5]) = Inr (ss, 800, c3) \<and> mirrored ss hs"
  using rook_handshake_agrees [OF demo_rook_ok, of "replicate 16 4" "replicate 16 2", OF _ _ refl refl,
    of "[1]" 700 "[3]" "[5]" "[5]" 800] by auto

end
