(* ===== verification/Rook_Wire.thy ===== *)
theory Rook_Wire
  imports Codec
begin

text \<open>
  \<open>src/src/wire.rs\<close> of the thin-client transport: which channels ride UDP, the framing of TCP records and of
  UDP fragments, and the receiver's ordering and reassembly of datagrams.
\<close>

definition CH_CTL :: u8 where "CH_CTL = 0"
definition CH_INPUT :: u8 where "CH_INPUT = 1"
definition CH_META :: u8 where "CH_META = 201"
definition COALESCIBLE_BIT :: u8 where "COALESCIBLE_BIT = 0x80"
definition DT_DATA :: u8 where "DT_DATA = 0"
definition DT_FRAG :: u8 where "DT_FRAG = 1"
definition DT_HELLO :: u8 where "DT_HELLO = 2"
definition DT_PING :: u8 where "DT_PING = 3"
definition DT_PONG :: u8 where "DT_PONG = 4"

unbundle bit_operations_syntax

definition is_udp :: "u8 \<Rightarrow> u8 \<Rightarrow> bool" where
  "is_udp channel first_op =
     (if channel = CH_CTL \<or> channel = CH_META then False
      else if channel = CH_INPUT then first_op AND COALESCIBLE_BIT \<noteq> 0
      else if channel = 200 then True
      else 2 \<le> channel \<and> channel \<le> 9)"

section \<open>Framing\<close>

definition frame_tcp :: "u8 \<Rightarrow> bytes \<Rightarrow> bytes" where
  "frame_tcp channel msg = channel # to_le 4 (of_nat (length msg) :: u32) @ msg"

definition parse_tcp :: "bytes \<Rightarrow> (u8 \<times> bytes \<times> nat) option" where
  "parse_tcp buf =
     (if length buf < 5 then None
      else let len = unat (from_le (slice_of 1 5 buf) :: u32) in
        if length buf < 5 + len then None
        else Some (buf ! 0, slice_of 5 (5 + len) buf, 5 + len))"

definition data_body :: "bytes \<Rightarrow> bytes" where
  "data_body msg = msg"

definition frag_body :: "u32 \<Rightarrow> u16 \<Rightarrow> u16 \<Rightarrow> bytes \<Rightarrow> bytes" where
  "frag_body msg_id idx count piece = to_le 4 msg_id @ to_le 2 idx @ to_le 2 count @ piece"

definition parse_frag :: "bytes \<Rightarrow> (u32 \<times> u16 \<times> u16 \<times> bytes) option" where
  "parse_frag body =
     (if length body < 8 then None
      else Some (from_le (slice_of 0 4 body), from_le (slice_of 4 6 body), from_le (slice_of 6 8 body), drop 8 body))"

definition rook_fragment :: "bytes \<Rightarrow> nat \<Rightarrow> bytes list" where
  "rook_fragment msg mtu =
     (let payload = max (mtu - (8 + 16)) 1
      in if length msg \<le> payload then [msg] else chunks payload msg)"

section \<open>Ordering and reassembly\<close>

record frag_set =
  fs_count :: u16
  fs_parts :: "bytes option list"
  fs_have :: u16

record udp_reasm =
  ur_last_seq :: "(u8 \<times> u32, u32) hashmap"
  ur_frags :: "(u8 \<times> u32, frag_set) hashmap"

definition reasm_new :: udp_reasm where
  "reasm_new = \<lparr>ur_last_seq = [], ur_frags = []\<rparr>"

text \<open>Serial number order: newer by less than half the range.\<close>

definition newer :: "u32 \<Rightarrow> u32 \<Rightarrow> bool" where
  "newer seq last_seq \<longleftrightarrow> seq \<noteq> last_seq \<and> seq - last_seq < 0x80000000"

definition window_key :: "u8 \<Rightarrow> bytes \<Rightarrow> u32" where
  "window_key channel msg =
     (if channel = 200 \<or> length msg < 8 then 0 else from_le (slice_of 4 8 msg))"

definition on_data :: "u8 \<Rightarrow> u32 \<Rightarrow> bytes \<Rightarrow> udp_reasm \<Rightarrow> udp_reasm \<times> bytes option" where
  "on_data channel seq msg r =
     (let k = (channel, window_key channel msg) in
      if channel = 200 then (r, Some msg)
      else if (case map_of (ur_last_seq r) k of Some l \<Rightarrow> \<not> newer seq l | None \<Rightarrow> False) then (r, None)
      else (r\<lparr>ur_last_seq := hm_insert k seq (ur_last_seq r)\<rparr>, Some msg))"

definition supersede :: "u8 \<Rightarrow> u32 \<Rightarrow> udp_reasm \<Rightarrow> udp_reasm" where
  "supersede channel msg_id r =
     r\<lparr>ur_frags := filter (\<lambda>((c, mid), _). c \<noteq> channel \<or> mid = msg_id \<or> newer mid msg_id) (ur_frags r)\<rparr>"

definition on_frag :: "u8 \<Rightarrow> u32 \<Rightarrow> u16 \<Rightarrow> u16 \<Rightarrow> bytes \<Rightarrow> udp_reasm \<Rightarrow> udp_reasm \<times> bytes option" where
  "on_frag channel msg_id idx count piece r =
     (if count = 0 \<or> idx \<ge> count then (r, None)
      else let k = (channel, msg_id);
               r = supersede channel msg_id r;
               fs = (case map_of (ur_frags r) k of
                       Some fs \<Rightarrow> fs
                     | None \<Rightarrow> \<lparr>fs_count = count, fs_parts = replicate (unat count) None, fs_have = 0\<rparr>)
           in if fs_count fs \<noteq> count then (r\<lparr>ur_frags := hm_insert k fs (ur_frags r)\<rparr>, None)
              else let fs = (if fs_parts fs ! unat idx = None
                             then fs\<lparr>fs_parts := (fs_parts fs)[unat idx := Some piece], fs_have := fs_have fs + 1\<rparr> else fs)
                   in if fs_have fs = fs_count fs
                      then (r\<lparr>ur_frags := hm_remove k (ur_frags r)\<rparr>, Some (concat (map the (fs_parts fs))))
                      else (r\<lparr>ur_frags := hm_insert k fs (ur_frags r)\<rparr>, None))"

section \<open>Framing lemmas\<close>

lemma parse_frame_tcp:
  assumes "length msg < 2 ^ 32"
  shows "parse_tcp (frame_tcp channel msg) = Some (channel, msg, 5 + length msg)"
proof -
  have "unat (of_nat (length msg) :: u32) = length msg" using assms by (simp add: unat_of_nat take_bit_nat_eq_self)
  moreover have "slice_of 1 5 (frame_tcp channel msg) = to_le 4 (of_nat (length msg) :: u32)"
    by (simp add: frame_tcp_def slice_of_def)
  ultimately show ?thesis by (simp add: parse_tcp_def frame_tcp_def slice_of_def)
qed

lemma parse_frag_body: "parse_frag (frag_body msg_id idx count piece) = Some (msg_id, idx, count, piece)"
  by (simp add: parse_frag_def frag_body_def slice_of_def)

lemma concat_rook_fragment: "concat (rook_fragment msg mtu) = msg"
  by (simp add: rook_fragment_def Let_def concat_chunks)

section \<open>Reassembly\<close>

fun on_frags :: "u8 \<Rightarrow> u32 \<Rightarrow> bytes list \<Rightarrow> nat list \<Rightarrow> udp_reasm \<Rightarrow> udp_reasm \<times> bytes option list" where
  "on_frags c mid ps [] r = (r, [])"
| "on_frags c mid ps (i # is) r =
     (let (r, m) = on_frag c mid (of_nat i) (of_nat (length ps)) (ps ! i) r; (r, ms) = on_frags c mid ps is r
      in (r, m # ms))"

lemma on_frags_append:
  "on_frags c mid ps (is @ js) r =
     (let (r, ms) = on_frags c mid ps is r; (r, ns) = on_frags c mid ps js r in (r, ms @ ns))"
  by (induction "is" arbitrary: r) (simp_all add: split_beta Let_def)

lemma map_filter_replicate_None: "List.map_filter (map_option f) (replicate n None @ xs) = List.map_filter (map_option f) xs"
  by (induction n) (simp_all add: map_filter_simps)

definition part_list :: "bytes list \<Rightarrow> nat set \<Rightarrow> bytes option list" where
  "part_list ps I = map (\<lambda>i. if i \<in> I then Some (ps ! i) else None) [0..<length ps]"

text \<open>What the reassembler holds for a message of which the pieces with the indices \<open>I\<close> have come.\<close>

definition holds_parts :: "u8 \<Rightarrow> u32 \<Rightarrow> bytes list \<Rightarrow> nat set \<Rightarrow> udp_reasm \<Rightarrow> bool" where
  "holds_parts c mid ps I r \<longleftrightarrow> wf_hm (ur_frags r) \<and>
     map_of (ur_frags r) (c, mid) =
       (if I = {} then None
        else Some \<lparr>fs_count = of_nat (length ps), fs_parts = part_list ps I, fs_have = of_nat (card I)\<rparr>)"

lemma part_list_insert: "i < length ps \<Longrightarrow> (part_list ps I)[i := Some (ps ! i)] = part_list ps (insert i I)"
  by (rule nth_equalityI) (auto simp: part_list_def nth_list_update)

lemma part_list_nth: "i < length ps \<Longrightarrow> part_list ps I ! i = (if i \<in> I then Some (ps ! i) else None)"
  by (simp add: part_list_def)

lemma part_list_empty: "part_list ps {} = replicate (length ps) None"
  by (simp add: part_list_def map_replicate_const)

lemma part_list_full: "{..<length ps} \<subseteq> I \<Longrightarrow> concat (map the (part_list ps I)) = concat ps"
  by (rule arg_cong [where f = concat], rule nth_equalityI) (auto simp: part_list_def)

lemma on_frag_holds:
  assumes h: "holds_parts c mid ps I r" and I: "I \<subseteq> {..<length ps}" and n: "length ps \<le> 65535" and i: "i < length ps"
  shows "if insert i I = {..<length ps}
    then \<exists>r'. on_frag c mid (of_nat i) (of_nat (length ps)) (ps ! i) r = (r', Some (concat ps)) \<and> holds_parts c mid ps {} r'
    else \<exists>r'. on_frag c mid (of_nat i) (of_nat (length ps)) (ps ! i) r = (r', None) \<and> holds_parts c mid ps (insert i I) r'"
proof -
  let ?s = "supersede c mid r" and ?n = "of_nat (length ps) :: u16" and ?J = "insert i I"
  have u: "unat (of_nat k :: u16) = k" if "k \<le> length ps" for k using that n by (simp add: unat_of_nat take_bit_nat_eq_self)
  have g: "?n \<noteq> 0" "\<not> ?n \<le> of_nat i" using i u [of i] u [of "length ps"] by (auto simp: word_le_nat_alt unat_eq_0)
  have wf: "wf_hm (ur_frags ?s)" and m: "map_of (ur_frags ?s) (c, mid) = map_of (ur_frags r) (c, mid)"
    using h by (auto simp: supersede_def holds_parts_def map_of_filter_hm split: option.split)
  define fs where "fs = \<lparr>fs_count = ?n, fs_parts = part_list ps I, fs_have = of_nat (card I)\<rparr>"
  define fs' where "fs' = \<lparr>fs_count = ?n, fs_parts = part_list ps ?J, fs_have = of_nat (card ?J)\<rparr>"
  have f: "(case map_of (ur_frags ?s) (c, mid) of Some fs \<Rightarrow> fs
      | None \<Rightarrow> \<lparr>fs_count = ?n, fs_parts = replicate (unat ?n) None, fs_have = 0\<rparr>) = fs"
    using h u [of "length ps"] by (simp add: m holds_parts_def fs_def part_list_empty)
  have fin: "finite I" using I finite_subset by blast
  have f': "(if fs_parts fs ! i = None then fs\<lparr>fs_parts := (fs_parts fs)[i := Some (ps ! i)], fs_have := fs_have fs + 1\<rparr> else fs) = fs'"
  proof (cases "i \<in> I")
    case True
    then show ?thesis using i by (simp add: fs_def fs'_def part_list_nth insert_absorb)
  next
    case False
    then show ?thesis using i fin by (simp add: fs_def fs'_def part_list_nth part_list_insert)
  qed
  have "card ?J \<le> length ps" using I i by (metis card_lessThan card_mono finite_lessThan insert_subset lessThan_iff)
  then have c: "fs_have fs' = fs_count fs' \<longleftrightarrow> ?J = {..<length ps}"
    using u [of "card ?J"] u [of "length ps"] I i
    by (metis card_lessThan card_subset_eq finite_lessThan fs'_def frag_set.select_convs(1,3) insert_subset lessThan_iff order_refl)
  have o: "on_frag c mid (of_nat i) ?n (ps ! i) r =
      (if fs_have fs' = fs_count fs' then (?s\<lparr>ur_frags := hm_remove (c, mid) (ur_frags ?s)\<rparr>, Some (concat (map the (fs_parts fs'))))
       else (?s\<lparr>ur_frags := hm_insert (c, mid) fs' (ur_frags ?s)\<rparr>, None))"
  proof -
    have x: "unat (of_nat i :: u16) = i" "(?n = 0 \<or> of_nat i \<ge> ?n) = False" "(fs_count fs \<noteq> ?n) = False"
      using u [of i] i g by (auto simp: fs_def)
    show ?thesis unfolding on_frag_def Let_def f x f' if_False by (rule refl)
  qed
  show ?thesis
    unfolding o c using wf by (auto simp: holds_parts_def fs'_def part_list_full delete_conv' update_conv')
qed

lemma on_frags_incomplete:
  assumes "holds_parts c mid ps I r" "length ps \<le> 65535" "I \<union> set is \<subset> {..<length ps}"
  shows "\<exists>r'. on_frags c mid ps is r = (r', replicate (length is) None) \<and> holds_parts c mid ps (I \<union> set is) r'"
  using assms
proof (induction "is" arbitrary: I r)
  case (Cons i "is")
  have i: "i < length ps" "I \<subseteq> {..<length ps}" "insert i I \<noteq> {..<length ps}" using Cons.prems(3) by auto
  then obtain r1 where r1: "on_frag c mid (of_nat i) (of_nat (length ps)) (ps ! i) r = (r1, None)" "holds_parts c mid ps (insert i I) r1"
    using on_frag_holds [OF Cons.prems(1) i(2) Cons.prems(2) i(1)] by auto
  have "insert i I \<union> set is \<subset> {..<length ps}" using Cons.prems(3) by auto
  from Cons.IH [OF r1(2) Cons.prems(2) this] r1(1) show ?case by auto
qed simp

lemma on_frags_complete:
  assumes "holds_parts c mid ps {} r" "length ps \<le> 65535" "set is \<subset> {..<length ps}" "set (is @ [i]) = {..<length ps}"
  shows "\<exists>r'. on_frags c mid ps (is @ [i]) r = (r', replicate (length is) None @ [Some (concat ps)]) \<and> holds_parts c mid ps {} r'"
proof -
  obtain r1 where r1: "on_frags c mid ps is r = (r1, replicate (length is) None)" "holds_parts c mid ps (set is) r1"
    using on_frags_incomplete [OF assms(1,2), of "is"] assms(3) by auto
  have "insert i (set is) = {..<length ps}" "i < length ps" using assms(4) by auto
  then obtain r2 where "on_frag c mid (of_nat i) (of_nat (length ps)) (ps ! i) r1 = (r2, Some (concat ps))" "holds_parts c mid ps {} r2"
    using on_frag_holds [OF r1(2) _ assms(2), of i] assms(3) by auto
  then show ?thesis using r1(1) by (simp add: on_frags_append)
qed

text \<open>A fragmented message is put together: whatever the reassembler holds for other messages and channels, when
  it holds nothing of this one, its pieces in any order and with repetitions give nothing until the last missing
  one comes, and that one gives the message; then nothing of it is held. Whether a newer message was delivered
  in the meantime makes no difference.\<close>

theorem rook_reassembles:
  assumes "wf_hm (ur_frags r)" "map_of (ur_frags r) (c, mid) = None" "ps = rook_fragment msg mtu" "length ps \<le> 65535"
    and "set is \<subset> {..<length ps}" "set (is @ [i]) = {..<length ps}"
  shows "\<exists>r'. on_frags c mid ps (is @ [i]) r = (r', replicate (length is) None @ [Some msg]) \<and> map_of (ur_frags r') (c, mid) = None"
proof -
  have "holds_parts c mid ps {} r" using assms(1,2) by (simp add: holds_parts_def)
  from on_frags_complete [OF this assms(4-6)] show ?thesis
    using assms(3) by (auto simp: holds_parts_def concat_rook_fragment)
qed

theorem rook_reassembles_witness:
  "snd (on_frags 2 5 (rook_fragment [1, 2, 3] 25) [2, 0, 2, 1] reasm_new) = [None, None, None, Some [1, 2, 3]]"
proof -
  have ps: "rook_fragment [1, 2, 3] 25 = [[1], [2], [3]]" by code_simp
  have m: "wf_hm (ur_frags reasm_new)" "map_of (ur_frags reasm_new) (2, 5) = None" by (simp_all add: reasm_new_def)
  have l: "length (rook_fragment [1, 2, 3] 25) = 3" unfolding ps by simp
  have n: "length (rook_fragment [1, 2, 3] 25) \<le> 65535" unfolding l by simp
  have i: "set [2, 0, 2] \<subset> {..<length (rook_fragment [1, 2, 3] 25)}"
    "set ([2, 0, 2] @ [1]) = {..<length (rook_fragment [1, 2, 3] 25)}" unfolding l by code_simp+
  obtain r' where "on_frags 2 5 (rook_fragment [1, 2, 3] 25) ([2, 0, 2] @ [1]) reasm_new =
      (r', replicate (length [2 :: nat, 0, 2]) None @ [Some [1, 2, 3]])"
    using rook_reassembles [OF m refl n i] by blast
  then show ?thesis by (simp only: append.simps snd_conv list.size replicate.simps add_0 add_0_right add_Suc add_Suc_right One_nat_def)
qed

section \<open>Limits that do not hold\<close>

definition frags_down :: "u8 \<Rightarrow> nat \<Rightarrow> nat \<Rightarrow> udp_reasm \<Rightarrow> bool" where
  "frags_down c k n r \<longleftrightarrow> wf_hm (ur_frags r) \<and> length (ur_frags r) = n - k \<and>
     fst ` set (ur_frags r) = (\<lambda>j. (c, of_nat j)) ` {k..<n}"

lemma newer_of_nat: "j < n \<Longrightarrow> n < 2 ^ 31 \<Longrightarrow> k < j \<Longrightarrow> newer (of_nat j) (of_nat k)"
proof -
  assume "j < n" "n < 2 ^ 31" "k < j"
  then have m: "j - k < 2 ^ 32" "(of_nat j - of_nat k :: u32) = of_nat (j - k)" by (simp_all add: of_nat_diff)
  have d: "unat (of_nat j - of_nat k :: u32) = j - k"
    unfolding m(2) unat_of_nat using m(1) by (simp add: take_bit_nat_eq_self)
  then have "(of_nat j - of_nat k :: u32) \<noteq> 0" using \<open>k < j\<close> by (metis unat_0 zero_less_diff less_irrefl)
  then show ?thesis using d \<open>j < n\<close> \<open>n < 2 ^ 31\<close> by (simp add: newer_def word_less_nat_alt)
qed

lemma replicate_two: "replicate 2 x = [x, x]"
  by (simp add: numeral_2_eq_2)

lemma frags_down_step:
  assumes "frags_down c (Suc k) n r" "k < n" "n < 2 ^ 31"
  shows "frags_down c k n (fst (on_frag c (of_nat k) 0 2 piece r))"
proof -
  have keys: "fst ` set (ur_frags r) = (\<lambda>j. (c, of_nat j)) ` {Suc k..<n}" and wf: "wf_hm (ur_frags r)"
    and len: "length (ur_frags r) = n - Suc k" using assms(1) by (auto simp: frags_down_def)
  have "case x of ((c', mid), _) \<Rightarrow> c' \<noteq> c \<or> mid = of_nat k \<or> newer mid (of_nat k)" if "x \<in> set (ur_frags r)" for x
  proof -
    from imageI [OF that, of fst] obtain j where "j \<in> {Suc k..<n}" "fst x = (c, of_nat j)" unfolding keys by blast
    moreover from this(1) have "newer (of_nat j) (of_nat k)" using newer_of_nat [OF _ assms(3)] by simp
    ultimately show ?thesis by (cases x) simp
  qed
  then have "filter (\<lambda>((c', mid), _). c' \<noteq> c \<or> mid = of_nat k \<or> newer mid (of_nat k)) (ur_frags r) = ur_frags r"
    by (intro filter_True ballI) (fastforce split: prod.splits)
  then have keep: "supersede c (of_nat k) r = r" by (simp add: supersede_def)
  have ne: "(of_nat j :: u32) \<noteq> of_nat k" if "k < j" "j < n" for j
    using newer_of_nat [OF that(2) assms(3) that(1)] by (auto simp: newer_def)
  have "(c, of_nat k :: u32) \<noteq> (c, of_nat j)" if "j \<in> {Suc k..<n}" for j
    using ne [of j] that by (metis atLeastLessThan_iff less_eq_Suc_le prod.inject)
  then have absent: "map_of (ur_frags r) (c, of_nat k) = None"
    unfolding map_of_eq_None_iff keys image_iff by blast
  let ?fs = "\<lparr>fs_count = 2, fs_parts = [Some piece, None], fs_have = 1 :: u16\<rparr>"
  have e: "fst (on_frag c (of_nat k) 0 2 piece r) = r\<lparr>ur_frags := hm_insert (c, of_nat k) ?fs (ur_frags r)\<rparr>"
    by (simp add: on_frag_def Let_def keep absent replicate_two)
  have "{k..<n} = insert k {Suc k..<n}" using assms(2) by auto
  moreover have "fst ` set (hm_insert (c, of_nat k) ?fs (ur_frags r)) = insert (c, of_nat k) (fst ` set (ur_frags r))"
    using wf by (auto simp: set_hm_insert image_iff)
  ultimately show ?thesis
    using wf len assms(2) absent by (auto simp: e frags_down_def keys length_hm_insert)
qed

text \<open>The reassembler's memory is not bounded by the message order: first pieces of ever older messages of one
  channel are all kept, since each is older than those held; \<open>n\<close> datagrams leave \<open>n\<close> partial messages.\<close>

theorem rook_frags_accumulate:
  assumes "n < 2 ^ 31"
  shows "length (ur_frags (fold (\<lambda>mid r. fst (on_frag c (of_nat mid) 0 2 piece r)) (rev [0..<n]) reasm_new)) = n"
proof -
  let ?step = "\<lambda>mid r. fst (on_frag c (of_nat mid) 0 2 piece r)"
  have "frags_down c k n (fold ?step (rev [k..<n]) reasm_new)" if "k \<le> n" for k
    using that
  proof (induction k rule: inc_induct)
    case base
    show ?case by (simp add: frags_down_def reasm_new_def)
  next
    case (step k)
    then have "rev [k..<n] = rev [Suc k..<n] @ [k]" by (simp add: upt_conv_Cons)
    then show ?case using frags_down_step [OF step.IH step(2) assms, of piece] by simp
  qed
  from this [of 0] show ?thesis by (simp add: frags_down_def)
qed

theorem rook_frags_accumulate_witness:
  "length (ur_frags (fold (\<lambda>mid r. fst (on_frag 2 (of_nat mid) 0 2 [7] r)) (rev [0..<1000000]) reasm_new)) = 1000000"
  by (rule rook_frags_accumulate) simp

end
