(* ===== verification/Rook_Conn.thy ===== *)
theory Rook_Conn
  imports Rook_Crypto Rook_Wire
begin

text \<open>
  \<open>src/src/conn.rs\<close> of the thin-client transport: a session over one TCP and one UDP socket. The sockets are
  part of the state: what they will answer, and the bytes and datagrams they took. A TCP write answers with the
  room of the socket's buffer, that it would block, or an error; when no answer is left the spinning write loop has
  not returned, which is \<open>None\<close>, as is a panic of \<open>seal\<close>. A read that has no more answers would block. Every
  operation takes the clock, in milliseconds, as an argument.
\<close>

section \<open>State\<close>

datatype io_error = WriteZero | InvalidData | PermissionDenied | UnexpectedEof | OtherIo nat

datatype write_answer = Room nat | WriteBlocks | WriteFails io_error
datatype read_answer = ReadBytes bytes | ReadFails
datatype send_answer = Taken | SendBlocks | SendFails io_error

record tcp_stream =
  ts_writes :: "write_answer list"
  ts_reads :: "read_answer list"
  ts_sent :: bytes

record udp_socket =
  us_sends :: "send_answer list"
  us_in :: "(socket_addr \<times> bytes) list"
  us_sent :: "(socket_addr \<times> bytes) list"

record rook_conn =
  rc_tcp :: tcp_stream
  rc_udp :: udp_socket
  rc_tx :: record_key
  rc_rx :: record_key
  rc_udp_tx :: bytes
  rc_udp_rx :: bytes
  rc_session_id :: bytes
  rc_peer_udp :: socket_addr
  rc_peer_bound :: bool
  rc_rx_buf :: bytes
  rc_seq_tx :: u32
  rc_msg_id_tx :: u32
  rc_reasm :: udp_reasm
  rc_mtu :: nat
  rc_last_rx :: instant
  rc_last_ping :: instant
  rc_last_tx :: instant
  rc_alive :: bool

definition PING_IDLE :: duration where "PING_IDLE = 2000"
definition DEAD_AFTER :: duration where "DEAD_AFTER = 7000"

definition CH_CONTROL :: u8 where "CH_CONTROL = 0xFE"

definition conn_new ::
  "instant \<Rightarrow> nat \<Rightarrow> tcp_stream \<Rightarrow> udp_socket \<Rightarrow> rook_session \<Rightarrow> socket_addr \<Rightarrow> bool \<Rightarrow> rook_conn" where
  "conn_new now mtu tcp udp sess peer_udp peer_bound =
     \<lparr>rc_tcp = tcp, rc_udp = udp, rc_tx = record_key_new (k_tcp_tx sess), rc_rx = record_key_new (k_tcp_rx sess),
      rc_udp_tx = k_udp_tx sess, rc_udp_rx = k_udp_rx sess, rc_session_id = rs_session_id sess,
      rc_peer_udp = peer_udp, rc_peer_bound = peer_bound, rc_rx_buf = [], rc_seq_tx = 1, rc_msg_id_tx = 1,
      rc_reasm = reasm_new, rc_mtu = mtu, rc_last_rx = now, rc_last_ping = now, rc_last_tx = now, rc_alive = True\<rparr>"

section \<open>Sending\<close>

fun write_loop :: "write_answer list \<Rightarrow> bytes \<Rightarrow> (write_answer list \<times> bytes \<times> (io_error + unit)) option" where
  "write_loop [] data = (if data = [] then Some ([], [], Inr ()) else None)"
| "write_loop (a # as) data =
     (if data = [] then Some (a # as, [], Inr ())
      else case a of
        Room n \<Rightarrow>
          if n = 0 then Some (as, [], Inl WriteZero)
          else map_option (\<lambda>(as, taken, r). (as, take n data @ taken, r)) (write_loop as (drop n data))
      | WriteBlocks \<Rightarrow> write_loop as data
      | WriteFails e \<Rightarrow> Some (as, [], Inl e))"

definition write_all_tcp :: "bytes \<Rightarrow> rook_conn \<Rightarrow> (rook_conn \<times> (io_error + unit)) option" where
  "write_all_tcp data c =
     map_option (\<lambda>(as, taken, r).
         (c\<lparr>rc_tcp := (rc_tcp c)\<lparr>ts_writes := as, ts_sent := ts_sent (rc_tcp c) @ taken\<rparr>,
            rc_alive := (case r of Inl _ \<Rightarrow> False | Inr _ \<Rightarrow> rc_alive c)\<rparr>, r))
       (write_loop (ts_writes (rc_tcp c)) data)"

definition record_bytes :: "bytes \<Rightarrow> bytes" where
  "record_bytes ct = to_le 4 (of_nat (length ct) :: u32) @ ct"

definition send_tcp :: "rook_ops \<Rightarrow> instant \<Rightarrow> u8 \<Rightarrow> bytes \<Rightarrow> rook_conn \<Rightarrow> (rook_conn \<times> (io_error + unit)) option" where
  "send_tcp R now channel msg c =
     (case record_seal R (frame_tcp channel msg) (rc_tx c) of
        None \<Rightarrow> None
      | Some (k, ct) \<Rightarrow>
          (case write_all_tcp (record_bytes ct) (c\<lparr>rc_tx := k\<rparr>) of
             None \<Rightarrow> None
           | Some (c, Inl e) \<Rightarrow> Some (c, Inl e)
           | Some (c, Inr _) \<Rightarrow> Some (c\<lparr>rc_last_tx := now\<rparr>, Inr ())))"

definition datagram_bytes :: "u8 \<Rightarrow> u8 \<Rightarrow> u32 \<Rightarrow> bytes \<Rightarrow> bytes" where
  "datagram_bytes dtype channel seq ct = [dtype, channel] @ to_le 4 seq @ ct"

text \<open>A socket without further answers takes the datagram.\<close>

definition send_datagram :: "u8 \<Rightarrow> u8 \<Rightarrow> u32 \<Rightarrow> bytes \<Rightarrow> rook_conn \<Rightarrow> rook_conn \<times> (io_error + unit)" where
  "send_datagram dtype channel seq ct c =
     (let u = rc_udp c; dg = (rc_peer_udp c, datagram_bytes dtype channel seq ct);
          c' = c\<lparr>rc_udp := u\<lparr>us_sends := tl (us_sends u)\<rparr>\<rparr>;
          taken = c\<lparr>rc_udp := u\<lparr>us_sends := tl (us_sends u), us_sent := us_sent u @ [dg]\<rparr>\<rparr>
      in case us_sends u of
           [] \<Rightarrow> (taken, Inr ())
         | Taken # _ \<Rightarrow> (taken, Inr ())
         | SendBlocks # _ \<Rightarrow> (c', Inr ())
         | SendFails e # _ \<Rightarrow> (c', Inl e))"

text \<open>The loop over the pieces: each takes a sequence number of its own; an error ends it.\<close>

fun send_frags :: "rook_ops \<Rightarrow> u8 \<Rightarrow> u32 \<Rightarrow> u16 \<Rightarrow> nat \<Rightarrow> bytes list \<Rightarrow> rook_conn \<Rightarrow> (rook_conn \<times> (io_error + unit)) option" where
  "send_frags R channel msg_id count i [] c = Some (c, Inr ())"
| "send_frags R channel msg_id count i (piece # ps) c =
     (let fseq = rc_seq_tx c; c = c\<lparr>rc_seq_tx := fseq + 1\<rparr>
      in case datagram_seal R (rc_udp_tx c) DT_FRAG channel fseq (frag_body msg_id (of_nat i) count piece) of
           None \<Rightarrow> None
         | Some ct \<Rightarrow>
             (case send_datagram DT_FRAG channel fseq ct c of
                (c, Inl e) \<Rightarrow> Some (c, Inl e)
              | (c, Inr _) \<Rightarrow> send_frags R channel msg_id count (Suc i) ps c))"

definition send_udp :: "rook_ops \<Rightarrow> instant \<Rightarrow> u8 \<Rightarrow> bytes \<Rightarrow> rook_conn \<Rightarrow> (rook_conn \<times> (io_error + unit)) option" where
  "send_udp R now channel msg c =
     (let seq = rc_seq_tx c; c = c\<lparr>rc_seq_tx := seq + 1\<rparr>; frags = rook_fragment msg (rc_mtu c);
          done_at = (\<lambda>(c, r). (case r of Inl e \<Rightarrow> (c, Inl e) | Inr _ \<Rightarrow> (c\<lparr>rc_last_tx := now\<rparr>, Inr ())))
      in if length frags = 1
         then (case datagram_seal R (rc_udp_tx c) DT_DATA channel seq (data_body msg) of
                 None \<Rightarrow> None
               | Some ct \<Rightarrow> Some (done_at (send_datagram DT_DATA channel seq ct c)))
         else let msg_id = rc_msg_id_tx c
              in map_option done_at
                   (send_frags R channel msg_id (of_nat (length frags)) 0 frags (c\<lparr>rc_msg_id_tx := msg_id + 1\<rparr>)))"

definition send :: "rook_ops \<Rightarrow> instant \<Rightarrow> u8 \<Rightarrow> bytes \<Rightarrow> rook_conn \<Rightarrow> (rook_conn \<times> (io_error + unit)) option" where
  "send R now channel msg c =
     (let first_op = (case msg of [] \<Rightarrow> 0 | b # _ \<Rightarrow> b)
      in if is_udp channel first_op then send_udp R now channel msg c else send_tcp R now channel msg c)"

definition send_udp_hello :: "rook_ops \<Rightarrow> rook_conn \<Rightarrow> (rook_conn \<times> (io_error + unit)) option" where
  "send_udp_hello R c =
     (let seq = rc_seq_tx c; c = c\<lparr>rc_seq_tx := seq + 1\<rparr>
      in map_option (\<lambda>ct. send_datagram DT_HELLO 0 seq ct c)
           (datagram_seal R (rc_udp_tx c) DT_HELLO 0 seq (rc_session_id c)))"

section \<open>Receiving\<close>

definition on_ctrl :: "rook_ops \<Rightarrow> instant \<Rightarrow> bytes \<Rightarrow> rook_conn \<Rightarrow> rook_conn option" where
  "on_ctrl R now msg c =
     (case msg of
        [] \<Rightarrow> Some c
      | b # _ \<Rightarrow> if b = DT_PING then map_option fst (send_tcp R now CH_CONTROL [DT_PONG] c) else Some c)"

fun read_loop :: "instant \<Rightarrow> read_answer list \<Rightarrow> rook_conn \<Rightarrow> rook_conn" where
  "read_loop now [] c = c\<lparr>rc_tcp := (rc_tcp c)\<lparr>ts_reads := []\<rparr>\<rparr>"
| "read_loop now (ReadBytes bs # as) c =
     (if bs = [] then c\<lparr>rc_tcp := (rc_tcp c)\<lparr>ts_reads := as\<rparr>, rc_alive := False\<rparr>
      else read_loop now as (c\<lparr>rc_rx_buf := rc_rx_buf c @ bs, rc_last_rx := now\<rparr>))"
| "read_loop now (ReadFails # as) c = c\<lparr>rc_tcp := (rc_tcp c)\<lparr>ts_reads := as\<rparr>, rc_alive := False\<rparr>"

text \<open>The next record at the front of the buffer, and what is left behind it.\<close>

definition next_record :: "bytes \<Rightarrow> (bytes \<times> bytes) option" where
  "next_record buf =
     (if length buf < 4 then None
      else let ct_len = unat (from_le (slice_of 0 4 buf) :: u32)
           in if length buf < 4 + ct_len then None else Some (slice_of 4 (4 + ct_len) buf, drop (4 + ct_len) buf))"

text \<open>One opened record: a control message, or a message for the caller.\<close>

definition on_record :: "rook_ops \<Rightarrow> instant \<Rightarrow> bytes \<Rightarrow> rook_conn \<Rightarrow> (rook_conn \<times> (u8 \<times> bytes) list) option" where
  "on_record R now frame c =
     (case parse_tcp frame of
        None \<Rightarrow> Some (c, [])
      | Some (ch, msg, _) \<Rightarrow>
          if ch = CH_CONTROL then map_option (\<lambda>c. (c, [])) (on_ctrl R now msg c) else Some (c, [(ch, msg)]))"

lemma write_all_tcp_buf: "write_all_tcp d c = Some (c', r) \<Longrightarrow> rc_rx_buf c' = rc_rx_buf c"
  by (auto simp: write_all_tcp_def)

lemma on_record_buf: "on_record R now frame c = Some (c', out) \<Longrightarrow> rc_rx_buf c' = rc_rx_buf c"
  by (auto simp: on_record_def on_ctrl_def send_tcp_def dest!: write_all_tcp_buf split: option.splits list.splits sum.splits if_splits prod.splits)

lemma next_record_shrinks: "next_record buf = Some (ct, rest) \<Longrightarrow> length rest < length buf"
  by (auto simp: next_record_def Let_def split: if_splits)

function record_loop :: "rook_ops \<Rightarrow> instant \<Rightarrow> rook_conn \<Rightarrow> (rook_conn \<times> (u8 \<times> bytes) list) option" where
  "record_loop R now c =
     (case next_record (rc_rx_buf c) of
        None \<Rightarrow> Some (c, [])
      | Some (ct, rest) \<Rightarrow>
          (let c = c\<lparr>rc_rx_buf := rest\<rparr>
           in case record_open R ct (rc_rx c) of
                None \<Rightarrow> Some (c\<lparr>rc_alive := False\<rparr>, [])
              | Some (k, frame) \<Rightarrow>
                  (case on_record R now frame (c\<lparr>rc_rx := k\<rparr>) of
                     None \<Rightarrow> None
                   | Some (c, out) \<Rightarrow> map_option (\<lambda>(c, out'). (c, out @ out')) (record_loop R now c))))"
  by pat_completeness auto
termination
  by (relation "measure (\<lambda>(R, now, c). length (rc_rx_buf c))") (auto dest!: next_record_shrinks on_record_buf)

declare record_loop.simps [simp del]

definition poll_tcp :: "rook_ops \<Rightarrow> instant \<Rightarrow> rook_conn \<Rightarrow> (rook_conn \<times> (u8 \<times> bytes) list) option" where
  "poll_tcp R now c = record_loop R now (read_loop now (ts_reads (rc_tcp c)) c)"

definition poll_datagram :: "rook_ops \<Rightarrow> instant \<Rightarrow> socket_addr \<Rightarrow> bytes \<Rightarrow> rook_conn \<Rightarrow> rook_conn \<times> (u8 \<times> bytes) list" where
  "poll_datagram R now src dg c =
     (if length dg < 6 then (c, [])
      else let dtype = dg ! 0; channel = dg ! 1; seq = from_le (slice_of 2 6 dg)
           in case datagram_open R (rc_udp_rx c) dtype channel seq (drop 6 dg) of
                None \<Rightarrow> (c, [])
              | Some pt \<Rightarrow>
                  (let c = (if rc_peer_bound c then c else c\<lparr>rc_peer_udp := src, rc_peer_bound := True\<rparr>);
                       c = c\<lparr>rc_last_rx := now\<rparr>;
                       emit = (\<lambda>(r, m). (c\<lparr>rc_reasm := r\<rparr>, case m of None \<Rightarrow> [] | Some msg \<Rightarrow> [(channel, msg)]))
                   in if dtype = DT_HELLO then (c, [])
                      else if dtype = DT_DATA then emit (on_data channel seq pt (rc_reasm c))
                      else if dtype = DT_FRAG then
                        (case parse_frag pt of
                           None \<Rightarrow> (c, [])
                         | Some (mid, idx, count, piece) \<Rightarrow> emit (on_frag channel mid idx count piece (rc_reasm c)))
                      else (c, [])))"

fun poll_datagrams :: "rook_ops \<Rightarrow> instant \<Rightarrow> (socket_addr \<times> bytes) list \<Rightarrow> rook_conn \<Rightarrow> rook_conn \<times> (u8 \<times> bytes) list" where
  "poll_datagrams R now [] c = (c, [])"
| "poll_datagrams R now ((src, dg) # dgs) c =
     (let (c, out) = poll_datagram R now src dg c; (c, out') = poll_datagrams R now dgs c in (c, out @ out'))"

definition poll_udp :: "rook_ops \<Rightarrow> instant \<Rightarrow> rook_conn \<Rightarrow> rook_conn \<times> (u8 \<times> bytes) list" where
  "poll_udp R now c =
     (let u = rc_udp c in poll_datagrams R now (us_in u) (c\<lparr>rc_udp := u\<lparr>us_in := []\<rparr>\<rparr>))"

definition service_keepalive :: "rook_ops \<Rightarrow> instant \<Rightarrow> rook_conn \<Rightarrow> rook_conn option" where
  "service_keepalive R now c =
     (if now - rc_last_rx c > DEAD_AFTER then Some (c\<lparr>rc_alive := False\<rparr>)
      else if now - rc_last_tx c > PING_IDLE \<and> now - rc_last_ping c > PING_IDLE
      then map_option (\<lambda>(c, _). c\<lparr>rc_last_ping := now\<rparr>) (send_tcp R now CH_CONTROL [DT_PING] c)
      else Some c)"

definition poll :: "rook_ops \<Rightarrow> instant \<Rightarrow> rook_conn \<Rightarrow> (rook_conn \<times> (u8 \<times> bytes) list) option" where
  "poll R now c =
     (case poll_tcp R now c of
        None \<Rightarrow> None
      | Some (c, out) \<Rightarrow>
          (let (c, out') = poll_udp R now c in map_option (\<lambda>c. (c, out @ out')) (service_keepalive R now c)))"

section \<open>Records as a framed stream\<close>

lemma next_record_bytes: "length ct < 2 ^ 32 \<Longrightarrow> next_record (record_bytes ct @ rest) = Some (ct, rest)"
  by (simp add: next_record_def record_bytes_def slice_of_def unat_of_nat take_bit_nat_eq_self)

interpretation rcs: framed_codec record_bytes next_record "\<lambda>ct. length ct < 2 ^ 32"
  by unfold_locales (auto simp: next_record_bytes next_record_shrinks)

lemma next_record_append: "next_record buf = Some (ct, rest) \<Longrightarrow> next_record (buf @ fut) = Some (ct, rest @ fut)"
  by (auto simp: next_record_def Let_def slice_of_def split: if_splits)

lemma next_record_split:
  assumes "next_record buf = Some (ct', rest)" "buf @ fut = record_bytes ct @ tail" "length ct < 2 ^ 32"
  shows "ct' = ct \<and> rest @ fut = tail"
  using next_record_append [OF assms(1), of fut] rcs.get_put [OF assms(3), of tail] assms(2) by simp

section \<open>Sending over TCP\<close>

lemma write_loop_takes_all: "write_loop as data = Some (as', taken, Inr ()) \<Longrightarrow> taken = data"
  by (induction as data arbitrary: taken rule: write_loop.induct) (fastforce split: if_splits write_answer.splits)+

text \<open>The records of messages, sealed one after the other.\<close>

fun records :: "rook_ops \<Rightarrow> record_key \<Rightarrow> (u8 \<times> bytes) list \<Rightarrow> bytes list option" where
  "records R k [] = Some []"
| "records R k ((ch, m) # ms) =
     (case record_seal R (frame_tcp ch m) k of None \<Rightarrow> None | Some (k', ct) \<Rightarrow> map_option ((#) ct) (records R k' ms))"

fun send_all :: "rook_ops \<Rightarrow> (instant \<times> u8 \<times> bytes) list \<Rightarrow> rook_conn \<Rightarrow> rook_conn option" where
  "send_all R [] c = Some c"
| "send_all R ((now, ch, m) # es) c =
     (case send R now ch m c of Some (c, Inr _) \<Rightarrow> send_all R es c | _ \<Rightarrow> None)"

lemma send_tcp_sent:
  assumes "send_tcp R now ch m c = Some (c', Inr ())"
  shows "\<exists>ct. record_seal R (frame_tcp ch m) (rc_tx c) = Some (rc_tx c', ct) \<and>
    ts_sent (rc_tcp c') = ts_sent (rc_tcp c) @ record_bytes ct \<and> rc_alive c' = rc_alive c \<and> rc_last_tx c' = now"
  using assms
  by (auto simp: send_tcp_def write_all_tcp_def dest!: write_loop_takes_all split: option.splits sum.splits prod.splits)

definition on_tcp :: "u8 \<Rightarrow> bytes \<Rightarrow> bool" where
  "on_tcp ch m \<longleftrightarrow> \<not> is_udp ch (case m of [] \<Rightarrow> 0 | b # _ \<Rightarrow> b)"

lemma send_all_records:
  assumes "send_all R es c = Some c'" "\<forall>(now, ch, m) \<in> set es. on_tcp ch m"
  shows "\<exists>cts. records R (rc_tx c) (map snd es) = Some cts \<and>
    ts_sent (rc_tcp c') = ts_sent (rc_tcp c) @ concat (map record_bytes cts)"
  using assms
proof (induction es arbitrary: c)
  case (Cons e es)
  obtain now ch m where e: "e = (now, ch, m)" by (rule prod_cases3)
  have "send R now ch m c = send_tcp R now ch m c" using Cons.prems(2) by (simp add: e send_def on_tcp_def)
  with Cons.prems(1) obtain c1 where c1: "send_tcp R now ch m c = Some (c1, Inr ())" "send_all R es c1 = Some c'"
    by (auto simp: e split: option.splits sum.splits)
  from Cons.IH [OF c1(2)] Cons.prems(2) obtain cts where
    "records R (rc_tx c1) (map snd es) = Some cts" "ts_sent (rc_tcp c') = ts_sent (rc_tcp c1) @ concat (map record_bytes cts)" by auto
  with send_tcp_sent [OF c1(1)] show ?case by (auto simp: e)
qed simp

section \<open>Polling TCP\<close>

definition for_caller :: "(u8 \<times> bytes) list \<Rightarrow> (u8 \<times> bytes) list" where
  "for_caller ms = filter (\<lambda>(ch, _). ch \<noteq> CH_CONTROL) ms"

definition has_ping :: "(u8 \<times> bytes) list \<Rightarrow> bool" where
  "has_ping ms \<longleftrightarrow> (\<exists>m. (CH_CONTROL, DT_PING # m) \<in> set ms)"

lemma write_all_tcp_rx: "write_all_tcp d c = Some (c', r) \<Longrightarrow> rc_rx c' = rc_rx c"
  by (auto simp: write_all_tcp_def)

lemma on_record_rx: "on_record R now frame c = Some (c', out) \<Longrightarrow> rc_rx c' = rc_rx c"
  by (auto simp: on_record_def on_ctrl_def send_tcp_def dest!: write_all_tcp_rx split: option.splits list.splits sum.splits if_splits prod.splits)

lemma on_record_frame:
  assumes "length m < 2 ^ 32"
  shows "case on_record R now (frame_tcp ch m) c of
      None \<Rightarrow> has_ping [(ch, m)]
    | Some (c', out) \<Rightarrow> out = for_caller [(ch, m)] \<and> (c' = c \<or> has_ping [(ch, m)])"
  by (auto simp: on_record_def parse_frame_tcp [OF assms] on_ctrl_def for_caller_def has_ping_def
      split: option.splits list.splits if_splits)

text \<open>What the record loop does to a buffer that is a prefix of the records of \<open>ms\<close>: it hands over the messages of
  the complete records and keeps the rest. It fails to return only over the answer to a ping.\<close>

definition polled :: "rook_ops \<Rightarrow> (u8 \<times> bytes) list \<Rightarrow> bytes list \<Rightarrow> bytes \<Rightarrow> nat \<Rightarrow> rook_conn \<Rightarrow> bool" where
  "polled R ms cts fut n c \<longleftrightarrow> n \<le> length ms \<and> rc_rx_buf c @ fut = concat (map record_bytes (drop n cts)) \<and>
     records R (rc_rx c) (drop n ms) = Some (drop n cts)"

lemma record_seal_length:
  assumes "rook_ok R" "record_seal R (frame_tcp ch m) k = Some (k', ct)"
  shows "length ct = length m + 21"
  using assms by (auto simp: record_seal_def rook_ok_def aead_ok_def frame_tcp_def)

lemma record_loop_prefix:
  assumes "rook_ok R" "rc_rx_buf c @ fut = concat (map record_bytes cts)" "records R (rc_rx c) ms = Some cts"
    and "\<forall>(ch, m) \<in> set ms. length m + 21 < 2 ^ 32"
  shows "case record_loop R now c of
      None \<Rightarrow> has_ping ms
    | Some (c', out) \<Rightarrow> (rc_alive c' = rc_alive c \<or> has_ping ms) \<and> next_record (rc_rx_buf c') = None \<and>
        (\<exists>n. out = for_caller (take n ms) \<and> polled R ms cts fut n c')"
  using assms(2-)
proof (induction ms arbitrary: c cts)
  case Nil
  then have "next_record (rc_rx_buf c) = None" by (simp add: next_record_def)
  then show ?case using Nil by (simp add: record_loop.simps [of R now c] for_caller_def polled_def)
next
  case (Cons chm ms)
  obtain ch m where chm: "chm = (ch, m)" by (rule prod.exhaust)
  from Cons.prems(2) obtain k ct cts' where s: "record_seal R (frame_tcp ch m) (rc_rx c) = Some (k, ct)"
    and r: "records R k ms = Some cts'" and cts: "cts = ct # cts'" by (auto simp: chm split: option.splits)
  have l: "length ct < 2 ^ 32" "length m < 2 ^ 32"
    using Cons.prems(3) record_seal_length [OF assms(1) s] by (auto simp: chm)
  show ?case
  proof (cases "next_record (rc_rx_buf c)")
    case None
    then show ?thesis using Cons.prems
      by (auto simp: record_loop.simps [of R now c] for_caller_def polled_def intro!: exI [of _ 0])
  next
    case (Some x)
    obtain ct' rest where x: "x = (ct', rest)" by (rule prod.exhaust)
    have ct': "ct' = ct" "rest @ fut = concat (map record_bytes cts')"
      using next_record_split [of "rc_rx_buf c" ct' rest fut ct] Some Cons.prems(1) l(1) by (auto simp: x cts)
    note o = record_open_seal [OF assms(1) s]
    let ?c = "c\<lparr>rc_rx_buf := rest, rc_rx := k\<rparr>"
    note f = on_record_frame [OF l(2), where R = R and now = now and ch = ch and c = ?c]
    have e: "record_loop R now c = (case on_record R now (frame_tcp ch m) ?c of None \<Rightarrow> None
        | Some (c, out) \<Rightarrow> map_option (\<lambda>(c, out'). (c, out @ out')) (record_loop R now c))"
      by (simp add: record_loop.simps [of R now c] Some x ct' o)
    show ?thesis
    proof (cases "on_record R now (frame_tcp ch m) ?c")
      case None
      then show ?thesis using f by (auto simp: e chm has_ping_def)
    next
      case (Some y)
      obtain c1 out where y: "y = (c1, out)" by (rule prod.exhaust)
      have c1: "rc_rx_buf c1 = rest" "rc_rx c1 = k" using on_record_buf on_record_rx Some by (fastforce simp: y)+
      have out: "out = for_caller [(ch, m)]" "rc_alive c1 = rc_alive c \<or> has_ping (chm # ms)"
        using f Some by (auto simp: y chm has_ping_def)
      have "case record_loop R now c1 of None \<Rightarrow> has_ping ms
          | Some (c', out) \<Rightarrow> (rc_alive c' = rc_alive c1 \<or> has_ping ms) \<and> next_record (rc_rx_buf c') = None \<and>
              (\<exists>n. out = for_caller (take n ms) \<and> polled R ms cts' fut n c')"
        by (rule Cons.IH) (use ct' r c1 Cons.prems(3) in auto)
      note ih = this
      show ?thesis
      proof (cases "record_loop R now c1")
        case None
        then show ?thesis using ih by (auto simp: e Some y has_ping_def)
      next
        case (Some z)
        obtain c2 out' where z: "z = (c2, out')" by (rule prod.exhaust)
        from ih obtain n where n: "out' = for_caller (take n ms)" "polled R ms cts' fut n c2"
          "rc_alive c2 = rc_alive c1 \<or> has_ping ms" "next_record (rc_rx_buf c2) = None" by (auto simp: Some z)
        have "out @ out' = for_caller (take (Suc n) (chm # ms))" "polled R (chm # ms) cts fut (Suc n) c2"
          using n(1,2) by (simp_all add: out(1) for_caller_def chm polled_def cts)
        moreover have "rc_alive c2 = rc_alive c \<or> has_ping (chm # ms)" using n(3) out(2) by (auto simp: has_ping_def)
        moreover have "record_loop R now c = Some (c2, out @ out')"
          by (simp add: e \<open>on_record R now (frame_tcp ch m) ?c = Some y\<close> y Some z)
        ultimately show ?thesis using n(4) by (auto intro!: exI [of _ "Suc n"])
      qed
    qed
  qed
qed

text \<open>Polls, each after the socket has received some pieces of the stream.\<close>

fun polls :: "rook_ops \<Rightarrow> (instant \<times> bytes list) list \<Rightarrow> rook_conn \<Rightarrow> (rook_conn \<times> (u8 \<times> bytes) list) option" where
  "polls R [] c = Some (c, [])"
| "polls R ((now, bss) # ps) c =
     (case poll_tcp R now (c\<lparr>rc_tcp := (rc_tcp c)\<lparr>ts_reads := map ReadBytes bss\<rparr>\<rparr>) of
        None \<Rightarrow> None
      | Some (c, out) \<Rightarrow> map_option (\<lambda>(c, out'). (c, out @ out')) (polls R ps c))"

lemma read_loop_bytes:
  assumes "[] \<notin> set bss"
  shows "rc_rx_buf (read_loop now (map ReadBytes bss) c) = rc_rx_buf c @ concat bss"
    and "rc_rx (read_loop now (map ReadBytes bss) c) = rc_rx c" "rc_alive (read_loop now (map ReadBytes bss) c) = rc_alive c"
  using assms by (induction bss arbitrary: c) auto

lemma records_length: "records R k ms = Some cts \<Longrightarrow> length cts = length ms"
  by (induction R k ms arbitrary: cts rule: records.induct) (auto split: option.splits)

lemma has_ping_drop: "has_ping (drop n ms) \<Longrightarrow> has_ping ms"
  by (auto simp: has_ping_def dest: in_set_dropD)

lemma records_wf:
  assumes "rook_ok R" "records R k ms = Some cts" "\<forall>(ch, m) \<in> set ms. length m + 21 < 2 ^ 32" "ct \<in> set cts"
  shows "length ct < 2 ^ 32"
  using assms(2-)
proof (induction ms arbitrary: k cts)
  case (Cons chm ms)
  obtain ch m where chm: "chm = (ch, m)" by (rule prod.exhaust)
  with Cons.prems obtain k' ct' cts' where "record_seal R (frame_tcp ch m) k = Some (k', ct')" "cts = ct' # cts'" "records R k' ms = Some cts'"
    by (auto split: option.splits)
  with Cons.IH Cons.prems chm show ?case by (auto dest: record_seal_length [OF assms(1)])
qed simp

lemma polls_deliver:
  assumes "rook_ok R" "rc_rx_buf c @ concat (concat (map snd ps)) = concat (map record_bytes cts)"
    and "records R (rc_rx c) ms = Some cts" "\<forall>(ch, m) \<in> set ms. length m + 21 < 2 ^ 32"
    and "\<forall>(now, bss) \<in> set ps. [] \<notin> set bss" "next_record (rc_rx_buf c) = None"
  shows "case polls R ps c of
      None \<Rightarrow> has_ping ms
    | Some (c', out) \<Rightarrow> out = for_caller ms \<and> rc_rx_buf c' = [] \<and> (rc_alive c' = rc_alive c \<or> has_ping ms)"
  using assms(2-)
proof (induction ps arbitrary: c ms cts)
  case Nil
  have "cts = []"
  proof (cases cts)
    case (Cons ct cts')
    then have "next_record (rc_rx_buf c) \<noteq> None"
      using Nil.prems(1) rcs.get_put [of ct] records_wf [OF assms(1) Nil.prems(2,3), of ct] by simp
    then show ?thesis using Nil.prems(5) by simp
  qed
  moreover from this have "ms = []" using records_length [OF Nil.prems(2)] by simp
  ultimately show ?case using Nil.prems(1) by (simp add: for_caller_def)
next
  case (Cons p ps)
  obtain now bss where p: "p = (now, bss)" by (rule prod.exhaust)
  let ?c = "c\<lparr>rc_tcp := (rc_tcp c)\<lparr>ts_reads := map ReadBytes bss\<rparr>\<rparr>" and ?fut = "concat (concat (map snd ps))"
  let ?r = "read_loop now (map ReadBytes bss) ?c"
  have ne: "[] \<notin> set bss" using Cons.prems(4) by (simp add: p)
  note r = read_loop_bytes [OF ne, of now ?c]
  have "case record_loop R now ?r of None \<Rightarrow> has_ping ms
    | Some (c', out) \<Rightarrow> (rc_alive c' = rc_alive ?r \<or> has_ping ms) \<and> next_record (rc_rx_buf c') = None \<and>
        (\<exists>n. out = for_caller (take n ms) \<and> polled R ms cts ?fut n c')"
    by (rule record_loop_prefix [OF assms(1)]) (use r Cons.prems in \<open>auto simp: p\<close>)
  note loop = this
  show ?case
  proof (cases "record_loop R now ?r")
    case None
    then show ?thesis using loop by (simp add: p poll_tcp_def)
  next
    case (Some y)
    obtain c1 out where y: "y = (c1, out)" by (rule prod.exhaust)
    from loop obtain n where n: "out = for_caller (take n ms)" "polled R ms cts ?fut n c1" "next_record (rc_rx_buf c1) = None"
      "rc_alive c1 = rc_alive c \<or> has_ping ms" by (auto simp: Some y r)
    have "case polls R ps c1 of None \<Rightarrow> has_ping (drop n ms)
      | Some (c', out) \<Rightarrow> out = for_caller (drop n ms) \<and> rc_rx_buf c' = [] \<and> (rc_alive c' = rc_alive c1 \<or> has_ping (drop n ms))"
      by (rule Cons.IH) (use n Cons.prems in \<open>auto simp: polled_def dest: in_set_dropD\<close>)
    moreover have "for_caller (take n ms) @ for_caller (drop n ms) = for_caller ms"
      by (simp add: for_caller_def flip: filter_append)
    ultimately show ?thesis
      using n(1,4) has_ping_drop [of n ms] by (auto simp: p poll_tcp_def Some y split: option.splits)
  qed
qed

text \<open>C12. Reliable messages arrive complete and in order: when one end has sent a sequence of messages for TCP, over
  a socket that took its writes in pieces of any size, and the other end polls while the stream reaches it cut
  anywhere, the polls hand over exactly the messages sent, control messages excepted, and no byte stays behind.
  A poll fails to return only over the answer to a ping, whose write spins until the peer reads.\<close>

theorem rook_tcp_in_order:
  assumes "rook_ok R" "send_all R es a = Some a'" "\<forall>(now, ch, m) \<in> set es. on_tcp ch m \<and> length m + 21 < 2 ^ 32"
    and "rc_rx b = rc_tx a" "rc_rx_buf b = []"
    and "ts_sent (rc_tcp a') = ts_sent (rc_tcp a) @ concat (concat (map snd ps))" "\<forall>(now, bss) \<in> set ps. [] \<notin> set bss"
  shows "case polls R ps b of
      None \<Rightarrow> has_ping (map snd es)
    | Some (b', out) \<Rightarrow> out = for_caller (map snd es) \<and> rc_rx_buf b' = [] \<and> (rc_alive b' = rc_alive b \<or> has_ping (map snd es))"
proof -
  obtain cts where cts: "records R (rc_tx a) (map snd es) = Some cts"
    "ts_sent (rc_tcp a') = ts_sent (rc_tcp a) @ concat (map record_bytes cts)"
    using send_all_records [OF assms(2)] assms(3) unfolding split_beta by blast
  show ?thesis
    by (rule polls_deliver [OF assms(1) _ _ _ assms(7), of b cts]) (use cts assms(3-6) in \<open>auto simp: next_record_def split_beta\<close>)
qed

definition demo_tcp :: "rook_session \<Rightarrow> rook_conn" where
  "demo_tcp s = conn_new 0 1200 \<lparr>ts_writes = [Room 3, WriteBlocks, Room 50, Room 50, Room 7, Room 50], ts_reads = [], ts_sent = []\<rparr>
     \<lparr>us_sends = [], us_in = [], us_sent = []\<rparr> s (SocketAddrV4 1 2) True"

definition demo_session :: rook_session where
  "demo_session = \<lparr>k_tcp_tx = [1], k_tcp_rx = [1], k_udp_tx = [2], k_udp_rx = [2], rs_session_id = replicate 16 9\<rparr>"

definition demo_stream :: bytes where
  "demo_stream = ts_sent (rc_tcp (the (send_all demo_rook [(5, 0, [7, 8]), (6, 201, [9])] (demo_tcp demo_session))))"

theorem rook_tcp_in_order_witness:
  "\<exists>b'. polls demo_rook [(7, [take 10 demo_stream]), (8, [take 20 (drop 10 demo_stream), drop 30 demo_stream])] (demo_tcp demo_session) =
     Some (b', [(0, [7, 8]), (201, [9])])"
proof -
  let ?es = "[(5, 0, [7, 8]), (6, 201, [9])] :: (instant \<times> u8 \<times> bytes) list"
  let ?ps = "[(7, [take 10 demo_stream]), (8, [take 20 (drop 10 demo_stream), drop 30 demo_stream])] :: (instant \<times> bytes list) list"
  have "send_all demo_rook ?es (demo_tcp demo_session) \<noteq> None" by code_simp
  then obtain a' where a': "send_all demo_rook ?es (demo_tcp demo_session) = Some a'" by blast
  have l: "length demo_stream = 53" by code_simp
  have "\<not> has_ping (map snd ?es)" by (simp add: has_ping_def CH_CONTROL_def)
  moreover have "for_caller (map snd ?es) = [(0, [7, 8]), (201, [9])]" by (simp add: for_caller_def CH_CONTROL_def)
  moreover have "case polls demo_rook ?ps (demo_tcp demo_session) of None \<Rightarrow> has_ping (map snd ?es)
    | Some (b', out) \<Rightarrow> out = for_caller (map snd ?es) \<and> rc_rx_buf b' = [] \<and> (rc_alive b' = rc_alive (demo_tcp demo_session) \<or> has_ping (map snd ?es))"
  proof (rule rook_tcp_in_order [OF demo_rook_ok a'])
    have "demo_stream = ts_sent (rc_tcp a')" unfolding demo_stream_def a' option.sel by (rule refl)
    moreover have "take 20 (drop 10 demo_stream) @ drop 30 demo_stream = drop 10 demo_stream"
      using append_take_drop_id [of 20 "drop 10 demo_stream"] by simp
    ultimately show "ts_sent (rc_tcp a') = ts_sent (rc_tcp (demo_tcp demo_session)) @ concat (concat (map snd ?ps))"
      by (simp add: demo_tcp_def conn_new_def)
  qed (use l in \<open>auto simp: on_tcp_def is_udp_def CH_CTL_def CH_META_def demo_tcp_def conn_new_def demo_session_def\<close>)
  ultimately show ?thesis by (auto split: option.splits)
qed

end
