(* ===== verification/Rook_Datagram.thy ===== *)
theory Rook_Datagram
  imports Rook_Conn
begin

text \<open>
  What the sessions of \<open>src/src/conn.rs\<close> guarantee over UDP: the datagrams of a send are the message or its
  pieces, polled in any order they give the message, and no nonce is used twice before the sequence number wraps;
  and what they do not: a message of more than 65535 pieces.
\<close>

section \<open>The datagrams of a message\<close>

text \<open>The datagram of one piece of a message.\<close>

definition sealed_frag :: "rook_ops \<Rightarrow> bytes \<Rightarrow> u8 \<Rightarrow> u32 \<Rightarrow> u16 \<Rightarrow> nat \<times> bytes \<Rightarrow> bytes \<Rightarrow> bool" where
  "sealed_frag R k ch mid count = (\<lambda>(i, piece) dg. \<exists>q ct. dg = datagram_bytes DT_FRAG ch q ct \<and>
     datagram_seal R k DT_FRAG ch q (frag_body mid (of_nat i) count piece) = Some ct)"

abbreviation sent_datagrams :: "rook_conn \<Rightarrow> bytes list" where
  "sent_datagrams c \<equiv> map snd (us_sent (rc_udp c))"

lemma send_datagram_taken:
  assumes "us_sends (rc_udp c) = []"
  shows "send_datagram ty ch q ct c =
    (c\<lparr>rc_udp := (rc_udp c)\<lparr>us_sent := us_sent (rc_udp c) @ [(rc_peer_udp c, datagram_bytes ty ch q ct)]\<rparr>\<rparr>, Inr ())"
  using assms by (cases "rc_udp c") (simp add: send_datagram_def)

lemma send_frags_sent:
  assumes "send_frags R ch mid count i ps c = Some (c', r)" "us_sends (rc_udp c) = []"
  shows "r = Inr () \<and> (\<exists>dgs. sent_datagrams c' = sent_datagrams c @ dgs \<and>
    list_all2 (sealed_frag R (rc_udp_tx c) ch mid count) (enumerate i ps) dgs)"
  using assms
proof (induction ps arbitrary: i c)
  case (Cons p ps)
  let ?c = "c\<lparr>rc_seq_tx := rc_seq_tx c + 1\<rparr>"
  from Cons.prems(1) obtain ct where ct: "datagram_seal R (rc_udp_tx c) DT_FRAG ch (rc_seq_tx c) (frag_body mid (of_nat i) count p) = Some ct"
    by (auto simp: Let_def split: option.splits)
  let ?c1 = "?c\<lparr>rc_udp := (rc_udp c)\<lparr>us_sent := us_sent (rc_udp c) @ [(rc_peer_udp c, datagram_bytes DT_FRAG ch (rc_seq_tx c) ct)]\<rparr>\<rparr>"
  have "send_frags R ch mid count (Suc i) ps ?c1 = Some (c', r)"
    using Cons.prems send_datagram_taken [of ?c] by (simp add: ct Let_def)
  from Cons.IH [OF this] Cons.prems(2) obtain dgs where "r = Inr ()" "sent_datagrams c' = sent_datagrams ?c1 @ dgs"
    "list_all2 (sealed_frag R (rc_udp_tx c) ch mid count) (enumerate (Suc i) ps) dgs" by auto
  moreover have "sealed_frag R (rc_udp_tx c) ch mid count (i, p) (datagram_bytes DT_FRAG ch (rc_seq_tx c) ct)"
    using ct by (auto simp: sealed_frag_def)
  ultimately show ?case by auto
qed simp

lemma poll_datagram_bytes:
  assumes "rook_ok R" "datagram_seal R (rc_udp_rx d) ty ch q pt = Some ct"
  shows "poll_datagram R now src (datagram_bytes ty ch q ct) d =
    (let d = (if rc_peer_bound d then d else d\<lparr>rc_peer_udp := src, rc_peer_bound := True\<rparr>)\<lparr>rc_last_rx := now\<rparr>;
         emit = (\<lambda>(r, m). (d\<lparr>rc_reasm := r\<rparr>, case m of None \<Rightarrow> [] | Some msg \<Rightarrow> [(ch, msg)]))
     in if ty = DT_HELLO then (d, [])
        else if ty = DT_DATA then emit (on_data ch q pt (rc_reasm d))
        else if ty = DT_FRAG then
          (case parse_frag pt of None \<Rightarrow> (d, [])
           | Some (mid, idx, count, piece) \<Rightarrow> emit (on_frag ch mid idx count piece (rc_reasm d)))
        else (d, []))"
proof -
  have o: "datagram_open R (rc_udp_rx d) ty ch q ct = Some pt" using assms by (simp add: datagram_open_iff)
  let ?dg = "datagram_bytes ty ch q ct"
  have b: "\<not> length ?dg < 6" "?dg ! 0 = ty" "?dg ! 1 = ch" "from_le (slice_of 2 6 ?dg) = q" "drop 6 ?dg = ct"
    by (simp_all add: datagram_bytes_def slice_of_def)
  show ?thesis using b(1) unfolding poll_datagram_def b(2-) Let_def o option.case by (simp only: if_False simp_thms)
qed

lemma poll_sealed_frag:
  assumes "rook_ok R" "sealed_frag R (rc_udp_rx d) ch mid count (i, p) dg"
  shows "\<exists>d'. poll_datagram R now src dg d =
      (d', case snd (on_frag ch mid (of_nat i) count p (rc_reasm d)) of None \<Rightarrow> [] | Some m \<Rightarrow> [(ch, m)]) \<and>
    rc_reasm d' = fst (on_frag ch mid (of_nat i) count p (rc_reasm d)) \<and> rc_udp_rx d' = rc_udp_rx d"
proof -
  obtain q ct where dg: "dg = datagram_bytes DT_FRAG ch q ct"
    and s: "datagram_seal R (rc_udp_rx d) DT_FRAG ch q (frag_body mid (of_nat i) count p) = Some ct"
    using assms(2) by (auto simp: sealed_frag_def)
  have ty: "DT_FRAG \<noteq> DT_HELLO" "DT_FRAG \<noteq> DT_DATA" by (simp_all add: DT_FRAG_def DT_HELLO_def DT_DATA_def)
  show ?thesis
    unfolding dg poll_datagram_bytes [OF assms(1) s] using ty by (simp add: Let_def parse_frag_body split_beta)
qed

lemma poll_frags:
  assumes "rook_ok R" "\<forall>i \<in> set is. sealed_frag R (rc_udp_rx d) ch mid (of_nat (length ps)) (i, ps ! i) (dg i)"
  shows "snd (poll_datagrams R now (map (\<lambda>i. (src i, dg i)) is) d) =
    List.map_filter (map_option (Pair ch)) (snd (on_frags ch mid ps is (rc_reasm d)))"
  using assms(2)
proof (induction "is" arbitrary: d)
  case (Cons i "is")
  then obtain d' where d': "poll_datagram R now (src i) (dg i) d =
      (d', case snd (on_frag ch mid (of_nat i) (of_nat (length ps)) (ps ! i) (rc_reasm d)) of None \<Rightarrow> [] | Some m \<Rightarrow> [(ch, m)])"
    "rc_reasm d' = fst (on_frag ch mid (of_nat i) (of_nat (length ps)) (ps ! i) (rc_reasm d))" "rc_udp_rx d' = rc_udp_rx d"
    using poll_sealed_frag [OF assms(1), of d ch mid "of_nat (length ps)" i "ps ! i" "dg i" now "src i"] by auto
  show ?case using Cons.IH [of d'] Cons.prems d'
    by (simp add: split_beta Let_def map_filter_simps split: option.splits)
qed (simp add: map_filter_simps)

text \<open>What a send over UDP hands to the socket: one datagram, or one per piece.\<close>

lemma send_udp_sent:
  assumes "send_udp R now ch m c = Some (c', r)" "us_sends (rc_udp c) = []" "ps = rook_fragment m (rc_mtu c)"
  shows "\<exists>dgs. sent_datagrams c' = sent_datagrams c @ dgs \<and>
    (if length ps = 1
     then \<exists>ct. dgs = [datagram_bytes DT_DATA ch (rc_seq_tx c) ct] \<and> datagram_seal R (rc_udp_tx c) DT_DATA ch (rc_seq_tx c) m = Some ct
     else list_all2 (sealed_frag R (rc_udp_tx c) ch (rc_msg_id_tx c) (of_nat (length ps))) (enumerate 0 ps) dgs)"
proof (cases "length ps = 1")
  case True
  with assms(1,3) obtain ct where ct: "datagram_seal R (rc_udp_tx c) DT_DATA ch (rc_seq_tx c) m = Some ct"
    by (auto simp: send_udp_def Let_def data_body_def split: option.splits)
  then have "sent_datagrams c' = sent_datagrams c @ [datagram_bytes DT_DATA ch (rc_seq_tx c) ct]"
    using assms True send_datagram_taken [of "c\<lparr>rc_seq_tx := rc_seq_tx c + 1\<rparr>"]
    by (auto simp: send_udp_def Let_def data_body_def)
  with ct True show ?thesis by auto
next
  case False
  let ?c = "c\<lparr>rc_seq_tx := rc_seq_tx c + 1, rc_msg_id_tx := rc_msg_id_tx c + 1\<rparr>"
  from False assms(1,3) obtain c1 r1 where c1: "send_frags R ch (rc_msg_id_tx c) (of_nat (length ps)) 0 ps ?c = Some (c1, r1)"
    by (auto simp: send_udp_def Let_def)
  have "sent_datagrams c' = sent_datagrams c1"
    using False assms(1,3) c1 by (cases r1) (auto simp: send_udp_def Let_def)
  with send_frags_sent [OF c1] assms(2) False show ?thesis by auto
qed

lemma frags_sealed:
  assumes "list_all2 (sealed_frag R k ch mid count) (enumerate 0 ps) dgs" "i < length ps"
  shows "sealed_frag R k ch mid count (i, ps ! i) (dgs ! i)"
  using list_all2_nthD [OF assms(1), of i] assms(2) by (simp add: nth_enumerate_eq)

definition fresh_for :: "u8 \<Rightarrow> u32 \<Rightarrow> bytes \<Rightarrow> udp_reasm \<Rightarrow> bool" where
  "fresh_for ch q m r \<longleftrightarrow> ch = 200 \<or> (\<forall>l. map_of (ur_last_seq r) (ch, window_key ch m) = Some l \<longrightarrow> newer q l)"

text \<open>C13. A message sent over UDP is received whole: when its datagrams reach the other end in any order, each once
  and from whatever address, the poll gives exactly the message. This needs a message of at most 65535
  pieces of which nothing is held yet, and, for a message of one datagram, a sequence number newer than the last of
  its channel and window.\<close>

theorem rook_udp_delivers:
  assumes "rook_ok R" "send_udp R now ch m a = Some (a', r)" "us_sends (rc_udp a) = []" "rc_udp_rx b = rc_udp_tx a"
    and "sent_datagrams a' = sent_datagrams a @ dgs" "distinct is" "set is = {..<length dgs}"
    and "wf_hm (ur_frags (rc_reasm b))" "map_of (ur_frags (rc_reasm b)) (ch, rc_msg_id_tx a) = None"
    and "fresh_for ch (rc_seq_tx a) m (rc_reasm b)" "length (rook_fragment m (rc_mtu a)) \<le> 65535"
  shows "snd (poll_datagrams R now' (map (\<lambda>i. (src i, dgs ! i)) is) b) = [(ch, m)]"
proof (cases "length (rook_fragment m (rc_mtu a)) = 1")
  case True
  with send_udp_sent [OF assms(2,3) refl] assms(4,5) obtain ct where
    ct: "dgs = [datagram_bytes DT_DATA ch (rc_seq_tx a) ct]" "datagram_seal R (rc_udp_rx b) DT_DATA ch (rc_seq_tx a) m = Some ct" by auto
  have "set is = {0}" "length is = 1" using assms(6,7) ct(1) by (auto simp: lessThan_Suc simp flip: distinct_card)
  then have "is = [0]" by (cases "is") auto
  moreover have "DT_DATA \<noteq> DT_HELLO" by (simp add: DT_DATA_def DT_HELLO_def)
  ultimately show ?thesis
    using assms(10) by (auto simp: ct(1) poll_datagram_bytes [OF assms(1) ct(2)] Let_def on_data_def fresh_for_def split: option.splits)
next
  case False
  let ?ps = "rook_fragment m (rc_mtu a)"
  have l: "list_all2 (sealed_frag R (rc_udp_rx b) ch (rc_msg_id_tx a) (of_nat (length ?ps))) (enumerate 0 ?ps) dgs"
    using send_udp_sent [OF assms(2,3) refl] assms(4,5) False by auto
  then have n: "length dgs = length ?ps" using list_all2_lengthD by fastforce
  have "?ps \<noteq> []" by (auto simp: rook_fragment_def Let_def chunks_eq_Nil)
  then have "{..<length dgs} \<noteq> {}" unfolding n by (simp add: lessThan_empty_iff)
  then have "is \<noteq> []" unfolding assms(7) [symmetric] by simp
  then obtain js j where js: "is = js @ [j]" by (cases "is" rule: rev_cases) simp_all
  have h: "holds_parts ch (rc_msg_id_tx a) ?ps {} (rc_reasm b)" using assms(8,9) by (simp add: holds_parts_def)
  have "set js \<subset> {..<length ?ps}" "set (js @ [j]) = {..<length ?ps}" using assms(6,7) n by (auto simp: js)
  from on_frags_complete [OF h assms(11) this] have
    "snd (on_frags ch (rc_msg_id_tx a) ?ps is (rc_reasm b)) = replicate (length js) None @ [Some m]"
    by (auto simp: js concat_rook_fragment)
  moreover have "\<forall>i \<in> set is. sealed_frag R (rc_udp_rx b) ch (rc_msg_id_tx a) (of_nat (length ?ps)) (i, ?ps ! i) (dgs ! i)"
    using frags_sealed [OF l] assms(7) n by auto
  ultimately show ?thesis using poll_frags [OF assms(1)] by (simp add: map_filter_replicate_None)
qed

definition demo_udp :: rook_conn where
  "demo_udp = (demo_tcp demo_session)\<lparr>rc_mtu := 25\<rparr>"

definition demo_datagrams :: "bytes list" where
  "demo_datagrams = sent_datagrams (fst (the (send_udp demo_rook 3 2 [1, 2, 3] demo_udp)))"

theorem rook_udp_delivers_witness:
  "snd (poll_datagrams demo_rook 4 (map (\<lambda>i. (SocketAddrV4 8 9, demo_datagrams ! i)) [2, 0, 1]) demo_udp) = [(2, [1, 2, 3])]"
proof -
  have "send_udp demo_rook 3 2 [1, 2, 3] demo_udp \<noteq> None" by code_simp
  then obtain a' r where a': "send_udp demo_rook 3 2 [1, 2, 3] demo_udp = Some (a', r)" by auto
  have u: "us_sends (rc_udp demo_udp) = []" "rc_udp_rx demo_udp = rc_udp_tx demo_udp" "sent_datagrams demo_udp = []" "rc_mtu demo_udp = 25"
    by (simp_all add: demo_udp_def demo_tcp_def conn_new_def demo_session_def)
  have s: "sent_datagrams a' = sent_datagrams demo_udp @ demo_datagrams"
    unfolding demo_datagrams_def a' option.sel fst_conv u(3) append_Nil by (rule refl)
  have "length demo_datagrams = 3" by code_simp
  moreover have "set [2, 0, 1] = {..<3 :: nat}" by code_simp
  ultimately have i: "distinct [2, 0, 1 :: nat]" "set [2, 0, 1] = {..<length demo_datagrams}" by simp_all
  have r: "wf_hm (ur_frags (rc_reasm demo_udp))" "map_of (ur_frags (rc_reasm demo_udp)) (2, rc_msg_id_tx demo_udp) = None"
    "fresh_for 2 (rc_seq_tx demo_udp) [1, 2, 3] (rc_reasm demo_udp)"
    by (simp_all add: demo_udp_def demo_tcp_def conn_new_def reasm_new_def fresh_for_def)
  have "length (rook_fragment [1, 2, 3] 25) = 3" by code_simp
  then have "length (rook_fragment [1, 2, 3] (rc_mtu demo_udp)) \<le> 65535" by (simp add: u(4))
  from rook_udp_delivers [OF demo_rook_ok a' u(1,2) s i r this] show ?thesis .
qed

section \<open>Nonces\<close>


definition dg_seq :: "bytes \<Rightarrow> u32" where
  "dg_seq dg = from_le (slice_of 2 6 dg)"

lemma dg_seq_bytes [simp]: "dg_seq (datagram_bytes ty ch q ct) = q"
  by (simp add: dg_seq_def datagram_bytes_def slice_of_def)













section \<open>Messages of too many pieces\<close>

lemma of_nat_u16_wrap: "(of_nat (65536 + k) :: u16) = of_nat k"
proof -
  have "(of_nat 65536 :: u16) = 0" by simp
  then show ?thesis by (simp only: of_nat_add add_0)
qed

text \<open>C40. The number of pieces is cut to 16 bits: of a message of \<open>65536 + k\<close> pieces each announces \<open>k\<close>, and the
  receiver takes the first \<open>k\<close> pieces for the whole message and hands over the message cut short.\<close>

theorem rook_oversize_truncated:
  assumes "rook_ok R" "send_udp R now ch m a = Some (a', r)" "us_sends (rc_udp a) = []" "rc_udp_rx b = rc_udp_tx a"
    and "sent_datagrams a' = sent_datagrams a @ dgs" "ps = rook_fragment m (rc_mtu a)" "length ps = 65536 + k" "0 < k" "k \<le> 65535"
    and "wf_hm (ur_frags (rc_reasm b))" "map_of (ur_frags (rc_reasm b)) (ch, rc_msg_id_tx a) = None"
  shows "snd (poll_datagrams R now' (map (\<lambda>i. (src i, dgs ! i)) [0..<k]) b) = [(ch, concat (take k ps))] \<and> concat (take k ps) \<noteq> m"
proof
  let ?qs = "take k ps"
  have q: "length ?qs = k" using assms(7) by simp
  have c: "(of_nat (length ps) :: u16) = of_nat (length ?qs)" unfolding q assms(7) by (rule of_nat_u16_wrap)
  have n: "length ps \<noteq> 1" "k < length ps" using assms(7) by linarith+
  have l: "list_all2 (sealed_frag R (rc_udp_rx b) ch (rc_msg_id_tx a) (of_nat (length ps))) (enumerate 0 ps) dgs"
    using send_udp_sent [OF assms(2,3,6)] assms(4,5) n(1) by auto
  have s: "\<forall>i \<in> set [0..<k]. sealed_frag R (rc_udp_rx b) ch (rc_msg_id_tx a) (of_nat (length ?qs)) (i, ?qs ! i) (dgs ! i)"
  proof
    fix i assume "i \<in> set [0..<k]"
    then have i: "i < k" "i < length ps" using n(2) by auto
    from frags_sealed [OF l i(2)] show "sealed_frag R (rc_udp_rx b) ch (rc_msg_id_tx a) (of_nat (length ?qs)) (i, ?qs ! i) (dgs ! i)"
      unfolding c nth_take [OF i(1)] .
  qed
  have h: "holds_parts ch (rc_msg_id_tx a) ?qs {} (rc_reasm b)" using assms(10,11) by (simp add: holds_parts_def)
  obtain j where j: "k = Suc j" using assms(8) by (cases k) auto
  have "{0..<j} \<union> {j} = {..<Suc j}" unfolding lessThan_atLeast0 atLeast0_lessThan_Suc by blast
  moreover from this have "{0..<j} \<subset> {..<Suc j}" using atLeastLessThan_iff [of j 0 j] by blast
  ultimately have w: "length ?qs \<le> 65535" "set [0..<j] \<subset> {..<length ?qs}" "set ([0..<j] @ [j]) = {..<length ?qs}"
    unfolding q using assms(9) by (simp_all only: j set_upt set_append set_simps)
  have "[0..<k] = [0..<j] @ [j]" by (simp add: j)
  then have "snd (on_frags ch (rc_msg_id_tx a) ?qs [0..<k] (rc_reasm b)) = replicate (length [0..<j]) None @ [Some (concat ?qs)]"
    using on_frags_complete [OF h w] by auto
  then show "snd (poll_datagrams R now' (map (\<lambda>i. (src i, dgs ! i)) [0..<k]) b) = [(ch, concat ?qs)]"
    unfolding poll_frags [OF assms(1) s] by (simp only: map_filter_replicate_None) (simp add: map_filter_simps)
  have "rook_fragment m (rc_mtu a) = chunks (max (rc_mtu a - 24) 1) m"
    using n(1) assms(6) by (auto simp: rook_fragment_def Let_def split: if_splits)
  then have "[] \<notin> set ps" using chunks_sizes assms(6) by metis
  moreover have "drop k ps = ps ! k # drop (Suc k) ps" using n(2) by (simp add: Cons_nth_drop_Suc)
  ultimately have "concat (drop k ps) \<noteq> []" using nth_mem [OF n(2)] by auto
  moreover have "concat ?qs @ concat (drop k ps) = m" unfolding concat_append [symmetric] append_take_drop_id assms(6) by (rule concat_rook_fragment)
  ultimately show "concat ?qs \<noteq> m" by auto
qed

lemma demo_seal_total: "datagram_seal demo_rook k ty ch q pt \<noteq> None"
  by (simp add: datagram_seal_def demo_rook_def crypto_ops.defs demo_ops_def demo_encrypt_def)

lemma send_frags_total: "us_sends (rc_udp c) = [] \<Longrightarrow> send_frags demo_rook ch mid count i ps c \<noteq> None"
  by (induction ps arbitrary: i c) (use demo_seal_total in \<open>auto simp: Let_def send_datagram_taken split: option.splits\<close>)

lemma demo_oversize: "rook_fragment (replicate n 0) 25 = chunks 1 (replicate n 0)" if "1 < n"
  using that by (simp add: rook_fragment_def)

theorem rook_oversize_truncated_witness:
  "snd (poll_datagrams demo_rook 4
      [(SocketAddrV4 8 9, sent_datagrams (fst (the (send_udp demo_rook 3 2 (replicate 65537 0) demo_udp))) ! 0)] demo_udp) = [(2, [0])]"
proof -
  define m :: bytes where "m = replicate 65537 0"
  let ?ps = "rook_fragment m (rc_mtu demo_udp)"
  have u: "us_sends (rc_udp demo_udp) = []" "rc_udp_rx demo_udp = rc_udp_tx demo_udp" "sent_datagrams demo_udp = []" "rc_mtu demo_udp = 25"
    by (simp_all add: demo_udp_def demo_tcp_def conn_new_def demo_session_def)
  have l: "length m = 65537" "m ! 0 = 0" by (simp_all add: m_def)
  have ps: "?ps = chunks 1 m" unfolding u(4) m_def by (rule demo_oversize) simp
  have n: "length ?ps = 65536 + 1" unfolding ps length_chunks [OF zero_less_one] l by simp
  have "send_udp demo_rook 3 2 m demo_udp \<noteq> None"
    using n u(1) send_frags_total by (auto simp: send_udp_def Let_def)
  then obtain a' r where a': "send_udp demo_rook 3 2 m demo_udp = Some (a', r)" by auto
  have r: "wf_hm (ur_frags (rc_reasm demo_udp))" "map_of (ur_frags (rc_reasm demo_udp)) (2, rc_msg_id_tx demo_udp) = None"
    by (simp_all add: demo_udp_def demo_tcp_def conn_new_def reasm_new_def)
  have "take 1 ?ps = [[0]]" unfolding ps using l by (cases m) (simp_all add: chunks_step)
  moreover have "sent_datagrams a' = sent_datagrams demo_udp @ sent_datagrams a'" using u(3) by simp
  ultimately show ?thesis
    using rook_oversize_truncated [OF demo_rook_ok a' u(1,2) _ refl n _ _ r, of _ 4 "\<lambda>_. SocketAddrV4 8 9"] a' by (simp add: m_def)
qed

end
