(* ===== verification/Rust_Str.thy ===== *)
theory Rust_Str
  imports Hub_Frame
begin

text \<open>
  What the configuration code uses of the standard library on strings, which are UTF-8 byte strings:
  \<open>str::trim\<close>, the case-insensitive comparison of ASCII, \<open>FromStr\<close> of the unsigned integers, and
  \<open>FromStr\<close> of \<open>SocketAddr\<close> with its number, IPv4 and IPv6 readers.
\<close>

section \<open>White space\<close>

text \<open>The characters with the Unicode property \<open>White_Space\<close>, as encoded. No encoding is the beginning or the end of
  another, so that trimming whole encodings is trimming characters.\<close>

definition white_spaces :: "string list" where
  "white_spaces =
     map (\<lambda>n. [char_of n]) [9, 10, 11, 12, 13, 32 :: nat] @
     map (map char_of) [[0xC2, 0x85], [0xC2, 0xA0], [0xE1, 0x9A, 0x80 :: nat]] @
     map (\<lambda>n. map char_of [0xE2, 0x80, n]) ([0x80..<0x8B] @ [0xA8, 0xA9, 0xAF :: nat]) @
     map (map char_of) [[0xE2, 0x81, 0x9F], [0xE3, 0x80, 0x80 :: nat]]"

definition white_prefix :: "string list \<Rightarrow> string \<Rightarrow> string option" where
  "white_prefix ws s = List.find (\<lambda>w. take (length w) s = w) ws"

lemma white_prefix_drop: "white_prefix ws s = Some w \<Longrightarrow> [] \<notin> set ws \<Longrightarrow> length (drop (length w) s) < length s"
proof -
  assume "white_prefix ws s = Some w" and ne: "[] \<notin> set ws"
  then have w: "w \<in> set ws" "take (length w) s = w" by (auto simp: white_prefix_def find_Some_iff)
  then have "w \<noteq> []" using ne by auto
  with w(2) show ?thesis by (cases s) auto
qed

lemma white_spaces_ne: "[] \<notin> set white_spaces" "[] \<notin> set (map rev white_spaces)"
  by (auto simp: white_spaces_def)

function strip_white :: "string list \<Rightarrow> string \<Rightarrow> string" where
  "strip_white ws s =
     (if [] \<in> set ws then s
      else case white_prefix ws s of None \<Rightarrow> s | Some w \<Rightarrow> strip_white ws (drop (length w) s))"
  by pat_completeness auto
termination
  by (relation "measure (\<lambda>(ws, s). length s)") (auto dest: white_prefix_drop)

declare strip_white.simps [simp del]

definition trim :: "string \<Rightarrow> string" where
  "trim s = rev (strip_white (map rev white_spaces) (rev (strip_white white_spaces s)))"

section \<open>ASCII case\<close>

definition ascii_lower :: "char \<Rightarrow> char" where
  "ascii_lower c = (let n = of_char c :: nat in if 65 \<le> n \<and> n \<le> 90 then char_of (n + 32) else c)"

definition to_ascii_lowercase :: "string \<Rightarrow> string" where
  "to_ascii_lowercase = map ascii_lower"

definition eq_ignore_ascii_case :: "string \<Rightarrow> string \<Rightarrow> bool" where
  "eq_ignore_ascii_case s t \<longleftrightarrow> to_ascii_lowercase s = to_ascii_lowercase t"

section \<open>Integers\<close>

definition dec_value :: "char \<Rightarrow> nat option" where
  "dec_value c = (let n = of_char c :: nat in if 48 \<le> n \<and> n \<le> 57 then Some (n - 48) else None)"

fun dec_digits :: "nat \<Rightarrow> string \<Rightarrow> nat option" where
  "dec_digits acc [] = Some acc"
| "dec_digits acc (c # cs) = (case dec_value c of None \<Rightarrow> None | Some d \<Rightarrow> dec_digits (10 * acc + d) cs)"

text \<open>An integer type of \<open>w\<close> bits: an optional plus sign and at least one digit, of a value within range. An
  overflow on the way is an overflow at the end.\<close>

definition parse_uint :: "nat \<Rightarrow> string \<Rightarrow> nat option" where
  "parse_uint w s =
     (let ds = (case s of c # cs \<Rightarrow> if c = CHR ''+'' \<and> cs \<noteq> [] then cs else s | [] \<Rightarrow> []) in
      if ds = [] then None
      else case dec_digits 0 ds of None \<Rightarrow> None | Some n \<Rightarrow> if n < 2 ^ w then Some n else None)"

section \<open>Socket addresses\<close>

type_synonym 'a reader = "string \<Rightarrow> ('a \<times> string) option"

definition read_given_char :: "char \<Rightarrow> unit reader" where
  "read_given_char c s = (case s of x # xs \<Rightarrow> if x = c then Some ((), xs) else None | [] \<Rightarrow> None)"

text \<open>The digits at the front, and what follows them.\<close>

fun span_digits :: "(char \<Rightarrow> nat option) \<Rightarrow> string \<Rightarrow> nat list \<times> string" where
  "span_digits f [] = ([], [])"
| "span_digits f (c # cs) =
     (case f c of None \<Rightarrow> ([], c # cs) | Some d \<Rightarrow> (let (ds, r) = span_digits f cs in (d # ds, r)))"

definition digits_value :: "nat \<Rightarrow> nat list \<Rightarrow> nat" where
  "digits_value radix ds = foldl (\<lambda>n d. n * radix + d) 0 ds"

text \<open>A number of \<open>w\<close> bits in base 10 or 16: at most \<open>max_digits\<close> digits, where given.\<close>

definition read_number :: "nat \<Rightarrow> nat \<Rightarrow> nat option \<Rightarrow> bool \<Rightarrow> nat reader" where
  "read_number w radix max_digits allow_zero_prefix s =
     (let (ds, r) = span_digits (if radix = 16 then hex_value else dec_value) s; n = digits_value radix ds in
      if ds = [] \<or> (case max_digits of Some m \<Rightarrow> length ds > m | None \<Rightarrow> False) \<or>
         (\<not> allow_zero_prefix \<and> hd ds = 0 \<and> length ds > 1) \<or> n \<ge> 2 ^ w
      then None else Some (n, r))"

definition read_ipv4_addr :: "u32 reader" where
  "read_ipv4_addr s =
     (case read_number 8 10 (Some 3) False s of None \<Rightarrow> None | Some (a, s) \<Rightarrow>
      (case read_given_char (CHR ''.'') s of None \<Rightarrow> None | Some (_, s) \<Rightarrow>
      (case read_number 8 10 (Some 3) False s of None \<Rightarrow> None | Some (b, s) \<Rightarrow>
      (case read_given_char (CHR ''.'') s of None \<Rightarrow> None | Some (_, s) \<Rightarrow>
      (case read_number 8 10 (Some 3) False s of None \<Rightarrow> None | Some (c, s) \<Rightarrow>
      (case read_given_char (CHR ''.'') s of None \<Rightarrow> None | Some (_, s) \<Rightarrow>
      (case read_number 8 10 (Some 3) False s of None \<Rightarrow> None | Some (d, s) \<Rightarrow>
         Some (of_nat (((a * 256 + b) * 256 + c) * 256 + d), s))))))))"

text \<open>A part of an IPv6 address: the separator before it, except for the first.\<close>

definition read_separator :: "nat \<Rightarrow> 'a reader \<Rightarrow> 'a reader" where
  "read_separator i inner s =
     (if i > 0 then (case read_given_char (CHR '':'') s of None \<Rightarrow> None | Some (_, s) \<Rightarrow> inner s) else inner s)"

text \<open>Up to \<open>limit\<close> groups of 16 bits; an IPv4 address stands for the last two. The flag says that it did.\<close>

function read_groups :: "nat \<Rightarrow> nat \<Rightarrow> string \<Rightarrow> nat list \<times> bool \<times> string" where
  "read_groups i limit s =
     (if i \<ge> limit then ([], False, s)
      else case (if i < limit - 1 then read_separator i read_ipv4_addr s else None) of
             Some (a, s') \<Rightarrow> ([unat a div 65536, unat a mod 65536], True, s')
           | None \<Rightarrow>
               (case read_separator i (read_number 16 16 (Some 4) True) s of
                  None \<Rightarrow> ([], False, s)
                | Some (g, s') \<Rightarrow> (let (gs, v4, r) = read_groups (Suc i) limit s' in (g # gs, v4, r))))"
  by pat_completeness auto
termination
  by (relation "measure (\<lambda>(i, limit, s). limit - i)") auto

declare read_groups.simps [simp del]

definition read_ipv6_addr :: "(128 word) reader" where
  "read_ipv6_addr s =
     (let addr = (\<lambda>gs. of_nat (digits_value 65536 gs)) in
      case read_groups 0 8 s of
        (hs, v4, s) \<Rightarrow>
          if length hs = 8 then Some (addr hs, s)
          else if v4 then None
          else case s of
                 c # c' # s' \<Rightarrow>
                   if c = CHR '':'' \<and> c' = CHR '':''
                   then (case read_groups 0 (8 - (length hs + 1)) s' of
                           (ts, _, r) \<Rightarrow> Some (addr (hs @ replicate (8 - length hs - length ts) 0 @ ts), r))
                   else None
               | _ \<Rightarrow> None)"

definition read_port :: "u16 reader" where
  "read_port s =
     (case read_given_char (CHR '':'') s of
        None \<Rightarrow> None
      | Some (_, s) \<Rightarrow> map_option (\<lambda>(n, r). (of_nat n, r)) (read_number 16 10 None True s))"

definition read_scope_id :: "u32 reader" where
  "read_scope_id s =
     (case read_given_char (CHR ''%'') s of
        None \<Rightarrow> None
      | Some (_, s) \<Rightarrow> map_option (\<lambda>(n, r). (of_nat n, r)) (read_number 32 10 None True s))"

definition read_socket_addr_v4 :: "socket_addr reader" where
  "read_socket_addr_v4 s =
     (case read_ipv4_addr s of
        None \<Rightarrow> None
      | Some (a, s) \<Rightarrow> map_option (\<lambda>(p, r). (SocketAddrV4 a p, r)) (read_port s))"

definition read_socket_addr_v6 :: "socket_addr reader" where
  "read_socket_addr_v6 s =
     (case read_given_char (CHR ''['') s of None \<Rightarrow> None | Some (_, s) \<Rightarrow>
      (case read_ipv6_addr s of None \<Rightarrow> None | Some (a, s) \<Rightarrow>
      (let (sc, s) = (case read_scope_id s of Some (sc, r) \<Rightarrow> (sc, r) | None \<Rightarrow> (0, s)) in
       (case read_given_char (CHR '']'') s of None \<Rightarrow> None | Some (_, s) \<Rightarrow>
          map_option (\<lambda>(p, r). (SocketAddrV6 a p 0 sc, r)) (read_port s)))))"

definition parse_socket_addr :: "string \<Rightarrow> socket_addr option" where
  "parse_socket_addr s =
     (case (case read_socket_addr_v4 s of Some x \<Rightarrow> Some x | None \<Rightarrow> read_socket_addr_v6 s) of
        Some (a, []) \<Rightarrow> Some a
      | _ \<Rightarrow> None)"

lemma parse_default_bind: "parse_socket_addr ''0.0.0.0:7474'' = Some (SocketAddrV4 0 7474)"
  by (simp add: parse_socket_addr_def read_socket_addr_v4_def read_ipv4_addr_def read_number_def read_given_char_def
      read_port_def dec_value_def digits_value_def)

end
