(* ===== verification/Hub_Config.thy ===== *)
theory Hub_Config
  imports Rust_Str Hub_Udp
begin

text \<open>
  \<open>rust/telesthitium/src/config.rs\<close>, \<open>FedConfig\<close> of \<open>federation.rs\<close> and \<open>main.rs\<close>: the hub's configuration from
  the environment and what \<open>main\<close> starts from it. \<open>vars\<close> gives the variables that are set and are UTF-8. Reading files and
  making certificates (\<open>tls.rs\<close>, over crates) are parameters. Durations are in milliseconds.
\<close>

section \<open>Reading variables\<close>

type_synonym vars = "string \<Rightarrow> string option"

definition env_var :: "vars \<Rightarrow> string \<Rightarrow> string option" where
  "env_var vars name = (case vars name of Some v \<Rightarrow> if v = [] then None else Some v | None \<Rightarrow> None)"

definition parse_or :: "nat \<Rightarrow> string option \<Rightarrow> nat \<Rightarrow> nat" where
  "parse_or w s dflt =
     (case s of
        Some v \<Rightarrow> (case parse_uint w (trim v) of Some n \<Rightarrow> n | None \<Rightarrow> dflt)
      | None \<Rightarrow> dflt)"

definition env_bool :: "vars \<Rightarrow> string \<Rightarrow> bool" where
  "env_bool vars name \<longleftrightarrow>
     map_option to_ascii_lowercase (env_var vars name) \<in> {Some ''1'', Some ''true'', Some ''yes'', Some ''on''}"

definition opt_addr :: "vars \<Rightarrow> string \<Rightarrow> socket_addr option" where
  "opt_addr vars name =
     (case env_var vars name of
        None \<Rightarrow> None
      | Some v \<Rightarrow> if eq_ignore_ascii_case (trim v) ''off'' then None else parse_socket_addr (trim v))"

definition DEFAULT_UDP_BIND :: string where "DEFAULT_UDP_BIND = ''0.0.0.0:7474''"
definition DEFAULT_PEER_TTL_SECS :: nat where "DEFAULT_PEER_TTL_SECS = 15"
definition DEFAULT_PRUNE_SECS :: nat where "DEFAULT_PRUNE_SECS = 5"
definition DEFAULT_MAX_BANDS :: nat where "DEFAULT_MAX_BANDS = 4096"
definition DEFAULT_MAX_PEERS_PER_BAND :: nat where "DEFAULT_MAX_PEERS_PER_BAND = 256"
definition DEFAULT_CONN_QUEUE :: nat where "DEFAULT_CONN_QUEUE = 1024"
definition DEFAULT_UDP_PEER_QUEUE :: nat where "DEFAULT_UDP_PEER_QUEUE = 256"
definition DEFAULT_UDP_VALIDATION_PACKETS :: nat where "DEFAULT_UDP_VALIDATION_PACKETS = 2"
definition DEFAULT_WS_PATH :: string where "DEFAULT_WS_PATH = ''/band''"
definition MAX_SELF_SIGNED_DAYS :: nat where "MAX_SELF_SIGNED_DAYS = 14"

definition resolve_udp_bind :: "string option \<Rightarrow> socket_addr option" where
  "resolve_udp_bind raw =
     (let dflt = parse_socket_addr DEFAULT_UDP_BIND in
      case map_option trim raw of
        None \<Rightarrow> dflt
      | Some v \<Rightarrow>
          if eq_ignore_ascii_case v ''off'' then None
          else if v = [] then dflt
          else (case parse_socket_addr v of Some a \<Rightarrow> Some a | None \<Rightarrow> dflt))"

section \<open>Configuration\<close>

record config =
  cf_udp_bind :: "socket_addr option"
  cf_ws_bind :: "socket_addr option"
  cf_ws_path :: string
  cf_ws_tls :: bool
  cf_wt_bind :: "socket_addr option"
  cf_unix_dir :: "string option"
  cf_peer_ttl :: duration
  cf_prune_interval :: duration
  cf_conn_queue :: nat
  cf_udp_peer_queue :: nat
  cf_udp_queue_bytes :: nat
  cf_limits :: limits
  cf_tls_cert_path :: "string option"
  cf_tls_key_path :: "string option"
  cf_tls_sans :: "string list"

text \<open>The nonempty pieces between commas, trimmed.\<close>

definition comma_list :: "string \<Rightarrow> string list" where
  "comma_list v = filter (\<lambda>s. s \<noteq> []) (map trim (split_on (CHR '','') v))"

definition config_sans :: "vars \<Rightarrow> string list" where
  "config_sans vars =
     (case map_option comma_list (env_var vars ''HUB_TLS_SANS'') of
        Some (s # ss) \<Rightarrow> s # ss
      | _ \<Rightarrow> [''localhost''])"

definition config_from_env :: "vars \<Rightarrow> config" where
  "config_from_env vars =
     \<lparr>cf_udp_bind = resolve_udp_bind (vars ''HUB_BIND''),
      cf_ws_bind = opt_addr vars ''HUB_WS_BIND'',
      cf_ws_path = (case env_var vars ''HUB_WS_PATH'' of Some p \<Rightarrow> p | None \<Rightarrow> DEFAULT_WS_PATH),
      cf_ws_tls = env_bool vars ''HUB_WS_TLS'',
      cf_wt_bind = opt_addr vars ''HUB_WT_BIND'',
      cf_unix_dir = (case env_var vars ''HUB_UNIX_DIR'' of
                       Some v \<Rightarrow> if eq_ignore_ascii_case v ''off'' then None else Some v
                     | None \<Rightarrow> None),
      cf_peer_ttl = 1000 * parse_or 64 (env_var vars ''HUB_PEER_TTL_SECS'') DEFAULT_PEER_TTL_SECS,
      cf_prune_interval = 1000 * parse_or 64 (env_var vars ''HUB_PRUNE_SECS'') DEFAULT_PRUNE_SECS,
      cf_conn_queue = parse_or 64 (env_var vars ''HUB_CONN_QUEUE'') DEFAULT_CONN_QUEUE,
      cf_udp_peer_queue = parse_or 64 (env_var vars ''HUB_UDP_PEER_QUEUE'') DEFAULT_UDP_PEER_QUEUE,
      cf_udp_queue_bytes = parse_or 64 (env_var vars ''HUB_UDP_QUEUE_BYTES'') (unat DEFAULT_UDP_QUEUE_BYTES),
      cf_limits =
        \<lparr>lm_max_bands = parse_or 64 (env_var vars ''HUB_MAX_BANDS'') DEFAULT_MAX_BANDS,
         lm_max_peers_per_band = parse_or 64 (env_var vars ''HUB_MAX_PEERS_PER_BAND'') DEFAULT_MAX_PEERS_PER_BAND,
         lm_udp_validation_packets =
           of_nat (parse_or 32 (env_var vars ''HUB_UDP_VALIDATION_PACKETS'') DEFAULT_UDP_VALIDATION_PACKETS)\<rparr>,
      cf_tls_cert_path = env_var vars ''HUB_TLS_CERT'',
      cf_tls_key_path = env_var vars ''HUB_TLS_KEY'',
      cf_tls_sans = config_sans vars\<rparr>"

definition config_default :: config where
  "config_default =
     \<lparr>cf_udp_bind = parse_socket_addr DEFAULT_UDP_BIND, cf_ws_bind = None, cf_ws_path = DEFAULT_WS_PATH, cf_ws_tls = False,
      cf_wt_bind = None, cf_unix_dir = None, cf_peer_ttl = 1000 * DEFAULT_PEER_TTL_SECS,
      cf_prune_interval = 1000 * DEFAULT_PRUNE_SECS, cf_conn_queue = DEFAULT_CONN_QUEUE,
      cf_udp_peer_queue = DEFAULT_UDP_PEER_QUEUE, cf_udp_queue_bytes = (unat DEFAULT_UDP_QUEUE_BYTES), cf_limits = default_limits,
      cf_tls_cert_path = None, cf_tls_key_path = None, cf_tls_sans = [''localhost'']\<rparr>"

definition needs_tls :: "config \<Rightarrow> bool" where
  "needs_tls cfg \<longleftrightarrow> cf_wt_bind cfg \<noteq> None \<or> (cf_ws_bind cfg \<noteq> None \<and> cf_ws_tls cfg)"

text \<open>A configured pair of files, or a fresh certificate.\<close>

record 'c tls_ops =
  tls_read :: "string \<Rightarrow> string option"
  tls_from_pem :: "string \<Rightarrow> string \<Rightarrow> 'c option"
  tls_self_signed :: "string list \<Rightarrow> nat \<Rightarrow> 'c option"

definition tls_identity :: "'c tls_ops \<Rightarrow> config \<Rightarrow> 'c option" where
  "tls_identity T cfg =
     (case (cf_tls_cert_path cfg, cf_tls_key_path cfg) of
        (Some c, Some k) \<Rightarrow>
          (case tls_read T c of
             None \<Rightarrow> None
           | Some cert_pem \<Rightarrow> (case tls_read T k of None \<Rightarrow> None | Some key_pem \<Rightarrow> tls_from_pem T cert_pem key_pem))
      | _ \<Rightarrow> tls_self_signed T (cf_tls_sans cfg) MAX_SELF_SIGNED_DAYS)"

section \<open>Federation\<close>

record fed_config =
  fc_listen :: "string option"
  fc_links :: "string list"
  fc_secret :: string
  fc_inbound_active :: bool

definition fed_from_env :: "vars \<Rightarrow> fed_config option" where
  "fed_from_env vars =
     (let listen = env_var vars ''HUB_FED_LISTEN'';
          links = (case vars ''HUB_FED_LINK'' of Some v \<Rightarrow> comma_list v | None \<Rightarrow> [])
      in if listen = None \<and> links = [] then None
         else Some
           \<lparr>fc_listen = listen, fc_links = links,
            fc_secret = (case vars ''HUB_FED_SECRET'' of Some s \<Rightarrow> s | None \<Rightarrow> []),
            fc_inbound_active =
              map_option to_ascii_lowercase (vars ''HUB_FED_DEFAULT'') \<in> {Some ''active'', Some ''1'', Some ''on'', Some ''yes''}\<rparr>)"

section \<open>Starting\<close>

datatype 'c hub_task =
    FanEgress
  | FedListen string bool
  | FedDial string
  | ServeUdp socket_addr nat nat
  | ServeWs socket_addr nat string "'c option"
  | ServeWt socket_addr nat 'c
  | ServeUnix string nat

definition fed_spawn :: "fed_config \<Rightarrow> 'c hub_task list" where
  "fed_spawn f =
     FanEgress # (case fc_listen f of Some a \<Rightarrow> [FedListen a (fc_inbound_active f)] | None \<Rightarrow> []) @ map FedDial (fc_links f)"

datatype 'c started = StartFails | StartPanics | Started "'c hub_task list"

definition hub_main :: "'c tls_ops \<Rightarrow> vars \<Rightarrow> 'c started" where
  "hub_main T vars =
     (let cfg = config_from_env vars; cert = (if needs_tls cfg then Some (tls_identity T cfg) else None) in
      if cert = Some None then StartFails
      else if cf_wt_bind cfg \<noteq> None \<and> cert = None then StartPanics
      else Started
        ((case fed_from_env vars of Some f \<Rightarrow> fed_spawn f | None \<Rightarrow> []) @
         (case cf_udp_bind cfg of Some a \<Rightarrow> [ServeUdp a (cf_udp_peer_queue cfg) (cf_udp_queue_bytes cfg)] | None \<Rightarrow> []) @
         (case cf_ws_bind cfg of
            Some a \<Rightarrow> [ServeWs a (cf_conn_queue cfg) (cf_ws_path cfg) (if cf_ws_tls cfg then Option.bind cert id else None)]
          | None \<Rightarrow> []) @
         (case cf_wt_bind cfg of Some a \<Rightarrow> [ServeWt a (cf_conn_queue cfg) (the (the cert))] | None \<Rightarrow> []) @
         (case cf_unix_dir cfg of Some d \<Rightarrow> [ServeUnix d (cf_conn_queue cfg)] | None \<Rightarrow> [])))"

text \<open>The sweep: \<open>tokio::time::interval\<close> panics on a zero period, which ends the task before its first tick.\<close>

definition prune_task :: "duration \<Rightarrow> duration \<Rightarrow> instant list \<Rightarrow> registry \<Rightarrow> registry" where
  "prune_task interval ttl ticks r =
     (if interval = 0 then r else fold (\<lambda>now r. fst (reg_prune now ttl r)) ticks r)"

section \<open>What the configuration guarantees\<close>

lemma parse_or_none: "parse_uint w (trim v) = None \<Longrightarrow> parse_or w (Some v) d = parse_or w None d"
  by (simp add: parse_or_def)

text \<open>With no variable set the configuration is the default one.\<close>

theorem config_env_default: "config_from_env (\<lambda>_. None) = config_default"
  by (simp add: config_from_env_def config_default_def env_var_def resolve_udp_bind_def opt_addr_def env_bool_def parse_or_def
      config_sans_def default_limits_def DEFAULT_MAX_BANDS_def DEFAULT_MAX_PEERS_PER_BAND_def DEFAULT_UDP_VALIDATION_PACKETS_def)

definition numeric_vars :: "(string \<times> nat) list" where
  "numeric_vars = [(''HUB_PEER_TTL_SECS'', 64), (''HUB_PRUNE_SECS'', 64), (''HUB_CONN_QUEUE'', 64), (''HUB_UDP_PEER_QUEUE'', 64),
     (''HUB_UDP_QUEUE_BYTES'', 64), (''HUB_MAX_BANDS'', 64), (''HUB_MAX_PEERS_PER_BAND'', 64), (''HUB_UDP_VALIDATION_PACKETS'', 32)]"

definition other_vars :: "string list" where
  "other_vars = [''HUB_BIND'', ''HUB_WS_BIND'', ''HUB_WS_PATH'', ''HUB_WS_TLS'', ''HUB_WT_BIND'', ''HUB_UNIX_DIR'', ''HUB_TLS_CERT'',
     ''HUB_TLS_KEY'', ''HUB_TLS_SANS'']"

lemma numeric_vars_distinct: "distinct (map fst numeric_vars @ other_vars)"
  by code_simp

lemma env_var_cong: "vars n = vars' n \<Longrightarrow> env_var vars n = env_var vars' n"
  by (simp add: env_var_def)

text \<open>The configuration depends on each numeric variable through \<open>parse_or\<close> only.\<close>

lemma config_cong:
  assumes "\<And>n w d. (n, w) \<in> set numeric_vars \<Longrightarrow> parse_or w (env_var vars n) d = parse_or w (env_var vars' n) d"
    and "\<And>n. n \<in> set other_vars \<Longrightarrow> vars n = vars' n"
  shows "config_from_env vars = config_from_env vars'"
proof -
  have e: "env_var vars n = env_var vars' n" if "n \<in> set other_vars" for n
    using env_var_cong assms(2) that by blast
  have "env_var vars n = env_var vars' n" if "n \<in> {''HUB_WS_BIND'', ''HUB_WS_PATH'', ''HUB_WS_TLS'', ''HUB_WT_BIND'', ''HUB_UNIX_DIR'', ''HUB_TLS_CERT'',
     ''HUB_TLS_KEY'', ''HUB_TLS_SANS''}" for n
    by (rule e) (use that in \<open>auto simp only: other_vars_def list.set insert_iff empty_iff\<close>)
  note o = this [unfolded insert_iff]
  have b: "vars ''HUB_BIND'' = vars' ''HUB_BIND''" by (rule assms(2)) (simp only: other_vars_def list.set insert_iff simp_thms)
  note n = assms(1) [unfolded numeric_vars_def list.set insert_iff prod.inject]
  have p: "opt_addr vars ''HUB_WS_BIND'' = opt_addr vars' ''HUB_WS_BIND''" "opt_addr vars ''HUB_WT_BIND'' = opt_addr vars' ''HUB_WT_BIND''"
    "env_bool vars ''HUB_WS_TLS'' = env_bool vars' ''HUB_WS_TLS''" "config_sans vars = config_sans vars'"
    by (simp_all only: opt_addr_def env_bool_def config_sans_def o simp_thms)
  show ?thesis unfolding config_from_env_def b p by (simp only: o n simp_thms)
qed

text \<open>A malformed number is as good as none: setting a numeric variable to a text that is no number of its width gives
  the configuration of the same environment without it.\<close>

theorem config_malformed_ignored:
  assumes "(name, w) \<in> set numeric_vars" "parse_uint w (trim v) = None"
  shows "config_from_env (vars(name := Some v)) = config_from_env (vars(name := None))"
proof (rule config_cong)
  fix n w' d assume n: "(n, w') \<in> set numeric_vars"
  show "parse_or w' (env_var (vars(name := Some v)) n) d = parse_or w' (env_var (vars(name := None)) n) d"
  proof (cases "n = name")
    case True
    have "distinct (map fst numeric_vars)" using numeric_vars_distinct by simp
    then have "w' = w" using assms(1) n True by (metis map_of_eq_Some_iff option.inject)
    then show ?thesis using True assms(2) by (simp add: env_var_def parse_or_def)
  qed (simp add: env_var_def)
next
  fix n assume "n \<in> set other_vars"
  moreover have "name \<in> fst ` set numeric_vars" using imageI [OF assms(1), of fst] by simp
  ultimately have "n \<noteq> name" using numeric_vars_distinct by (auto simp del: image_iff)
  then show "(vars(name := Some v)) n = (vars(name := None)) n" by simp
qed

theorem config_malformed_ignored_witness:
  "config_from_env ((\<lambda>_. None)(''HUB_MAX_BANDS'' := Some ''many'')) = config_from_env (\<lambda>_. None)"
proof -
  have "parse_uint 64 (trim ''many'') = None" by code_simp
  from config_malformed_ignored [OF _ this, of "''HUB_MAX_BANDS''" "\<lambda>_. None"] show ?thesis
    by (simp add: numeric_vars_def fun_upd_idem)
qed

text \<open>Whatever the environment, starting the hub does not panic: it fails exactly when a certificate is needed and
  cannot be had. Once started, it serves WebTransport with that certificate, on the configured address and nowhere
  else, and a WebSocket listener has the certificate exactly when TLS is asked for.\<close>

theorem hub_main_sound:
  fixes T :: "'c tls_ops"
  assumes "cfg = config_from_env vars"
  shows "case hub_main T vars of
      StartPanics \<Rightarrow> False
    | StartFails \<Rightarrow> needs_tls cfg \<and> tls_identity T cfg = None
    | Started ts \<Rightarrow> (needs_tls cfg \<longrightarrow> tls_identity T cfg \<noteq> None) \<and>
        (\<forall>a q c. ServeWt a q c \<in> set ts \<longleftrightarrow> cf_wt_bind cfg = Some a \<and> q = cf_conn_queue cfg \<and> tls_identity T cfg = Some c) \<and>
        (\<forall>a q p c. ServeWs a q p c \<in> set ts \<longleftrightarrow> cf_ws_bind cfg = Some a \<and> q = cf_conn_queue cfg \<and> p = cf_ws_path cfg \<and>
           c = (if cf_ws_tls cfg then tls_identity T cfg else None))"
proof -
  have f: "ServeWt a q c \<notin> set (fed_spawn f :: 'c hub_task list)" "ServeWs a q p d \<notin> set (fed_spawn f :: 'c hub_task list)" for a q c p d f
    by (auto simp: fed_spawn_def split: option.splits)
  define rest where "rest = (case fed_from_env vars of Some f \<Rightarrow> fed_spawn f | None \<Rightarrow> []) @
    (case cf_udp_bind cfg of Some a \<Rightarrow> [ServeUdp a (cf_udp_peer_queue cfg) (cf_udp_queue_bytes cfg) :: 'c hub_task] | None \<Rightarrow> [])"
  define ux where "ux = (case cf_unix_dir cfg of Some d \<Rightarrow> [ServeUnix d (cf_conn_queue cfg) :: 'c hub_task] | None \<Rightarrow> [])"
  have r: "ServeWt a q c \<notin> set rest" "ServeWs a q p d \<notin> set rest" "ServeWt a q c \<notin> set ux" "ServeWs a q p d \<notin> set ux" for a q c p d
    using f by (auto simp: rest_def ux_def split: option.splits)
  have m: "hub_main T vars =
     (let cert = (if needs_tls cfg then Some (tls_identity T cfg) else None) in
      if cert = Some None then StartFails
      else if cf_wt_bind cfg \<noteq> None \<and> cert = None then StartPanics
      else Started (rest @
         (case cf_ws_bind cfg of
            Some a \<Rightarrow> [ServeWs a (cf_conn_queue cfg) (cf_ws_path cfg) (if cf_ws_tls cfg then Option.bind cert id else None)]
          | None \<Rightarrow> []) @
         (case cf_wt_bind cfg of Some a \<Rightarrow> [ServeWt a (cf_conn_queue cfg) (the (the cert))] | None \<Rightarrow> []) @ ux))"
    by (simp only: hub_main_def Let_def assms [symmetric] rest_def ux_def append_assoc)
  show ?thesis
  proof (cases "needs_tls cfg")
    case True
    then show ?thesis
      by (cases "tls_identity T cfg"; cases "cf_wt_bind cfg"; cases "cf_ws_bind cfg") (auto simp: m r)
  next
    case False
    then have "cf_wt_bind cfg = None" "cf_ws_bind cfg = None \<or> \<not> cf_ws_tls cfg" by (auto simp: needs_tls_def)
    then show ?thesis using False by (cases "cf_ws_bind cfg") (auto simp: m r)
  qed
qed

text \<open>A zero sweep interval is accepted and ends the sweep: with \<open>HUB_PRUNE_SECS=0\<close> no peer is ever evicted.\<close>

theorem prune_secs_zero:
  assumes "vars ''HUB_PRUNE_SECS'' = Some v" "parse_uint 64 (trim v) = Some 0"
  shows "prune_task (cf_prune_interval (config_from_env vars)) ttl ticks r = r"
proof -
  have "trim [] = []" by code_simp
  then have "v \<noteq> []" using assms(2) by (auto simp: parse_uint_def)
  then have "env_var vars ''HUB_PRUNE_SECS'' = Some v" using assms(1) by (simp only: env_var_def option.case if_False)
  then have "cf_prune_interval (config_from_env vars) = 0" using assms(2) by (simp only: config_from_env_def config.select_convs parse_or_def option.case mult_0_right)
  then show ?thesis by (simp only: prune_task_def if_True simp_thms)
qed

theorem prune_secs_zero_witness:
  "prune_task (cf_prune_interval (config_from_env ((\<lambda>_. None)(''HUB_PRUNE_SECS'' := Some '' 0'')))) 15000 [1, 2] (registry_new default_limits) =
     registry_new default_limits"
proof -
  have "trim '' 0'' = ''0''" by code_simp
  then have "parse_uint 64 (trim '' 0'') = Some 0" by (simp add: parse_uint_def dec_value_def)
  then show ?thesis by (intro prune_secs_zero [of _ "'' 0''"]) (simp only: fun_upd_same)
qed

end
