(* ===== verification/Spec2Isabelle.thy ===== *)
theory Spec2Isabelle
  imports Band_Inv Board_Sync Drop_Transfer Channel_Net Federation Hub_Wt Producer Discovery Rook_Datagram Hub_Config
begin

text \<open>
  Telesthete is an encrypted peer-to-peer transport. Peers that share a key form a \<^emph>\<open>band\<close>; each packet has a
  cleartext header naming the band, a channel type and a channel id, and an encrypted payload. The repository holds
  three programs, all modelled here.

  \<^item> The library \<open>rust/telesthete\<close>. A band owns a transport (keys, sequence counter, socket), a control task that
    negotiates ciphers with each peer, and four kinds of channels on top: streams (freshest wins), reliable
    channels, boards (replicated maps) and drops (files). Beside it are a Unix socket transport with file
    descriptors, peer discovery, and the C interface \<open>rust/telesthete-c\<close> for producers of GPU frames.
  \<^item> The hub \<open>rust/telesthitium\<close>, which relays packets between the peers of a band without its key, over UDP,
    WebSocket, WebTransport and Unix sockets, and to other hubs.
  \<^item> The thin-client transport \<open>src/src\<close>, an older protocol of its own: one TCP and one UDP socket per session.

  \<^bold>\<open>Conventions.\<close> Machine integers are words, so that arithmetic wraps as in a release build; bytes are lists of 8-bit words;
  strings are their UTF-8 bytes; a \<open>HashMap\<close> is an association list with distinct keys and a \<open>BTreeMap\<close> a sorted one
  (\<open>Prelude\<close>). Errors are the left values of a sum, and a panic, or a loop that did not return, is \<open>None\<close>. Clocks, random bytes and
  the results of system calls are arguments. A task of the code is a step function on its state; tasks that
  interleave are an inductive step relation with one rule per critical section. Two sequences of the code are taken as
  one step: the control task's treatment of a packet with its answer, and a reservation in the hub's byte budget with the
  queue operation it belongs to. Crates are records of functions:
  \<open>crypto_ops\<close> (hash, key derivation, AEADs; documented laws \<open>crypto_ok\<close>), \<open>json_ops\<close> (\<open>serde_json\<close>; \<open>json_ok\<close>), \<open>rook_ops\<close>
  (key exchange and MACs; \<open>rook_ok\<close>), \<open>wt_net\<close> (QUIC), \<open>tls_ops\<close> (certificates). Each hypothesis about them is
  instantiated by concrete functions (\<open>demo_ops\<close>, \<open>demo_rook\<close> and others) in the witnesses.

  \<^bold>\<open>Interfaces.\<close> \<open>Codec\<close> has the locales of the wire formats: \<open>wire_codec\<close>, \<open>exact_codec\<close> (nothing but encodings decodes) and
  \<open>framed_codec\<close> (a byte stream cut anywhere gives back the messages written into it). \<open>Replay\<close> has the contract of
  replay protection, from which every receiver gets strictly rising sequences per peer; \<open>Replica\<close> that of a
  last-writer-wins replica, from which boards get convergence. Each is interpreted on the model's own operations by
  the theory that provides them.

  \<^bold>\<open>Theories of the library.\<close>
  \<^item> \<open>Crypto\<close>, \<open>Framing\<close>, \<open>Transport\<close>: \<open>crypto.rs\<close>, \<open>framing.rs\<close>, \<open>transport.rs\<close>. A packet decodes exactly when it is an
    encoding; the datagrams of \<open>2 ^ 64\<close> sends are sealed under distinct nonces; what is dispatched is authentic.
  \<^item> \<open>Fragment\<close>, \<open>Reassembly\<close>: \<open>wire/fragment.rs\<close>. Chunks in any order with repetitions give the payload, whatever came
    before; the reassembler's tables and byte counter are bounded and exact.
  \<^item> \<open>Streams\<close>: \<open>stream.rs\<close>, \<open>wire/stream.rs\<close>. Deliveries of one stream carry rising sequences.
  \<^item> \<open>Channel\<close>, \<open>Channel_Net\<close>: \<open>channel.rs\<close>. The core (\<open>ChannelCore\<close>), the connection task, and two of them over a network
    that loses, repeats and reorders: what is delivered is in order and was sent, and nothing is forgotten by the
    sender before the receiver consumed it.
  \<^item> \<open>Json\<close>, \<open>Board\<close>, \<open>Board_Net\<close>, \<open>Board_Sync\<close>: \<open>board.rs\<close>. Convergence, and anti-entropy end to end over JSON in fragments.
  \<^item> \<open>Drop_Channel\<close>, \<open>Drop_Transfer\<close>: \<open>drop_channel.rs\<close>. Only the file itself is completed, and it is completed when
    requests are answered; offers on which the code diverges, panics or stalls.
  \<^item> \<open>Control\<close>, \<open>Handshake\<close>: \<open>control.rs\<close>. Matching keys at both ends, rising epochs and sequences, limits of the tables.
  \<^item> \<open>Band\<close>, \<open>Band_Link\<close>, \<open>Band_Inv\<close>: \<open>band.rs\<close>. The composition: two bands connect; registry, sessions and keys agree in
    every reachable state; the keepalive task evicts exactly the silent peers when undisturbed.
  \<^item> \<open>Dmabuf\<close>, \<open>Unix_Transport\<close>, \<open>Producer\<close>: \<open>wire/dmabuf.rs\<close>, \<open>unix_transport.rs\<close>, \<open>rust/telesthete-c/src/lib.rs\<close>. A frame
    sent through the C interface arrives with its descriptor and file descriptors, and passes validation exactly
    when the caller kept the planes off the fence; each file descriptor of a message is handed over or closed
    once, except that those of control data the library refuses stay open.
  \<^item> \<open>Discovery\<close>: \<open>discovery.rs\<close>. The announcement format, and the bounded memory of reported peers.

  \<^bold>\<open>Theories of the hub.\<close>
  \<^item> \<open>Hub_Frame\<close>, \<open>Hub_Registry\<close>, \<open>Hub_Udp\<close>, \<open>Hub_Relay\<close>: \<open>frame.rs\<close>, \<open>registry.rs\<close>, \<open>udp.rs\<close>, and what the
    connection transports do to the registry. Caps and budget hold in every reachable state; a frame reaches the peers it should.
  \<^item> \<open>Hub_Wt\<close>: \<open>wt.rs\<close>. The streams of a session are bounded and carry frames of one channel in order, whole except
    for the last one of a stream that failed and was given up.
  \<^item> \<open>Federation\<close>: \<open>federation.rs\<close>. A link has the effect of applying its messages to the far hub in order; two flaws.
  \<^item> \<open>Rust_Str\<close>, \<open>Hub_Config\<close>: \<open>config.rs\<close>, \<open>main.rs\<close>, and the parsers of the standard library they use. Malformed
    numbers are ignored; starting does not panic, but a zero sweep interval ends the sweep.

  \<^bold>\<open>Theories of the thin client.\<close> \<open>Rook_Crypto\<close>, \<open>Rook_Wire\<close>, \<open>Rook_Conn\<close>, \<open>Rook_Datagram\<close>: \<open>crypto.rs\<close>, \<open>wire.rs\<close>,
  \<open>conn.rs\<close> under \<open>src/src\<close>. The handshake agrees; TCP messages arrive complete and in order; a UDP message arrives
  whole from its datagrams in any order; nonces are distinct for \<open>2 ^ 32\<close> numbers; messages of too many pieces are cut.

  \<^bold>\<open>Bounds and fuel.\<close> Loops are total functions with termination proofs (\<open>chunks\<close>, \<open>record_loop\<close>, \<open>read_framed_stream\<close>,
  \<open>link_loop\<close>, \<open>framed_codec.drain\<close>). The range loop of a drop offer may not return; it is a partial function into \<open>option\<close>, with a
  theorem for each case. The spinning write of \<open>conn.rs\<close> consumes a list of the socket's answers, and \<open>None\<close> means
  that it still spins when the list ends. Numeric bounds in statements are those of the code's constants and widths.

  \<^bold>\<open>Not modelled.\<close> Sockets, timers, the tokio scheduler and file system calls: their results are arguments, and a theorem
  quantifies over them. HTTP upgrade, TLS and QUIC set-up (\<open>ws.rs\<close>, \<open>wt.rs\<close>, \<open>tls.rs\<close>) are crates. The accept and redial
  loops of \<open>federation.rs\<close> and \<open>unix.rs\<close> and the socket file per band are operating system calls around the modelled
  steps. \<open>psk.rs\<close>, \<open>ffi.rs\<close>, \<open>lib.rs\<close> and the blocking connect and accept drivers of \<open>conn.rs\<close> are I/O around the modelled
  handshake and session. Logging, \<open>build.rs\<close> and the examples have no behaviour to verify. The Python package
  \<open>telesthete\<close> is a second implementation of the library's protocol.
\<close>

end
